(* ===== verification/Prelude.thy ===== *)
theory Prelude
  imports Main "HOL-Library.Word" "HOL-Library.List_Lexorder" "HOL-Library.Char_ord"
begin

text \<open>
  Shared vocabulary of the development: the result type of C++ code that may fail, C++
  integer division, the list operations behind \<^verbatim>\<open>std::copy\<close>, \<^verbatim>\<open>std::find\<close> and
  \<^verbatim>\<open>std::vector::resize\<close>, the byte encoding of unsigned integers, and an interface for
  transition systems with an inductive invariant.
\<close>

section \<open>Collections of rewrite rules\<close>

named_theorems list_mem "rewrite rules on memory areas seen as lists"
named_theorems inv_intro "facts showing that an operation keeps the invariant of its component"

section \<open>Results of C++ code\<close>

text \<open>
  A failed \<^verbatim>\<open>assert\<close>, a call of \<^verbatim>\<open>abort()\<close> (every \<^verbatim>\<open>LOG_FATAL\<close> ends in one), a thrown
  exception and an access outside an object are values of \<open>cpp_error\<close>; code that may
  fail returns \<open>'a res\<close>.
\<close>

datatype cpp_error =
    AssertFailed
  | Aborted
  | LogicError string
  | OutOfBounds

type_synonym 'a res = "cpp_error + 'a"

definition bindE :: "'a res \<Rightarrow> ('a \<Rightarrow> 'b res) \<Rightarrow> 'b res" where
  "bindE m f = (case m of Inl e \<Rightarrow> Inl e | Inr x \<Rightarrow> f x)"

definition assertE :: "bool \<Rightarrow> unit res" where
  "assertE b = (if b then Inr () else Inl AssertFailed)"

lemma bindE_simps [simp]:
  "bindE (Inl e) f = Inl e"
  "bindE (Inr x) f = f x"
  by (simp_all add: bindE_def)

lemma bindE_Inr_iff: "bindE m f = Inr y \<longleftrightarrow> (\<exists>x. m = Inr x \<and> f x = Inr y)"
  by (cases m) auto

lemma assertE_simps [simp]:
  "assertE True = Inr ()"
  "assertE False = Inl AssertFailed"
  by (simp_all add: assertE_def)

lemma assertE_Inr_iff [simp]: "assertE b = Inr u \<longleftrightarrow> b"
  by (simp add: assertE_def)

lemma bindE_assertE [simp]: "b \<Longrightarrow> bindE (assertE b) f = f ()"
  by simp

lemma bindE_assertE_fail [simp]: "\<not> b \<Longrightarrow> bindE (assertE b) f = Inl AssertFailed"
  by (simp add: assertE_def)

text \<open>\<open>okE m P\<close>: the computation \<open>m\<close> succeeds and its result satisfies \<open>P\<close>.\<close>

definition okE :: "'a res \<Rightarrow> ('a \<Rightarrow> bool) \<Rightarrow> bool" where
  "okE m P = (case m of Inl e \<Rightarrow> False | Inr x \<Rightarrow> P x)"

lemma okE_simps [simp]:
  "okE (Inl e) P = False"
  "okE (Inr x) P = P x"
  by (simp_all add: okE_def)

lemma okE_iff: "okE m P \<longleftrightarrow> (\<exists>x. m = Inr x \<and> P x)"
  by (cases m) auto

lemma okE_bind: "okE m P \<Longrightarrow> (\<And>x. P x \<Longrightarrow> okE (f x) Q) \<Longrightarrow> okE (bindE m f) Q"
  by (cases m) auto

lemma okE_mono: "okE m P \<Longrightarrow> (\<And>x. P x \<Longrightarrow> Q x) \<Longrightarrow> okE m Q"
  by (cases m) auto

lemma okE_conj: "okE m P \<Longrightarrow> okE m Q \<Longrightarrow> okE m (\<lambda>x. P x \<and> Q x)"
  by (cases m) auto

text \<open>A fallible operation for every element of a list, stopping at the first error.\<close>

fun foldE :: "('s \<Rightarrow> 'a \<Rightarrow> 's res) \<Rightarrow> 's \<Rightarrow> 'a list \<Rightarrow> 's res" where
  "foldE f s [] = Inr s"
| "foldE f s (x # xs) = bindE (f s x) (\<lambda>s'. foldE f s' xs)"

lemma foldE_append: "foldE f s (xs @ ys) = bindE (foldE f s xs) (\<lambda>s'. foldE f s' ys)"
proof (induction xs arbitrary: s)
  case (Cons x xs)
  then show ?case by (cases "f s x") simp_all
qed simp

section \<open>C++ integer division\<close>

text \<open>Division of C++ truncates towards zero; the remainder has the sign of the dividend.\<close>

definition cdiv :: "int \<Rightarrow> int \<Rightarrow> int" where
  "cdiv a b = sgn a * sgn b * (\<bar>a\<bar> div \<bar>b\<bar>)"

definition cmod :: "int \<Rightarrow> int \<Rightarrow> int" where
  "cmod a b = a - cdiv a b * b"

lemma cdiv_pos [simp]: "0 \<le> a \<Longrightarrow> 0 < b \<Longrightarrow> cdiv a b = a div b"
  by (cases "a = 0") (simp_all add: cdiv_def)

lemma cmod_pos [simp]: "0 \<le> a \<Longrightarrow> 0 < b \<Longrightarrow> cmod a b = a mod b"
  by (simp add: cmod_def minus_div_mult_eq_mod)

lemma cdiv_neg: "a < 0 \<Longrightarrow> 0 < b \<Longrightarrow> cdiv a b = - ((- a) div b)"
  by (simp add: cdiv_def)

lemma cdiv_cmod: "cdiv a b * b + cmod a b = a"
  by (simp add: cmod_def)

lemma cmod_neg: "a < 0 \<Longrightarrow> 0 < b \<Longrightarrow> cmod a b = - ((- a) mod b)"
  by (simp add: cmod_def cdiv_neg minus_div_mult_eq_mod [symmetric])

section \<open>Memory areas as lists\<close>

text \<open>\<open>overwrite xs i ys\<close> is the area \<open>xs\<close> after \<open>ys\<close> has been copied to offset \<open>i\<close>.\<close>

definition overwrite :: "'a list \<Rightarrow> nat \<Rightarrow> 'a list \<Rightarrow> 'a list" where
  "overwrite xs i ys = take i xs @ ys @ drop (i + length ys) xs"

lemma length_overwrite [simp]:
  "i + length ys \<le> length xs \<Longrightarrow> length (overwrite xs i ys) = length xs"
  by (simp add: overwrite_def)

lemma take_overwrite [list_mem]:
  "i + length ys \<le> length xs \<Longrightarrow> k \<le> i \<Longrightarrow> take k (overwrite xs i ys) = take k xs"
  by (simp add: overwrite_def min_def)

lemma take_drop_overwrite [list_mem]:
  "i + length ys \<le> length xs \<Longrightarrow> n = length ys \<Longrightarrow> take n (drop i (overwrite xs i ys)) = ys"
  by (simp add: overwrite_def)

text \<open>\<open>segment xs i j\<close> is the half-open range \<open>[i, j)\<close> of an area.\<close>

definition segment :: "'a list \<Rightarrow> nat \<Rightarrow> nat \<Rightarrow> 'a list" where
  "segment xs i j = take (j - i) (drop i xs)"

lemma length_segment [simp]: "j \<le> length xs \<Longrightarrow> length (segment xs i j) = j - i"
  by (simp add: segment_def)

lemma segment_empty [simp]: "segment xs i i = []"
  by (simp add: segment_def)

lemma segment_append_segment: "i \<le> j \<Longrightarrow> j \<le> k \<Longrightarrow> segment xs i j @ segment xs j k = segment xs i k"
proof -
  assume "i \<le> j" "j \<le> k"
  then have "drop j xs = drop (j - i) (drop i xs)" and "k - i = (j - i) + (k - j)"
    by simp_all
  then show ?thesis by (simp add: segment_def take_add)
qed

lemma drop_segment [list_mem]: "drop n (segment xs i j) = segment xs (i + n) j"
  by (simp add: segment_def drop_take add.commute)

lemma take_segment [list_mem]: "i + n \<le> j \<Longrightarrow> take n (segment xs i j) = segment xs i (i + n)"
  by (simp add: segment_def min_def)

lemma nth_segment: "i + n < j \<Longrightarrow> j \<le> length xs \<Longrightarrow> segment xs i j ! n = xs ! (i + n)"
  by (simp add: segment_def)

lemma segment_overwrite_before [list_mem]:
  assumes "k + length ys \<le> length xs" "j \<le> k"
  shows "segment (overwrite xs k ys) i j = segment xs i j"
proof -
  have "segment zs i j = drop i (take j zs)" for zs :: "'a list"
    by (simp add: segment_def drop_take)
  then show ?thesis using assms by (simp add: take_overwrite)
qed

lemma segment_overwrite_same [list_mem]:
  "k + length ys \<le> length xs \<Longrightarrow> j = k + length ys \<Longrightarrow> segment (overwrite xs k ys) k j = ys"
  by (simp add: segment_def take_drop_overwrite)

lemma segment_append1 [list_mem]: "j \<le> length xs \<Longrightarrow> segment (xs @ ys) i j = segment xs i j"
  by (simp add: segment_def)

text \<open>
  \<^verbatim>\<open>std::copy(first, last, dest)\<close> on one array, element by element from the front; the
  ranges may overlap.
\<close>

fun copy_loop :: "'a list \<Rightarrow> nat \<Rightarrow> nat \<Rightarrow> nat \<Rightarrow> 'a list" where
  "copy_loop xs src dst 0 = xs"
| "copy_loop xs src dst (Suc n) = copy_loop (xs[dst := xs ! src]) (Suc src) (Suc dst) n"

lemma length_copy_loop [simp]: "length (copy_loop xs src dst n) = length xs"
  by (induction xs src dst n rule: copy_loop.induct) auto

lemma copy_loop_nth:
  assumes "dst \<le> src" "src + n \<le> length xs" "i < length xs"
  shows "copy_loop xs src dst n ! i
    = (if dst \<le> i \<and> i < dst + n then xs ! (i - dst + src) else xs ! i)"
  using assms
proof (induction xs src dst n arbitrary: i rule: copy_loop.induct)
  case (1 xs src dst)
  then show ?case by auto
next
  case (2 xs src dst n)
  let ?ys = "xs[dst := xs ! src]"
  have IH: "copy_loop ?ys (Suc src) (Suc dst) n ! i
      = (if Suc dst \<le> i \<and> i < Suc dst + n then ?ys ! (i - Suc dst + Suc src) else ?ys ! i)"
    using "2.prems" by (intro "2.IH") auto
  show ?case
  proof (cases "i = dst")
    case True
    with IH "2.prems" show ?thesis by simp
  next
    case False
    with "2.prems" have "Suc dst \<le> i \<Longrightarrow> i - Suc dst + Suc src = i - dst + src" by simp
    with False IH "2.prems" show ?thesis by auto
  qed
qed

lemma copy_loop_eq_overwrite:
  assumes "dst \<le> src" "src + n \<le> length xs"
  shows "copy_loop xs src dst n = overwrite xs dst (segment xs src (src + n))"
proof (rule nth_equalityI)
  show "length (copy_loop xs src dst n) = length (overwrite xs dst (segment xs src (src + n)))"
    using assms by simp
next
  fix i assume "i < length (copy_loop xs src dst n)"
  then have i: "i < length xs" by simp
  show "copy_loop xs src dst n ! i = overwrite xs dst (segment xs src (src + n)) ! i"
    using assms i
    by (subst copy_loop_nth) (auto simp: overwrite_def nth_append segment_def min_def add.commute)
qed

text \<open>\<^verbatim>\<open>std::vector<char>::resize(n)\<close>: cut off, or fill up with NUL characters.\<close>

definition resize_vec :: "char list \<Rightarrow> nat \<Rightarrow> char list" where
  "resize_vec xs n = take n xs @ replicate (n - length xs) (CHR 0x00)"

lemma length_resize_vec [simp]: "length (resize_vec xs n) = n"
  by (simp add: resize_vec_def)

lemma segment_resize_vec [list_mem]:
  "length xs \<le> n \<Longrightarrow> j \<le> length xs \<Longrightarrow> segment (resize_vec xs n) i j = segment xs i j"
  by (simp add: resize_vec_def list_mem)

text \<open>\<^verbatim>\<open>std::find(first, last, c)\<close> and \<^verbatim>\<open>memchr\<close>: the offset of the first \<open>c\<close>.\<close>

fun find_char :: "char \<Rightarrow> char list \<Rightarrow> nat option" where
  "find_char c [] = None"
| "find_char c (x # xs) = (if x = c then Some 0 else map_option Suc (find_char c xs))"

lemma find_char_None: "find_char c xs = None \<longleftrightarrow> c \<notin> set xs"
  by (induction xs) auto

lemma find_char_Some:
  "find_char c xs = Some i \<longleftrightarrow> i < length xs \<and> xs ! i = c \<and> c \<notin> set (take i xs)"
proof (induction xs arbitrary: i)
  case Nil
  then show ?case by simp
next
  case (Cons x xs)
  then show ?case by (cases i) auto
qed

lemma find_char_append:
  "find_char c (xs @ ys) = (case find_char c xs of Some i \<Rightarrow> Some i
     | None \<Rightarrow> (case find_char c ys of Some i \<Rightarrow> Some (length xs + i) | None \<Rightarrow> None))"
  by (induction xs) (auto split: option.splits)

section \<open>Unsigned integers and their bytes\<close>

text \<open>
  \<open>bytes_le n x\<close> are the \<open>n\<close> lowest bytes of \<open>x\<close>, least significant byte first;
  \<open>nat_le\<close> reads them back.
\<close>

fun bytes_le :: "nat \<Rightarrow> nat \<Rightarrow> char list" where
  "bytes_le 0 x = []"
| "bytes_le (Suc n) x = char_of (x mod 256) # bytes_le n (x div 256)"

fun nat_le :: "char list \<Rightarrow> nat" where
  "nat_le [] = 0"
| "nat_le (c # cs) = of_char c + 256 * nat_le cs"

lemma length_bytes_le [simp]: "length (bytes_le n x) = n"
  by (induction n x rule: bytes_le.induct) auto

lemma of_char_less: "(of_char c :: nat) < 256"
proof -
  have "(of_char c :: nat) = of_char c mod 256" by simp
  also have "\<dots> < 256" by (rule mod_less_divisor) simp
  finally show ?thesis .
qed

lemma nat_le_bound: "nat_le cs < 256 ^ length cs"
proof (induction cs)
  case Nil
  then show ?case by simp
next
  case (Cons c cs)
  have "(of_char c :: nat) < 256" by simp
  then have "of_char c + 256 * nat_le cs < 256 * Suc (nat_le cs)" by simp
  also have "\<dots> \<le> 256 * 256 ^ length cs"
    using Cons by (intro mult_le_mono2) (simp add: Suc_le_eq)
  finally show ?case by simp
qed

lemma nat_le_bytes_le: "nat_le (bytes_le n x) = x mod 256 ^ n"
proof (induction n x rule: bytes_le.induct)
  case (1 x)
  then show ?case by simp
next
  case (2 n x)
  have "x mod 256 ^ Suc n = x mod 256 + 256 * (x div 256 mod 256 ^ n)"
    by (simp add: mod_mult2_eq)
  with 2 show ?case by simp
qed

lemma bytes_le_nat_le: "length cs = n \<Longrightarrow> bytes_le n (nat_le cs) = cs"
proof (induction cs arbitrary: n)
  case Nil
  then show ?case by simp
next
  case (Cons c cs)
  have "(of_char c + 256 * nat_le cs) mod 256 = (of_char c :: nat)"
    and "(of_char c + 256 * nat_le cs) div 256 = nat_le cs"
    using of_char_less [of c] by simp_all
  with Cons show ?case by auto
qed

section \<open>Decimal numbers\<close>

text \<open>What \<^verbatim>\<open>printf\<close> prints for \<^verbatim>\<open>%u\<close> and \<^verbatim>\<open>%d\<close>, and \<^verbatim>\<open>snprintf\<close> into an array of \<open>sz\<close> characters.\<close>

fun dec_nat :: "nat \<Rightarrow> string" where
  "dec_nat n = (if n < 10 then [char_of (48 + n)] else dec_nat (n div 10) @ [char_of (48 + n mod 10)])"

declare dec_nat.simps [simp del]

definition dec_int :: "int \<Rightarrow> string" where
  "dec_int i = (if i < 0 then CHR ''-'' # dec_nat (nat (- i)) else dec_nat (nat i))"

definition snprintf :: "nat \<Rightarrow> string \<Rightarrow> string" where
  "snprintf sz s = take (sz - 1) s"

text \<open>Conversions with a width, padded with blanks or zeros, as \<^verbatim>\<open>%4d\<close> and \<^verbatim>\<open>%02d\<close>.\<close>

definition pad_left :: "char \<Rightarrow> nat \<Rightarrow> string \<Rightarrow> string" where
  "pad_left c w s = replicate (w - length s) c @ s"

definition fmt_blank :: "nat \<Rightarrow> int \<Rightarrow> string" where
  "fmt_blank w i = pad_left (CHR '' '') w (dec_int i)"

definition fmt_zero :: "nat \<Rightarrow> int \<Rightarrow> string" where
  "fmt_zero w i = (if i < 0 then CHR ''-'' # pad_left (CHR ''0'') (w - 1) (dec_nat (nat (- i)))
     else pad_left (CHR ''0'') w (dec_nat (nat i)))"

text \<open>Conversion to a 32-bit or 64-bit signed integer keeps the low bits.\<close>

definition to_int32 :: "int \<Rightarrow> int" where
  "to_int32 x = (x + 2 ^ 31) mod 2 ^ 32 - 2 ^ 31"

definition to_int64 :: "int \<Rightarrow> int" where
  "to_int64 x = (x + 2 ^ 63) mod 2 ^ 64 - 2 ^ 63"

lemma to_int32_id: "- (2 ^ 31) \<le> x \<Longrightarrow> x < 2 ^ 31 \<Longrightarrow> to_int32 x = x"
  by (simp add: to_int32_def)

lemma to_int64_id: "- (2 ^ 63) \<le> x \<Longrightarrow> x < 2 ^ 63 \<Longrightarrow> to_int64 x = x"
  by (simp add: to_int64_def)

fun undec :: "string \<Rightarrow> nat" where
  "undec s = foldl (\<lambda>n c. 10 * n + (of_char c - 48)) 0 s"

lemma length_dec_nat: "n < 10 ^ k \<Longrightarrow> 0 < k \<Longrightarrow> length (dec_nat n) \<le> k"
proof (induction n arbitrary: k rule: dec_nat.induct)
  case (1 n)
  show ?case
  proof (cases "n < 10")
    case True
    with 1 show ?thesis by (simp add: dec_nat.simps)
  next
    case False
    then obtain j where j: "k = Suc j" "0 < j"
      using "1.prems" by (cases k; cases "k = 1") auto
    moreover have "n div 10 < 10 ^ j" using "1.prems" j by (simp add: less_mult_imp_div_less mult.commute)
    ultimately show ?thesis using "1.IH" [OF False, of j] False by (simp add: dec_nat.simps [of n])
  qed
qed

lemma undec_dec_nat: "undec (dec_nat n) = n"
proof (induction n rule: dec_nat.induct)
  case (1 n)
  then show ?case
    by (cases "n < 10") (simp_all add: dec_nat.simps [of n] of_char_of)
qed

lemma dec_nat_digits: "c \<in> set (dec_nat n) \<Longrightarrow> CHR ''0'' \<le> c \<and> c \<le> CHR ''9''"
proof (induction n rule: dec_nat.induct)
  case (1 n)
  then show ?case
    by (cases "n < 10") (auto simp: dec_nat.simps [of n] less_eq_char_def of_char_of)
qed

section \<open>Ordered maps\<close>

text \<open>
  A \<^verbatim>\<open>std::map\<close> is the list of its entries in the order of the keys; \<open>map_put\<close> is
  \<^verbatim>\<open>m[k] = v\<close>. Strings compare as \<^verbatim>\<open>std::string\<close> does, by the codes of their characters.
\<close>

fun map_put :: "'k::linorder \<Rightarrow> 'v \<Rightarrow> ('k \<times> 'v) list \<Rightarrow> ('k \<times> 'v) list" where
  "map_put k v [] = [(k, v)]"
| "map_put k v ((k', v') # m) =
     (if k < k' then (k, v) # (k', v') # m
      else if k = k' then (k, v) # m
      else (k', v') # map_put k v m)"

definition map_erase :: "'k \<Rightarrow> ('k \<times> 'v) list \<Rightarrow> ('k \<times> 'v) list" where
  "map_erase k m = filter (\<lambda>e. fst e \<noteq> k) m"

definition sorted_map :: "('k::linorder \<times> 'v) list \<Rightarrow> bool" where
  "sorted_map m \<longleftrightarrow> sorted_wrt (<) (map fst m)"

lemma map_of_map_put [simp]: "map_of (map_put k v m) = (map_of m)(k \<mapsto> v)"
  by (induction k v m rule: map_put.induct) (auto simp: fun_eq_iff)

lemma set_map_put_keys: "fst ` set (map_put k v m) = insert k (fst ` set m)"
  by (induction k v m rule: map_put.induct) auto

lemma sorted_map_put [simp]: "sorted_map m \<Longrightarrow> sorted_map (map_put k v m)"
proof (induction k v m rule: map_put.induct)
  case (2 k v k' v' m)
  have "\<not> k < k' \<Longrightarrow> k \<noteq> k' \<Longrightarrow> x \<in> set (map_put k v m) \<Longrightarrow> k' < fst x" for x
    using "2.prems" set_map_put_keys [of k v m] by (auto simp: sorted_map_def)
      (metis imageE imageI insertE not_less_iff_gr_or_eq)
  with 2 show ?case by (auto simp: sorted_map_def)
qed (simp add: sorted_map_def)

lemma map_of_map_erase [simp]: "map_of (map_erase k m) = (map_of m)(k := None)"
  by (induction m) (auto simp: map_erase_def fun_eq_iff)

lemma sorted_map_erase [simp]: "sorted_map m \<Longrightarrow> sorted_map (map_erase k m)"
  by (induction m) (auto simp: sorted_map_def map_erase_def)

section \<open>Transition systems\<close>

text \<open>
  A component driven by several threads or by its environment is a step relation. An
  inductive invariant holds in every state reachable from an initial one.
\<close>

inductive reach :: "('s \<Rightarrow> bool) \<Rightarrow> ('s \<Rightarrow> 's \<Rightarrow> bool) \<Rightarrow> 's \<Rightarrow> bool"
  for init :: "'s \<Rightarrow> bool" and step :: "'s \<Rightarrow> 's \<Rightarrow> bool" where
  reach_init: "init s \<Longrightarrow> reach init step s"
| reach_step: "reach init step s \<Longrightarrow> step s t \<Longrightarrow> reach init step t"

locale transition_system =
  fixes init :: "'s \<Rightarrow> bool"
    and step :: "'s \<Rightarrow> 's \<Rightarrow> bool"
    and inv :: "'s \<Rightarrow> bool"
  assumes inv_init: "init s \<Longrightarrow> inv s"
    and inv_step: "inv s \<Longrightarrow> step s t \<Longrightarrow> inv t"
begin

lemma reach_inv: "reach init step s \<Longrightarrow> inv s"
  by (induction rule: reach.induct) (auto intro: inv_init inv_step)

lemma steps_inv: "step\<^sup>*\<^sup>* s t \<Longrightarrow> inv s \<Longrightarrow> inv t"
  by (induction rule: rtranclp_induct) (auto intro: inv_step)

end

section \<open>Data refinement\<close>

text \<open>
  A component whose every operation simulates an abstract operation, errors and outputs
  included, simulates every sequence of operations.
\<close>

fun run_ops :: "('op \<Rightarrow> 'c \<Rightarrow> ('out \<times> 'c) res) \<Rightarrow> 'op list \<Rightarrow> 'c \<Rightarrow> ('out list \<times> 'c) res" where
  "run_ops step [] c = Inr ([], c)"
| "run_ops step (op # ops) c =
     bindE (step op c) (\<lambda>(out, c'). bindE (run_ops step ops c') (\<lambda>(outs, c''). Inr (out # outs, c'')))"

definition simulates :: "('c \<Rightarrow> 'a \<Rightarrow> bool) \<Rightarrow> ('out \<times> 'c) res \<Rightarrow> ('out \<times> 'a) res \<Rightarrow> bool" where
  "simulates R m n = (case (m, n) of
       (Inl e, Inl e') \<Rightarrow> e = e'
     | (Inr (x, c), Inr (y, a)) \<Rightarrow> x = y \<and> R c a
     | _ \<Rightarrow> False)"

lemma simulates_simps [simp]:
  "simulates R (Inl e) (Inl e') \<longleftrightarrow> e = e'"
  "simulates R (Inr (x, c)) (Inr (y, a)) \<longleftrightarrow> x = y \<and> R c a"
  "\<not> simulates R (Inl e) (Inr p)"
  "\<not> simulates R (Inr q) (Inl e)"
  by (auto simp: simulates_def split: prod.splits)

lemma simulates_bind:
  assumes "simulates R m n"
    and "\<And>x c a. R c a \<Longrightarrow> simulates S (f (x, c)) (g (x, a))"
  shows "simulates S (bindE m f) (bindE n g)"
proof (cases m)
  case (Inl e)
  with assms(1) show ?thesis by (cases n) auto
next
  case (Inr p)
  with assms(1) obtain q where "n = Inr q" by (cases n; cases p) auto
  with Inr assms show ?thesis by (cases p; cases q) auto
qed

lemma simulates_okE: "okE m P \<Longrightarrow> (\<And>c. P c \<Longrightarrow> R c a) \<Longrightarrow> simulates R (bindE m (\<lambda>c. Inr (x, c))) (Inr (x, a))"
  by (cases m) auto

locale data_refinement =
  fixes step :: "'op \<Rightarrow> 'c \<Rightarrow> ('out \<times> 'c) res"
    and astep :: "'op \<Rightarrow> 'a \<Rightarrow> ('out \<times> 'a) res"
    and R :: "'c \<Rightarrow> 'a \<Rightarrow> bool"
  assumes step_sim: "R c a \<Longrightarrow> simulates R (step op c) (astep op a)"
begin

lemma run_sim: "R c a \<Longrightarrow> simulates R (run_ops step ops c) (run_ops astep ops a)"
proof (induction ops arbitrary: c a)
  case Nil
  then show ?case by simp
next
  case (Cons op ops)
  show ?case
    unfolding run_ops.simps
  proof (rule simulates_bind [OF step_sim [OF Cons.prems]])
    fix x c' a' assume "R c' a'"
    from simulates_bind [OF Cons.IH [OF this], of R "\<lambda>(outs, s). Inr (x # outs, s)"
        "\<lambda>(outs, s). Inr (x # outs, s)"]
    show "simulates R
        (case (x, c') of (out, s) \<Rightarrow> bindE (run_ops step ops s) (\<lambda>(outs, t). Inr (out # outs, t)))
        (case (x, a') of (out, s) \<Rightarrow> bindE (run_ops astep ops s) (\<lambda>(outs, t). Inr (out # outs, t)))"
      by simp
  qed
qed

lemma run_ok: "R c a \<Longrightarrow> run_ops astep ops a = Inr (outs, a')
    \<Longrightarrow> \<exists>c'. run_ops step ops c = Inr (outs, c') \<and> R c' a'"
  using run_sim [of c a ops] by (auto simp: simulates_def split: sum.splits prod.splits)

end

end
