(* ===== verification/Endian.thy ===== *)
theory Endian
  imports Prelude
begin

text \<open>
  Byte order of integers (\<^verbatim>\<open>muduo/net/Endian.h\<close>). The byte order of the host is the
  parameter \<open>little\<close>; \<open>mem_bytes\<close> is how the host stores a word, \<open>mem_word\<close> how it loads
  one, and \<open>bswap\<close> the byte reversal behind the \<^verbatim>\<open>htobe\<close> and \<^verbatim>\<open>be..toh\<close> macros.
  Signed integers are stored in two's complement, so \<^verbatim>\<open>int64_t\<close> and \<^verbatim>\<open>uint64_t\<close> are both
  \<^typ>\<open>64 word\<close>.
\<close>

section \<open>Host memory\<close>

definition mem_bytes :: "bool \<Rightarrow> 'a::len word \<Rightarrow> char list" where
  "mem_bytes little x =
     (let bs = bytes_le (LENGTH('a) div 8) (unat x) in if little then bs else rev bs)"

definition mem_word :: "bool \<Rightarrow> char list \<Rightarrow> 'a::len word" where
  "mem_word little bs = word_of_nat (nat_le (if little then bs else rev bs))"

definition bswap :: "'a::len word \<Rightarrow> 'a word" where
  "bswap x = word_of_nat (nat_le (rev (bytes_le (LENGTH('a) div 8) (unat x))))"

section \<open>Conversions\<close>

definition hostToNetwork64 :: "bool \<Rightarrow> 64 word \<Rightarrow> 64 word" where
  "hostToNetwork64 little host64 = (if little then bswap host64 else host64)"

definition hostToNetwork32 :: "bool \<Rightarrow> 32 word \<Rightarrow> 32 word" where
  "hostToNetwork32 little host32 = (if little then bswap host32 else host32)"

definition hostToNetwork16 :: "bool \<Rightarrow> 16 word \<Rightarrow> 16 word" where
  "hostToNetwork16 little host16 = (if little then bswap host16 else host16)"

definition networkToHost64 :: "bool \<Rightarrow> 64 word \<Rightarrow> 64 word" where
  "networkToHost64 little net64 = (if little then bswap net64 else net64)"

definition networkToHost32 :: "bool \<Rightarrow> 32 word \<Rightarrow> 32 word" where
  "networkToHost32 little net32 = (if little then bswap net32 else net32)"

definition networkToHost16 :: "bool \<Rightarrow> 16 word \<Rightarrow> 16 word" where
  "networkToHost16 little net16 = (if little then bswap net16 else net16)"

lemmas endian_defs =
  hostToNetwork64_def hostToNetwork32_def hostToNetwork16_def
  networkToHost64_def networkToHost32_def networkToHost16_def

section \<open>The wire format\<close>

text \<open>Big-endian bytes of a word, independent of the host.\<close>

definition be_bytes :: "'a::len word \<Rightarrow> char list" where
  "be_bytes x = rev (bytes_le (LENGTH('a) div 8) (unat x))"

definition be_word :: "char list \<Rightarrow> 'a::len word" where
  "be_word bs = word_of_nat (nat_le (rev bs))"

lemma length_be_bytes [simp]: "length (be_bytes (x :: 'a::len word)) = LENGTH('a) div 8"
  by (simp add: be_bytes_def)

lemma length_mem_bytes [simp]: "length (mem_bytes little (x :: 'a::len word)) = LENGTH('a) div 8"
  by (simp add: mem_bytes_def Let_def)

lemma unat_of_bytes:
  assumes "LENGTH('a) = 8 * n" "length cs = n"
  shows "unat (word_of_nat (nat_le cs) :: 'a::len word) = nat_le cs"
proof -
  have "nat_le cs < 2 ^ LENGTH('a)"
    using nat_le_bound [of cs] assms by (simp add: power_mult)
  then show ?thesis by (simp add: unat_of_nat take_bit_nat_eq_self)
qed

lemma word_of_own_bytes:
  assumes "LENGTH('a) = 8 * n"
  shows "word_of_nat (nat_le (bytes_le n (unat (x :: 'a::len word)))) = x"
proof -
  have "unat x < 256 ^ n"
    using unsigned_less [of x] assms by (simp add: power_mult)
  then show ?thesis by (simp add: nat_le_bytes_le)
qed

lemma be_word_be_bytes:
  "LENGTH('a) = 8 * n \<Longrightarrow> be_word (be_bytes x) = (x :: 'a::len word)"
  by (simp add: be_word_def be_bytes_def word_of_own_bytes)

lemma be_bytes_be_word:
  assumes "LENGTH('a) = 8 * n" "length bs = n"
  shows "be_bytes (be_word bs :: 'a::len word) = bs"
  using assms by (simp add: be_word_def be_bytes_def unat_of_bytes bytes_le_nat_le)

lemma mem_bytes_bswap:
  assumes "LENGTH('a) = 8 * n"
  shows "mem_bytes True (bswap (x :: 'a::len word)) = be_bytes x"
  using assms
  by (simp add: mem_bytes_def bswap_def be_bytes_def unat_of_bytes bytes_le_nat_le)

lemma bswap_mem_word:
  assumes "LENGTH('a) = 8 * n" "length bs = n"
  shows "bswap (mem_word True bs :: 'a::len word) = be_word bs"
  using assms
  by (simp add: mem_word_def bswap_def be_word_def unat_of_bytes bytes_le_nat_le)

lemma mem_bytes_big: "mem_bytes False x = be_bytes x"
  by (simp add: mem_bytes_def be_bytes_def)

lemma mem_word_big: "mem_word False bs = be_word bs"
  by (simp add: mem_word_def be_word_def)

lemma bswap_bswap: "LENGTH('a) = 8 * n \<Longrightarrow> bswap (bswap x) = (x :: 'a::len word)"
  by (simp add: bswap_def unat_of_bytes bytes_le_nat_le word_of_own_bytes)

lemma wire_bytes [simp]:
  "mem_bytes little (hostToNetwork64 little x) = be_bytes x"
  "mem_bytes little (hostToNetwork32 little y) = be_bytes y"
  "mem_bytes little (hostToNetwork16 little z) = be_bytes z"
  by (simp_all add: endian_defs mem_bytes_bswap [where n = 8] mem_bytes_bswap [where n = 4]
      mem_bytes_bswap [where n = 2] mem_bytes_big)

lemma wire_words:
  "length bs = 8 \<Longrightarrow> networkToHost64 little (mem_word little bs) = be_word bs"
  "length bs = 4 \<Longrightarrow> networkToHost32 little (mem_word little bs) = be_word bs"
  "length bs = 2 \<Longrightarrow> networkToHost16 little (mem_word little bs) = be_word bs"
  by (cases little; simp add: endian_defs bswap_mem_word [where n = 8] mem_word_big
      bswap_mem_word [where n = 4] bswap_mem_word [where n = 2])+

end
