(* ===== verification/Buffer.thy ===== *)
theory Buffer
  imports Endian
begin

text \<open>
  The input and output buffer of a connection (\<^verbatim>\<open>muduo/net/Buffer.h\<close>, \<^verbatim>\<open>Buffer.cc\<close>). A
  field keeps its name without the trailing underscore; a pointer into the buffer is its offset from \<^verbatim>\<open>begin()\<close>; a \<^verbatim>\<open>size_t\<close> is a \<^typ>\<open>nat\<close>, and the
  one place where its wrap-around can be reached, the growth in \<^verbatim>\<open>makeSpace\<close>, is modelled a
  second time on 64-bit words (\<open>makeSpace64\<close>). The readable bytes are \<open>content\<close>.
\<close>

section \<open>State\<close>

record Buffer =
  buffer :: "char list"
  readerIndex :: nat
  writerIndex :: nat

definition kCheapPrepend :: nat where
  "kCheapPrepend = 8"

definition kInitialSize :: nat where
  "kInitialSize = 1024"

definition kCRLF :: string where
  "kCRLF = [CHR 0x0D, CHR 0x0A]"

definition readableBytes :: "Buffer \<Rightarrow> nat" where
  "readableBytes b = writerIndex b - readerIndex b"

definition writableBytes :: "Buffer \<Rightarrow> nat" where
  "writableBytes b = length (buffer b) - writerIndex b"

definition prependableBytes :: "Buffer \<Rightarrow> nat" where
  "prependableBytes b = readerIndex b"

definition peek :: "Buffer \<Rightarrow> nat" where
  "peek b = readerIndex b"

definition beginWrite :: "Buffer \<Rightarrow> nat" where
  "beginWrite b = writerIndex b"

definition mkBuffer :: "nat \<Rightarrow> Buffer res" where
  "mkBuffer initialSize =
    (let b = \<lparr>buffer = replicate (kCheapPrepend + initialSize) (CHR 0x00),
              readerIndex = kCheapPrepend, writerIndex = kCheapPrepend\<rparr> in
     bindE (assertE (readableBytes b = 0)) (\<lambda>_.
     bindE (assertE (writableBytes b = initialSize)) (\<lambda>_.
     bindE (assertE (prependableBytes b = kCheapPrepend)) (\<lambda>_. Inr b))))"

definition swap :: "Buffer \<Rightarrow> Buffer \<Rightarrow> Buffer \<times> Buffer" where
  "swap this rhs =
    (this\<lparr>buffer := buffer rhs, readerIndex := readerIndex rhs, writerIndex := writerIndex rhs\<rparr>,
     rhs\<lparr>buffer := buffer this, readerIndex := readerIndex this, writerIndex := writerIndex this\<rparr>)"

section \<open>Searching\<close>

text \<open>\<^verbatim>\<open>std::search\<close> for the two characters of \<open>kCRLF\<close>.\<close>

fun search_crlf :: "char list \<Rightarrow> nat option" where
  "search_crlf (x # y # zs) =
     (if [x, y] = kCRLF then Some 0 else map_option Suc (search_crlf (y # zs)))"
| "search_crlf zs = None"

definition findCRLF :: "Buffer \<Rightarrow> nat option" where
  "findCRLF b = map_option ((+) (peek b)) (search_crlf (segment (buffer b) (peek b) (beginWrite b)))"

definition findCRLF_from :: "Buffer \<Rightarrow> nat \<Rightarrow> nat option res" where
  "findCRLF_from b start =
    bindE (assertE (peek b \<le> start)) (\<lambda>_.
    bindE (assertE (start \<le> beginWrite b)) (\<lambda>_.
    Inr (map_option ((+) start) (search_crlf (segment (buffer b) start (beginWrite b))))))"

definition findEOL :: "Buffer \<Rightarrow> nat option" where
  "findEOL b = map_option ((+) (peek b))
     (find_char (CHR 0x0A) (segment (buffer b) (peek b) (peek b + readableBytes b)))"

definition findEOL_from :: "Buffer \<Rightarrow> nat \<Rightarrow> nat option res" where
  "findEOL_from b start =
    bindE (assertE (peek b \<le> start)) (\<lambda>_.
    bindE (assertE (start \<le> beginWrite b)) (\<lambda>_.
    Inr (map_option ((+) start) (find_char (CHR 0x0A) (segment (buffer b) start (beginWrite b))))))"

section \<open>Taking bytes out\<close>

definition retrieveAll :: "Buffer \<Rightarrow> Buffer" where
  "retrieveAll b = b\<lparr>readerIndex := kCheapPrepend, writerIndex := kCheapPrepend\<rparr>"

definition retrieve :: "Buffer \<Rightarrow> nat \<Rightarrow> Buffer res" where
  "retrieve b len =
    bindE (assertE (len \<le> readableBytes b)) (\<lambda>_.
    if len < readableBytes b then Inr (b\<lparr>readerIndex := readerIndex b + len\<rparr>)
    else Inr (retrieveAll b))"

definition retrieveUntil :: "Buffer \<Rightarrow> nat \<Rightarrow> Buffer res" where
  "retrieveUntil b endp =
    bindE (assertE (peek b \<le> endp)) (\<lambda>_.
    bindE (assertE (endp \<le> beginWrite b)) (\<lambda>_.
    retrieve b (endp - peek b)))"

definition retrieveInt64 :: "Buffer \<Rightarrow> Buffer res" where
  "retrieveInt64 b = retrieve b 8"

definition retrieveInt32 :: "Buffer \<Rightarrow> Buffer res" where
  "retrieveInt32 b = retrieve b 4"

definition retrieveInt16 :: "Buffer \<Rightarrow> Buffer res" where
  "retrieveInt16 b = retrieve b 2"

definition retrieveInt8 :: "Buffer \<Rightarrow> Buffer res" where
  "retrieveInt8 b = retrieve b 1"

definition retrieveAsString :: "Buffer \<Rightarrow> nat \<Rightarrow> (string \<times> Buffer) res" where
  "retrieveAsString b len =
    bindE (assertE (len \<le> readableBytes b)) (\<lambda>_.
    let result = segment (buffer b) (peek b) (peek b + len) in
    bindE (retrieve b len) (\<lambda>b'. Inr (result, b')))"

definition retrieveAllAsString :: "Buffer \<Rightarrow> (string \<times> Buffer) res" where
  "retrieveAllAsString b = retrieveAsString b (readableBytes b)"

text \<open>\<^verbatim>\<open>static_cast<int>\<close> of a \<^verbatim>\<open>size_t\<close> keeps the low 32 bits as a signed number.\<close>

definition int_of_size :: "nat \<Rightarrow> int" where
  "int_of_size n =
    (let m = n mod 2 ^ 32 in if m < 2 ^ 31 then int m else int m - 2 ^ 32)"

text \<open>A \<^verbatim>\<open>StringPiece\<close> is a pointer and an \<^verbatim>\<open>int\<close> length.\<close>

definition toStringPiece :: "Buffer \<Rightarrow> nat \<times> int" where
  "toStringPiece b = (peek b, int_of_size (readableBytes b))"

section \<open>Putting bytes in\<close>

definition makeSpace :: "Buffer \<Rightarrow> nat \<Rightarrow> Buffer res" where
  "makeSpace b len =
    (if writableBytes b + prependableBytes b < len + kCheapPrepend
     then Inr (b\<lparr>buffer := resize_vec (buffer b) (writerIndex b + len)\<rparr>)
     else
       bindE (assertE (kCheapPrepend < readerIndex b)) (\<lambda>_.
       let readable = readableBytes b;
           b' = b\<lparr>buffer := copy_loop (buffer b) (readerIndex b) kCheapPrepend
                              (writerIndex b - readerIndex b),
                  readerIndex := kCheapPrepend,
                  writerIndex := kCheapPrepend + readable\<rparr> in
       bindE (assertE (readable = readableBytes b')) (\<lambda>_. Inr b')))"

definition ensureWritableBytes :: "Buffer \<Rightarrow> nat \<Rightarrow> Buffer res" where
  "ensureWritableBytes b len =
    bindE (if writableBytes b < len then makeSpace b len else Inr b) (\<lambda>b'.
    bindE (assertE (writableBytes b' \<ge> len)) (\<lambda>_. Inr b'))"

definition hasWritten :: "Buffer \<Rightarrow> nat \<Rightarrow> Buffer res" where
  "hasWritten b len =
    bindE (assertE (len \<le> writableBytes b)) (\<lambda>_.
    Inr (b\<lparr>writerIndex := writerIndex b + len\<rparr>))"

definition unwrite :: "Buffer \<Rightarrow> nat \<Rightarrow> Buffer res" where
  "unwrite b len =
    bindE (assertE (len \<le> readableBytes b)) (\<lambda>_.
    Inr (b\<lparr>writerIndex := writerIndex b - len\<rparr>))"

definition append_bytes :: "Buffer \<Rightarrow> char list \<Rightarrow> Buffer res" where
  "append_bytes b data =
    bindE (ensureWritableBytes b (length data)) (\<lambda>b'.
    hasWritten (b'\<lparr>buffer := overwrite (buffer b') (beginWrite b') data\<rparr>) (length data))"

definition prepend :: "Buffer \<Rightarrow> char list \<Rightarrow> Buffer res" where
  "prepend b data =
    bindE (assertE (length data \<le> prependableBytes b)) (\<lambda>_.
    let r = readerIndex b - length data in
    Inr (b\<lparr>readerIndex := r, buffer := overwrite (buffer b) r data\<rparr>))"

text \<open>
  The piece of \<^verbatim>\<open>toStringPiece\<close> has a negative length when more than \<open>2\<^sup>3\<^sup>1\<close> bytes are
  readable; converted back to \<^verbatim>\<open>size_t\<close> it exceeds every vector and the append does not
  succeed.
\<close>

definition shrink :: "Buffer \<Rightarrow> nat \<Rightarrow> Buffer res" where
  "shrink b reserve =
    bindE (mkBuffer kInitialSize) (\<lambda>other.
    bindE (ensureWritableBytes other (readableBytes b + reserve)) (\<lambda>other.
    case toStringPiece b of (p, n) \<Rightarrow>
    if n < 0 then Inl OutOfBounds
    else bindE (append_bytes other (segment (buffer b) p (p + nat n))) (\<lambda>other.
    Inr (fst (swap b other)))))"

section \<open>Integers\<close>

definition appendInt64 :: "bool \<Rightarrow> Buffer \<Rightarrow> 64 word \<Rightarrow> Buffer res" where
  "appendInt64 little b x = append_bytes b (mem_bytes little (hostToNetwork64 little x))"

definition appendInt32 :: "bool \<Rightarrow> Buffer \<Rightarrow> 32 word \<Rightarrow> Buffer res" where
  "appendInt32 little b x = append_bytes b (mem_bytes little (hostToNetwork32 little x))"

definition appendInt16 :: "bool \<Rightarrow> Buffer \<Rightarrow> 16 word \<Rightarrow> Buffer res" where
  "appendInt16 little b x = append_bytes b (mem_bytes little (hostToNetwork16 little x))"

definition appendInt8 :: "Buffer \<Rightarrow> 8 word \<Rightarrow> Buffer res" where
  "appendInt8 b x = append_bytes b [char_of (unat x)]"

definition peekInt64 :: "bool \<Rightarrow> Buffer \<Rightarrow> 64 word res" where
  "peekInt64 little b =
    bindE (assertE (readableBytes b \<ge> 8)) (\<lambda>_.
    Inr (networkToHost64 little (mem_word little (segment (buffer b) (peek b) (peek b + 8)))))"

definition peekInt32 :: "bool \<Rightarrow> Buffer \<Rightarrow> 32 word res" where
  "peekInt32 little b =
    bindE (assertE (readableBytes b \<ge> 4)) (\<lambda>_.
    Inr (networkToHost32 little (mem_word little (segment (buffer b) (peek b) (peek b + 4)))))"

definition peekInt16 :: "bool \<Rightarrow> Buffer \<Rightarrow> 16 word res" where
  "peekInt16 little b =
    bindE (assertE (readableBytes b \<ge> 2)) (\<lambda>_.
    Inr (networkToHost16 little (mem_word little (segment (buffer b) (peek b) (peek b + 2)))))"

definition peekInt8 :: "Buffer \<Rightarrow> 8 word res" where
  "peekInt8 b =
    bindE (assertE (readableBytes b \<ge> 1)) (\<lambda>_.
    Inr (word_of_nat (of_char (buffer b ! peek b))))"

definition readInt64 :: "bool \<Rightarrow> Buffer \<Rightarrow> (64 word \<times> Buffer) res" where
  "readInt64 little b =
    bindE (peekInt64 little b) (\<lambda>result. bindE (retrieveInt64 b) (\<lambda>b'. Inr (result, b')))"

definition readInt32 :: "bool \<Rightarrow> Buffer \<Rightarrow> (32 word \<times> Buffer) res" where
  "readInt32 little b =
    bindE (peekInt32 little b) (\<lambda>result. bindE (retrieveInt32 b) (\<lambda>b'. Inr (result, b')))"

definition readInt16 :: "bool \<Rightarrow> Buffer \<Rightarrow> (16 word \<times> Buffer) res" where
  "readInt16 little b =
    bindE (peekInt16 little b) (\<lambda>result. bindE (retrieveInt16 b) (\<lambda>b'. Inr (result, b')))"

definition readInt8 :: "Buffer \<Rightarrow> (8 word \<times> Buffer) res" where
  "readInt8 b =
    bindE (peekInt8 b) (\<lambda>result. bindE (retrieveInt8 b) (\<lambda>b'. Inr (result, b')))"

definition prependInt64 :: "bool \<Rightarrow> Buffer \<Rightarrow> 64 word \<Rightarrow> Buffer res" where
  "prependInt64 little b x = prepend b (mem_bytes little (hostToNetwork64 little x))"

definition prependInt32 :: "bool \<Rightarrow> Buffer \<Rightarrow> 32 word \<Rightarrow> Buffer res" where
  "prependInt32 little b x = prepend b (mem_bytes little (hostToNetwork32 little x))"

definition prependInt16 :: "bool \<Rightarrow> Buffer \<Rightarrow> 16 word \<Rightarrow> Buffer res" where
  "prependInt16 little b x = prepend b (mem_bytes little (hostToNetwork16 little x))"

definition prependInt8 :: "Buffer \<Rightarrow> 8 word \<Rightarrow> Buffer res" where
  "prependInt8 b x = prepend b [char_of (unat x)]"

section \<open>Reading from a descriptor\<close>

text \<open>
  The result of \<^verbatim>\<open>readv(2)\<close>: an error number, or the bytes that the kernel stored in the
  two areas, in order. The call is a parameter that maps the total length of the areas to
  its result.
\<close>

datatype readv_result = ReadvErr int | ReadvOk "char list"

definition extrabuf_size :: nat where
  "extrabuf_size = 65536"

definition readFd :: "(nat \<Rightarrow> readv_result) \<Rightarrow> Buffer \<Rightarrow> (int \<times> int option \<times> Buffer) res" where
  "readFd readv b =
    (let writable = writableBytes b;
         capacity = (if writable < extrabuf_size then writable + extrabuf_size else writable) in
     case readv capacity of
       ReadvErr e \<Rightarrow> Inr (- 1, Some e, b)
     | ReadvOk data \<Rightarrow>
         let n = length data;
             b' = b\<lparr>buffer := overwrite (buffer b) (writerIndex b) (take writable data)\<rparr> in
         if n \<le> writable then Inr (int n, None, b'\<lparr>writerIndex := writerIndex b' + n\<rparr>)
         else bindE (append_bytes (b'\<lparr>writerIndex := length (buffer b')\<rparr>) (drop writable data))
                (\<lambda>b''. Inr (int n, None, b'')))"

section \<open>Growth with 64-bit arithmetic\<close>

text \<open>
  \<open>makeSpace64\<close> and \<open>ensureWritableBytes64\<close> repeat the two functions with every
  \<^verbatim>\<open>size_t\<close> sum and difference taken modulo \<open>2\<^sup>6\<^sup>4\<close>.
\<close>

definition makeSpace64 :: "Buffer \<Rightarrow> 64 word \<Rightarrow> Buffer res" where
  "makeSpace64 b len =
    (if (word_of_nat (writableBytes b) + word_of_nat (prependableBytes b) :: 64 word)
          < len + word_of_nat kCheapPrepend
     then Inr (b\<lparr>buffer := resize_vec (buffer b) (unat (word_of_nat (writerIndex b) + len))\<rparr>)
     else
       bindE (assertE (kCheapPrepend < readerIndex b)) (\<lambda>_.
       let readable = readableBytes b;
           b' = b\<lparr>buffer := copy_loop (buffer b) (readerIndex b) kCheapPrepend
                              (writerIndex b - readerIndex b),
                  readerIndex := kCheapPrepend,
                  writerIndex := kCheapPrepend + readable\<rparr> in
       bindE (assertE (readable = readableBytes b')) (\<lambda>_. Inr b')))"

definition ensureWritableBytes64 :: "Buffer \<Rightarrow> 64 word \<Rightarrow> Buffer res" where
  "ensureWritableBytes64 b len =
    bindE (if (word_of_nat (writableBytes b) :: 64 word) < len then makeSpace64 b len else Inr b) (\<lambda>b'.
    bindE (assertE ((word_of_nat (length (buffer b')) - word_of_nat (writerIndex b') :: 64 word) \<ge> len))
      (\<lambda>_. Inr b'))"

section \<open>Sequences of calls\<close>

text \<open>
  The calls a user of the class makes, one constructor each, and what they return; the
  abstract buffer is the list of its readable bytes.
\<close>

datatype buf_op =
    Append string
  | Retrieve nat
  | RetrieveAll
  | RetrieveAsString nat
  | RetrieveAllAsString
  | EnsureWritable nat
  | Unwrite nat
  | Shrink nat
  | AppendInt64 "64 word" | AppendInt32 "32 word" | AppendInt16 "16 word" | AppendInt8 "8 word"
  | ReadInt64 | ReadInt32 | ReadInt16 | ReadInt8

datatype buf_out = Void | Str string | I64 "64 word" | I32 "32 word" | I16 "16 word" | I8 "8 word"

definition void :: "Buffer res \<Rightarrow> (buf_out \<times> Buffer) res" where
  "void m = bindE m (\<lambda>b. Inr (Void, b))"

fun buf_step :: "bool \<Rightarrow> buf_op \<Rightarrow> Buffer \<Rightarrow> (buf_out \<times> Buffer) res" where
  "buf_step little (Append s) b = void (append_bytes b s)"
| "buf_step little (Retrieve n) b = void (retrieve b n)"
| "buf_step little RetrieveAll b = Inr (Void, retrieveAll b)"
| "buf_step little (RetrieveAsString n) b = bindE (retrieveAsString b n) (\<lambda>(s, b). Inr (Str s, b))"
| "buf_step little RetrieveAllAsString b = bindE (retrieveAllAsString b) (\<lambda>(s, b). Inr (Str s, b))"
| "buf_step little (EnsureWritable n) b = void (ensureWritableBytes b n)"
| "buf_step little (Unwrite n) b = void (unwrite b n)"
| "buf_step little (Shrink n) b = void (shrink b n)"
| "buf_step little (AppendInt64 x) b = void (appendInt64 little b x)"
| "buf_step little (AppendInt32 x) b = void (appendInt32 little b x)"
| "buf_step little (AppendInt16 x) b = void (appendInt16 little b x)"
| "buf_step little (AppendInt8 x) b = void (appendInt8 b x)"
| "buf_step little ReadInt64 b = bindE (readInt64 little b) (\<lambda>(x, b). Inr (I64 x, b))"
| "buf_step little ReadInt32 b = bindE (readInt32 little b) (\<lambda>(x, b). Inr (I32 x, b))"
| "buf_step little ReadInt16 b = bindE (readInt16 little b) (\<lambda>(x, b). Inr (I16 x, b))"
| "buf_step little ReadInt8 b = bindE (readInt8 b) (\<lambda>(x, b). Inr (I8 x, b))"

definition take_front :: "nat \<Rightarrow> (char list \<Rightarrow> buf_out) \<Rightarrow> char list \<Rightarrow> (buf_out \<times> char list) res" where
  "take_front n f s =
    (if n \<le> length s then Inr (f (take n s), drop n s) else Inl AssertFailed)"

fun queue_step :: "buf_op \<Rightarrow> char list \<Rightarrow> (buf_out \<times> char list) res" where
  "queue_step (Append d) s = Inr (Void, s @ d)"
| "queue_step (Retrieve n) s = take_front n (\<lambda>_. Void) s"
| "queue_step RetrieveAll s = Inr (Void, [])"
| "queue_step (RetrieveAsString n) s = take_front n Str s"
| "queue_step RetrieveAllAsString s = Inr (Str s, [])"
| "queue_step (EnsureWritable n) s = Inr (Void, s)"
| "queue_step (Unwrite n) s =
     (if n \<le> length s then Inr (Void, take (length s - n) s) else Inl AssertFailed)"
| "queue_step (Shrink n) s =
     (if int_of_size (length s) < 0 then Inl OutOfBounds
      else Inr (Void, take (nat (int_of_size (length s))) s))"
| "queue_step (AppendInt64 x) s = Inr (Void, s @ be_bytes x)"
| "queue_step (AppendInt32 x) s = Inr (Void, s @ be_bytes x)"
| "queue_step (AppendInt16 x) s = Inr (Void, s @ be_bytes x)"
| "queue_step (AppendInt8 x) s = Inr (Void, s @ be_bytes x)"
| "queue_step ReadInt64 s = take_front 8 (\<lambda>bs. I64 (be_word bs)) s"
| "queue_step ReadInt32 s = take_front 4 (\<lambda>bs. I32 (be_word bs)) s"
| "queue_step ReadInt16 s = take_front 2 (\<lambda>bs. I16 (be_word bs)) s"
| "queue_step ReadInt8 s = take_front 1 (\<lambda>bs. I8 (be_word bs)) s"

section \<open>Invariant and abstraction\<close>

text \<open>
  The layout of the class comment, \<open>0 \<le> readerIndex \<le> writerIndex \<le> size\<close>, with a vector
  that always holds the cheap prepend area.
\<close>

definition binv :: "Buffer \<Rightarrow> bool" where
  "binv b \<longleftrightarrow> readerIndex b \<le> writerIndex b \<and> writerIndex b \<le> length (buffer b)
     \<and> kCheapPrepend \<le> length (buffer b)"

definition content :: "Buffer \<Rightarrow> char list" where
  "content b = segment (buffer b) (readerIndex b) (writerIndex b)"

lemmas buffer_simps =
  readableBytes_def writableBytes_def prependableBytes_def peek_def beginWrite_def

lemma length_content [simp]: "binv b \<Longrightarrow> length (content b) = readableBytes b"
  by (simp add: binv_def content_def readableBytes_def)

lemma mkBuffer_ok: "okE (mkBuffer n) (\<lambda>b. binv b \<and> content b = [] \<and> writableBytes b = n)"
  by (simp add: mkBuffer_def Let_def buffer_simps binv_def content_def)

lemma swap_eq: "swap a b = (b, a)"
  by (simp add: swap_def)

lemma retrieveAll_inv [inv_intro]: "binv b \<Longrightarrow> binv (retrieveAll b)"
  by (simp add: binv_def retrieveAll_def)

lemma content_retrieveAll [simp]: "content (retrieveAll b) = []"
  by (simp add: content_def retrieveAll_def)

lemma retrieve_ok [inv_intro]:
  assumes "binv b" "n \<le> readableBytes b"
  shows "okE (retrieve b n) (\<lambda>b'. binv b' \<and> content b' = drop n (content b))"
proof (cases "n < readableBytes b")
  case True
  with assms show ?thesis
    by (auto simp: retrieve_def binv_def content_def readableBytes_def list_mem)
next
  case False
  with assms show ?thesis by (simp add: retrieve_def retrieveAll_inv)
qed

lemma retrieve_fail: "readableBytes b < n \<Longrightarrow> retrieve b n = Inl AssertFailed"
  by (simp add: retrieve_def)

lemma makeSpace_grow_ok:
  assumes "binv b" "writableBytes b < len"
    and "writableBytes b + prependableBytes b < len + kCheapPrepend"
  shows "okE (makeSpace b len) (\<lambda>b'. binv b' \<and> content b' = content b \<and> len \<le> writableBytes b')"
  using assms by (auto simp: makeSpace_def binv_def content_def buffer_simps list_mem)

lemma makeSpace_move_ok:
  assumes "binv b" "writableBytes b < len"
    and "\<not> writableBytes b + prependableBytes b < len + kCheapPrepend"
  shows "okE (makeSpace b len) (\<lambda>b'. binv b' \<and> content b' = content b \<and> len \<le> writableBytes b')"
proof -
  let ?n = "writerIndex b - readerIndex b"
  have r: "kCheapPrepend < readerIndex b"
    using assms by (simp add: buffer_simps)
  have "copy_loop (buffer b) (readerIndex b) kCheapPrepend ?n
      = overwrite (buffer b) kCheapPrepend (content b)"
    using assms r copy_loop_eq_overwrite [of kCheapPrepend "readerIndex b" ?n "buffer b"]
    by (simp add: binv_def content_def)
  moreover have "length (content b) = ?n"
    using assms by (simp add: readableBytes_def)
  ultimately show ?thesis
    using assms r
    by (auto simp: makeSpace_def Let_def binv_def content_def buffer_simps list_mem)
qed

lemma makeSpace_ok:
  assumes "binv b" "writableBytes b < len"
  shows "okE (makeSpace b len) (\<lambda>b'. binv b' \<and> content b' = content b \<and> len \<le> writableBytes b')"
  using assms makeSpace_grow_ok makeSpace_move_ok by blast

lemma ensureWritableBytes_ok [inv_intro]:
  assumes "binv b"
  shows "okE (ensureWritableBytes b len)
    (\<lambda>b'. binv b' \<and> content b' = content b \<and> len \<le> writableBytes b')"
proof (cases "writableBytes b < len")
  case True
  show ?thesis
    unfolding ensureWritableBytes_def using True assms
    by (auto intro: okE_bind [OF makeSpace_ok])
next
  case False
  with assms show ?thesis by (simp add: ensureWritableBytes_def)
qed

lemma write_ok:
  assumes "binv b" "length data \<le> writableBytes b"
  shows "okE (hasWritten (b\<lparr>buffer := overwrite (buffer b) (beginWrite b) data\<rparr>) (length data))
    (\<lambda>b'. binv b' \<and> content b' = content b @ data)"
proof -
  let ?w = "writerIndex b"
  have fit: "?w + length data \<le> length (buffer b)" and le: "readerIndex b \<le> ?w"
    using assms by (auto simp: binv_def writableBytes_def)
  have "segment (overwrite (buffer b) ?w data) (readerIndex b) (?w + length data)
      = segment (overwrite (buffer b) ?w data) (readerIndex b) ?w
        @ segment (overwrite (buffer b) ?w data) ?w (?w + length data)"
    using le by (simp add: segment_append_segment)
  then show ?thesis
    using assms fit le by (simp add: hasWritten_def buffer_simps binv_def content_def list_mem)
qed

lemma append_ok [inv_intro]:
  assumes "binv b"
  shows "okE (append_bytes b data) (\<lambda>b'. binv b' \<and> content b' = content b @ data)"
  unfolding append_bytes_def
  by (rule okE_bind [OF ensureWritableBytes_ok [OF assms]]) (auto intro: okE_mono [OF write_ok])

lemma prepend_ok [inv_intro]:
  assumes "binv b" "length data \<le> prependableBytes b"
  shows "okE (prepend b data) (\<lambda>b'. binv b' \<and> content b' = data @ content b)"
proof -
  let ?r = "readerIndex b - length data"
  have fit: "?r + length data \<le> length (buffer b)" "?r + length data = readerIndex b"
    using assms by (simp_all add: binv_def prependableBytes_def)
  have after: "segment (overwrite (buffer b) ?r data) (readerIndex b) (writerIndex b)
      = segment (buffer b) (readerIndex b) (writerIndex b)"
    using assms fit by (simp add: segment_def overwrite_def prependableBytes_def binv_def)
  have "segment (overwrite (buffer b) ?r data) ?r (writerIndex b)
      = segment (overwrite (buffer b) ?r data) ?r (readerIndex b)
        @ segment (overwrite (buffer b) ?r data) (readerIndex b) (writerIndex b)"
    using assms by (simp add: segment_append_segment binv_def)
  then show ?thesis
    using assms fit after
    by (simp add: prepend_def Let_def binv_def content_def prependableBytes_def list_mem)
qed

lemma unwrite_ok [inv_intro]:
  assumes "binv b" "n \<le> readableBytes b"
  shows "okE (unwrite b n) (\<lambda>b'. binv b' \<and> content b' = take (readableBytes b - n) (content b))"
  using assms by (auto simp: unwrite_def binv_def content_def readableBytes_def segment_def min_def
      add.commute)

subsection \<open>Strings and integers\<close>

lemma segment_content:
  assumes "binv b" "n \<le> readableBytes b"
  shows "segment (buffer b) (peek b) (peek b + n) = take n (content b)"
  using assms by (auto simp: binv_def content_def buffer_simps list_mem)

lemma retrieveAsString_ok:
  assumes "binv b" "n \<le> readableBytes b"
  shows "okE (retrieveAsString b n)
    (\<lambda>(s, b'). s = take n (content b) \<and> binv b' \<and> content b' = drop n (content b))"
  using assms retrieve_ok [OF assms]
  by (cases "retrieve b n") (simp_all add: retrieveAsString_def Let_def segment_content)

lemma peekInt64_eq:
  "binv b \<Longrightarrow> 8 \<le> readableBytes b \<Longrightarrow> peekInt64 little b = Inr (be_word (take 8 (content b)))"
  by (simp add: peekInt64_def segment_content wire_words)

lemma peekInt32_eq:
  "binv b \<Longrightarrow> 4 \<le> readableBytes b \<Longrightarrow> peekInt32 little b = Inr (be_word (take 4 (content b)))"
  by (simp add: peekInt32_def segment_content wire_words)

lemma peekInt16_eq:
  "binv b \<Longrightarrow> 2 \<le> readableBytes b \<Longrightarrow> peekInt16 little b = Inr (be_word (take 2 (content b)))"
  by (simp add: peekInt16_def segment_content wire_words del: add_2_eq_Suc')

lemma peekInt8_eq:
  assumes "binv b" "1 \<le> readableBytes b"
  shows "peekInt8 b = Inr (be_word (take 1 (content b)))"
proof -
  have "content b \<noteq> []" using assms by (metis length_content list.size(3) not_one_le_zero)
  then have "take 1 (content b) = [content b ! 0]"
    by (simp add: take_Suc hd_conv_nth)
  moreover have "content b ! 0 = buffer b ! peek b"
    using assms by (auto simp: content_def nth_segment binv_def buffer_simps)
  ultimately show ?thesis
    using assms by (simp add: peekInt8_def be_word_def)
qed

lemma peekInt_fail:
  "readableBytes b < 8 \<Longrightarrow> peekInt64 little b = Inl AssertFailed"
  "readableBytes b < 4 \<Longrightarrow> peekInt32 little b = Inl AssertFailed"
  "readableBytes b < 2 \<Longrightarrow> peekInt16 little b = Inl AssertFailed"
  "readableBytes b < 1 \<Longrightarrow> peekInt8 b = Inl AssertFailed"
  by (simp_all add: peekInt64_def peekInt32_def peekInt16_def peekInt8_def)

lemma appendInt8_eq: "appendInt8 b x = append_bytes b (be_bytes x)"
proof -
  have "be_bytes x = [char_of (unat x mod 256)]"
    by (simp add: be_bytes_def flip: One_nat_def) (simp add: One_nat_def)
  then show ?thesis by (simp add: appendInt8_def)
qed

lemmas int_append_eqs =
  appendInt64_def appendInt32_def appendInt16_def appendInt8_eq wire_bytes

lemma int_of_size_small: "n < 2 ^ 31 \<Longrightarrow> int_of_size n = int n"
  by (simp add: int_of_size_def Let_def)

lemma int_of_size_le: "int_of_size n \<le> int n"
proof -
  have "n mod 2 ^ 32 \<le> n" by (rule mod_less_eq_dividend)
  then show ?thesis unfolding int_of_size_def Let_def by (auto simp del: mod_less_eq_dividend)
qed

lemma shrink_ok:
  assumes "binv b" "0 \<le> int_of_size (readableBytes b)"
  shows "okE (shrink b reserve)
    (\<lambda>b'. binv b' \<and> content b' = take (nat (int_of_size (readableBytes b))) (content b))"
proof -
  let ?n = "nat (int_of_size (readableBytes b))"
  have "?n \<le> readableBytes b" using int_of_size_le [of "readableBytes b"] by simp
  then have piece: "segment (buffer b) (peek b) (peek b + ?n) = take ?n (content b)"
    by (rule segment_content [OF assms(1)])
  have tail: "okE (bindE (append_bytes other (take ?n (content b))) (\<lambda>o'. Inr (fst (swap b o'))))
      (\<lambda>b'. binv b' \<and> content b' = take ?n (content b))"
    if "binv other" "content other = []" for other
    by (rule okE_bind [OF append_ok [OF that(1)]]) (simp add: swap_eq that(2))
  show ?thesis
    unfolding shrink_def toStringPiece_def using assms(2)
    by (auto simp: piece intro!: okE_bind [OF mkBuffer_ok] okE_bind [OF ensureWritableBytes_ok] tail)
qed

lemma shrink_fail: "int_of_size (readableBytes b) < 0 \<Longrightarrow> shrink b reserve = Inl OutOfBounds"
proof -
  assume neg: "int_of_size (readableBytes b) < 0"
  obtain c where c: "mkBuffer kInitialSize = Inr c" "binv c"
    using mkBuffer_ok [of kInitialSize] by (auto simp: okE_iff)
  obtain d where "ensureWritableBytes c (readableBytes b + reserve) = Inr d"
    using ensureWritableBytes_ok [OF c(2)] by (auto simp: okE_iff)
  with c neg show ?thesis by (simp add: shrink_def toStringPiece_def)
qed

subsection \<open>The byte queue\<close>

text \<open>What the users of a buffer rely on: appended bytes come out first in, first out.\<close>

locale byte_buffer =
  fixes inv :: "'b \<Rightarrow> bool"
    and bytes :: "'b \<Rightarrow> char list"
    and append :: "'b \<Rightarrow> char list \<Rightarrow> 'b res"
    and retr :: "'b \<Rightarrow> nat \<Rightarrow> 'b res"
  assumes append_law: "inv b \<Longrightarrow> okE (append b s) (\<lambda>b'. inv b' \<and> bytes b' = bytes b @ s)"
    and retr_law: "inv b \<Longrightarrow> n \<le> length (bytes b)
        \<Longrightarrow> okE (retr b n) (\<lambda>b'. inv b' \<and> bytes b' = drop n (bytes b))"
    and retr_guard: "inv b \<Longrightarrow> length (bytes b) < n \<Longrightarrow> retr b n = Inl AssertFailed"
begin

lemma append_all_law:
  "inv b \<Longrightarrow> okE (foldE append b ss) (\<lambda>b'. inv b' \<and> bytes b' = bytes b @ concat ss)"
proof (induction ss arbitrary: b)
  case Nil
  then show ?case by simp
next
  case (Cons s ss)
  show ?case
    unfolding foldE.simps
  proof (rule okE_bind [OF append_law [OF Cons.prems]])
    fix b' assume "inv b' \<and> bytes b' = bytes b @ s"
    with Cons.IH [of b'] show "okE (foldE append b' ss) (\<lambda>c. inv c \<and> bytes c = bytes b @ concat (s # ss))"
      by simp
  qed
qed

lemma append_retr_law:
  assumes "inv b"
  shows "okE (bindE (append b s) (\<lambda>b'. retr b' (length (bytes b)))) (\<lambda>b'. inv b' \<and> bytes b' = s)"
  by (rule okE_bind [OF append_law [OF assms]]) (auto intro: okE_mono [OF retr_law])

end

interpretation bb: byte_buffer binv content append_bytes retrieve
proof (standard, goal_cases)
  case (1 b s)
  then show ?case by (rule append_ok)
next
  case (2 b n)
  then show ?case using retrieve_ok [of b n] by simp
next
  case (3 b n)
  then show ?case by (simp add: retrieve_fail)
qed

subsection \<open>Refinement of the byte queue\<close>

definition buf_rel :: "Buffer \<Rightarrow> char list \<Rightarrow> bool" where
  "buf_rel b s \<longleftrightarrow> binv b \<and> content b = s"

lemma void_sim:
  "okE m (\<lambda>b'. binv b' \<and> content b' = s) \<Longrightarrow> simulates buf_rel (void m) (Inr (Void, s))"
  by (cases m) (simp_all add: void_def buf_rel_def)

lemma take_front_sim:
  assumes "buf_rel b s"
    and "n \<le> readableBytes b \<Longrightarrow>
          okE m (\<lambda>(x, b'). g x = f (take n (content b)) \<and> binv b' \<and> content b' = drop n (content b))"
    and "readableBytes b < n \<Longrightarrow> m = Inl AssertFailed"
  shows "simulates buf_rel (bindE m (\<lambda>(x, b'). Inr (g x, b'))) (take_front n f s)"
proof (cases "n \<le> readableBytes b")
  case True
  with assms show ?thesis
    by (cases m) (auto simp: take_front_def buf_rel_def)
next
  case False
  with assms show ?thesis by (auto simp: take_front_def buf_rel_def)
qed

lemma readInt_sim:
  assumes "buf_rel b s"
    and "n \<le> readableBytes b \<Longrightarrow> p = Inr (h (take n (content b)))"
    and "readableBytes b < n \<Longrightarrow> p = Inl AssertFailed"
  shows "simulates buf_rel
    (bindE (bindE p (\<lambda>x. bindE (retrieve b n) (\<lambda>b'. Inr (x, b')))) (\<lambda>(x, b'). Inr (g x, b')))
    (take_front n (\<lambda>bs. g (h bs)) s)"
proof (rule take_front_sim [OF assms(1)])
  assume le: "n \<le> readableBytes b"
  then show "okE (bindE p (\<lambda>x. bindE (retrieve b n) (\<lambda>b'. Inr (x, b'))))
      (\<lambda>(x, b'). g x = g (h (take n (content b))) \<and> binv b' \<and> content b' = drop n (content b))"
    using assms(1,2) retrieve_ok [of b n]
    by (cases "retrieve b n") (simp_all add: buf_rel_def)
next
  assume "readableBytes b < n"
  then show "bindE p (\<lambda>x. bindE (retrieve b n) (\<lambda>b'. Inr (x, b'))) = Inl AssertFailed"
    using assms(3) by simp
qed

lemma retrieve_sim: "buf_rel b s \<Longrightarrow> simulates buf_rel (void (retrieve b n)) (take_front n (\<lambda>_. Void) s)"
  using retrieve_ok [of b n] retrieve_fail [of b n]
  by (cases "retrieve b n"; cases "n \<le> readableBytes b")
    (auto simp: void_def take_front_def buf_rel_def)

lemma retrieveAsString_sim:
  assumes "buf_rel b s"
  shows "simulates buf_rel (bindE (retrieveAsString b n) (\<lambda>(x, b). Inr (Str x, b))) (take_front n Str s)"
proof (rule take_front_sim [OF assms])
  show "n \<le> readableBytes b \<Longrightarrow> okE (retrieveAsString b n)
      (\<lambda>(x, b'). Str x = Str (take n (content b)) \<and> binv b' \<and> content b' = drop n (content b))"
    using assms retrieveAsString_ok [of b n] by (simp add: buf_rel_def)
  show "readableBytes b < n \<Longrightarrow> retrieveAsString b n = Inl AssertFailed"
    by (simp add: retrieveAsString_def)
qed

lemma unwrite_sim:
  "buf_rel b s \<Longrightarrow> simulates buf_rel (void (unwrite b n))
     (if n \<le> length s then Inr (Void, take (length s - n) s) else Inl AssertFailed)"
  using unwrite_ok [of b n]
  by (cases "unwrite b n"; cases "n \<le> readableBytes b")
    (auto simp: void_def buf_rel_def unwrite_def)

lemma shrink_sim:
  "buf_rel b s \<Longrightarrow> simulates buf_rel (void (shrink b n))
     (if int_of_size (length s) < 0 then Inl OutOfBounds
      else Inr (Void, take (nat (int_of_size (length s))) s))"
  using shrink_ok [of b n] shrink_fail [of b n]
  by (cases "shrink b n"; cases "int_of_size (readableBytes b) < 0")
    (auto simp: void_def buf_rel_def)

lemma append_sim: "buf_rel b s \<Longrightarrow> simulates buf_rel (void (append_bytes b d)) (Inr (Void, s @ d))"
  using append_ok [of b d] by (auto simp: buf_rel_def intro: void_sim)

lemmas buf_sims = retrieve_sim retrieveAsString_sim append_sim

lemmas readInt_defs =
  readInt64_def readInt32_def readInt16_def readInt8_def
  retrieveInt64_def retrieveInt32_def retrieveInt16_def retrieveInt8_def

lemma buf_step_sim:
  assumes "buf_rel b s"
  shows "simulates buf_rel (buf_step little op b) (queue_step op s)"
proof (cases op)
  case RetrieveAllAsString
  have "take_front (readableBytes b) Str s = Inr (Str s, [])"
    using assms by (auto simp: take_front_def buf_rel_def)
  with RetrieveAllAsString retrieveAsString_sim [OF assms, of "readableBytes b"] show ?thesis
    by (simp add: retrieveAllAsString_def)
next
  case (EnsureWritable n)
  with assms ensureWritableBytes_ok [of b n] show ?thesis
    by (auto simp: buf_rel_def intro!: void_sim elim: okE_mono)
next
  case (Unwrite n)
  with assms show ?thesis using unwrite_sim by simp
next
  case (Shrink n)
  with assms show ?thesis using shrink_sim by simp
qed (use assms in \<open>auto simp: int_append_eqs readInt_defs buf_rel_def
      intro!: buf_sims readInt_sim retrieveAll_inv
      intro: peekInt64_eq peekInt32_eq peekInt16_eq peekInt8_eq peekInt_fail
      simp del: One_nat_def\<close>)

interpretation br: data_refinement "buf_step little" queue_step buf_rel
  by standard (rule buf_step_sim)

subsection \<open>Searching and reading from a descriptor\<close>

lemma search_crlf_Some:
  "search_crlf s = Some i \<longleftrightarrow>
     i + 2 \<le> length s \<and> take 2 (drop i s) = kCRLF \<and> (\<forall>j<i. take 2 (drop j s) \<noteq> kCRLF)"
proof (induction s arbitrary: i rule: search_crlf.induct)
  case (1 x y zs)
  show ?case
  proof (cases i)
    case 0
    then show ?thesis by (auto simp: numeral_2_eq_2)
  next
    case (Suc k)
    with 1 show ?thesis
      by (auto simp: All_less_Suc2 numeral_2_eq_2 split: if_splits)
  qed
qed (simp_all add: kCRLF_def)

lemma search_crlf_None: "search_crlf s = None \<longleftrightarrow> (\<forall>j. take 2 (drop j s) \<noteq> kCRLF)"
proof -
  have "search_crlf s \<noteq> None \<longleftrightarrow> (\<exists>j. take 2 (drop j s) = kCRLF)"
  proof
    assume "search_crlf s \<noteq> None"
    then show "\<exists>j. take 2 (drop j s) = kCRLF" by (auto simp: search_crlf_Some)
  next
    assume ex: "\<exists>j. take 2 (drop j s) = kCRLF"
    define j where "j = (LEAST j. take 2 (drop j s) = kCRLF)"
    have 1: "take 2 (drop j s) = kCRLF" using ex unfolding j_def by (rule LeastI_ex)
    have 2: "\<forall>k<j. take 2 (drop k s) \<noteq> kCRLF" unfolding j_def using not_less_Least by blast
    have "length (take 2 (drop j s)) = 2" using 1 by (simp add: kCRLF_def)
    then have "j + 2 \<le> length s" by (simp add: min_def split: if_splits)
    with 1 2 show "search_crlf s \<noteq> None" by (auto simp: search_crlf_Some [THEN iffD2])
  qed
  then show ?thesis by blast
qed

lemma findCRLF_eq: "binv b \<Longrightarrow> findCRLF b = map_option ((+) (peek b)) (search_crlf (content b))"
  by (simp add: findCRLF_def content_def buffer_simps)

definition readv_capacity :: "Buffer \<Rightarrow> nat" where
  "readv_capacity b = writableBytes b + (if writableBytes b < extrabuf_size then extrabuf_size else 0)"

lemma store_ok:
  assumes "binv b" "length d \<le> writableBytes b"
  shows "binv (b\<lparr>buffer := overwrite (buffer b) (writerIndex b) d, writerIndex := writerIndex b + length d\<rparr>)
    \<and> content (b\<lparr>buffer := overwrite (buffer b) (writerIndex b) d, writerIndex := writerIndex b + length d\<rparr>)
      = content b @ d"
  using write_ok [OF assms] unfolding okE_iff hasWritten_def bindE_Inr_iff
  by (auto simp: beginWrite_def)

lemma readFd_data_ok:
  assumes "binv b" "readv (readv_capacity b) = ReadvOk data"
  shows "okE (readFd readv b) (\<lambda>(n, err, b'). n = int (length data) \<and> err = None
    \<and> binv b' \<and> content b' = content b @ data)"
proof -
  let ?b = "b\<lparr>buffer := overwrite (buffer b) (writerIndex b) (take (writableBytes b) data)\<rparr>"
  have cap: "(if writableBytes b < extrabuf_size then writableBytes b + extrabuf_size
      else writableBytes b) = readv_capacity b"
    by (simp add: readv_capacity_def)
  show ?thesis
  proof (cases "length data \<le> writableBytes b")
    case True
    then show ?thesis
      using assms store_ok [of b data] by (simp add: readFd_def cap Let_def)
  next
    case False
    then have len: "length (buffer ?b) = writerIndex b + length (take (writableBytes b) data)"
      using assms(1) by (auto simp: overwrite_def writableBytes_def binv_def)
    have "binv (?b\<lparr>writerIndex := length (buffer ?b)\<rparr>)
        \<and> content (?b\<lparr>writerIndex := length (buffer ?b)\<rparr>) = content b @ take (writableBytes b) data"
      using assms(1) store_ok [of b "take (writableBytes b) data"] unfolding len by simp
    then have "okE (append_bytes (?b\<lparr>writerIndex := length (buffer ?b)\<rparr>) (drop (writableBytes b) data))
        (\<lambda>b'. binv b' \<and> content b' = content b @ data)"
      using append_ok [of "?b\<lparr>writerIndex := length (buffer ?b)\<rparr>" "drop (writableBytes b) data"]
      by (elim conjE) (auto elim: okE_mono)
    with False assms(2) show ?thesis
      by (auto simp: readFd_def cap Let_def intro: okE_bind)
  qed
qed

lemma readFd_error:
  "readv (readv_capacity b) = ReadvErr e \<Longrightarrow> readFd readv b = Inr (- 1, Some e, b)"
  by (auto simp: readFd_def readv_capacity_def split: if_splits)

subsection \<open>Growth without wrap-around\<close>

lemma unat_small: "n < 2 ^ 64 \<Longrightarrow> unat (word_of_nat n :: 64 word) = n"
  by (simp add: unat_of_nat take_bit_nat_eq_self)

lemma word64_sum_less:
  assumes "i + j < 2 ^ 64" "k + l < 2 ^ 64"
  shows "(word_of_nat i + word_of_nat j :: 64 word) < word_of_nat k + word_of_nat l \<longleftrightarrow> i + j < k + l"
  using assms by (simp add: word_less_nat_alt unat_small flip: of_nat_add)

lemma makeSpace64_eq:
  assumes "length (buffer b) + unat len + kCheapPrepend < 2 ^ 64" "binv b"
  shows "makeSpace64 b len = makeSpace b (unat len)"
proof -
  have "(word_of_nat (writableBytes b) + word_of_nat (prependableBytes b) :: 64 word)
        < word_of_nat (unat len) + word_of_nat kCheapPrepend
      \<longleftrightarrow> writableBytes b + prependableBytes b < unat len + kCheapPrepend"
    using assms by (intro word64_sum_less) (auto simp: binv_def buffer_simps)
  moreover have "unat (word_of_nat (writerIndex b) + word_of_nat (unat len) :: 64 word) = writerIndex b + unat len"
    using assms by (subst of_nat_add [symmetric], intro unat_small) (auto simp: binv_def)
  ultimately show ?thesis by (simp add: makeSpace64_def makeSpace_def)
qed

lemma unat_diff_small:
  assumes "n \<le> m" "m < 2 ^ 64"
  shows "unat (word_of_nat m - word_of_nat n :: 64 word) = m - n"
proof -
  have "unat (word_of_nat (m - n) :: 64 word) = m - n" using assms by (intro unat_small) simp
  with assms(1) show ?thesis by (simp add: of_nat_diff)
qed

lemma ensureWritableBytes64_eq:
  assumes "length (buffer b) + unat len + kCheapPrepend < 2 ^ 64" "binv b"
  shows "ensureWritableBytes64 b len = ensureWritableBytes b (unat len)"
proof -
  have wr: "(word_of_nat n :: 64 word) < len \<longleftrightarrow> n < unat len"
    if "n \<le> length (buffer b) + unat len" for n
    using that assms(1) by (simp add: word_less_nat_alt unat_small)
  have fin: "word_of_nat (length (buffer c)) - word_of_nat (writerIndex c) \<ge> len
      \<longleftrightarrow> writableBytes c \<ge> unat len"
    if "binv c" "length (buffer c) \<le> length (buffer b) + unat len" for c
    using that assms(1)
    by (auto simp: binv_def writableBytes_def word_le_nat_alt unat_diff_small)
  obtain c where c: "makeSpace b (unat len) = Inr c" "binv c" if "writableBytes b < unat len"
    using makeSpace_ok [OF assms(2)] by (auto simp: okE_iff)
  have "length (buffer c) \<le> length (buffer b) + unat len" if "writableBytes b < unat len"
    using c(1) [OF that] assms(2)
    by (auto simp: makeSpace_def Let_def binv_def bindE_Inr_iff split: if_splits)
  with c have "writableBytes b < unat len \<Longrightarrow>
      (word_of_nat (length (buffer c)) - word_of_nat (writerIndex c) \<ge> len) = (writableBytes c \<ge> unat len)"
    using fin [of c] by blast
  with c show ?thesis
    using assms(2) fin [of b] wr [of "writableBytes b"]
    by (cases "writableBytes b < unat len")
      (auto simp: ensureWritableBytes64_def ensureWritableBytes_def makeSpace64_eq [OF assms]
        writableBytes_def)
qed

section \<open>Properties\<close>

text \<open>
  C6: A buffer is a byte queue. Any sequence of the calls of \<open>buf_op\<close> on a buffer that
  satisfies the layout invariant returns what the same sequence returns on the plain list of
  its readable bytes, raises an assertion exactly when the list version does, and ends with the
  invariant and with that list as content, whatever the byte order of the host.
\<close>

theorem buffer_refines_queue:
  assumes "binv b"
  shows "simulates buf_rel (run_ops (buf_step little) ops b) (run_ops queue_step ops (content b))"
  using assms by (intro br.run_sim) (simp add: buf_rel_def)

theorem buffer_refines_queue_witness:
  "\<exists>b. mkBuffer 4 = Inr b \<and> binv b
     \<and> simulates buf_rel (run_ops (buf_step True) [Append ''hello'', AppendInt16 513, Retrieve 5, ReadInt16] b)
         (run_ops queue_step [Append ''hello'', AppendInt16 513, Retrieve 5, ReadInt16] (content b))"
proof -
  obtain b where "mkBuffer 4 = Inr b" "binv b"
    using mkBuffer_ok [of 4] by (auto simp: okE_iff)
  then show ?thesis using buffer_refines_queue [of b True] by blast
qed

text \<open>
  \<^verbatim>\<open>append\<close> never trips an assertion (in particular \<^verbatim>\<open>kCheapPrepend < readerIndex_\<close> in
  \<^verbatim>\<open>makeSpace\<close> holds whenever it is reached), whether it grows the vector or moves the
  readable bytes to the front; the data is added at the end and \<^verbatim>\<open>prepend\<close> of up to
  \<^verbatim>\<open>prependableBytes()\<close> bytes adds it at the front.
\<close>

theorem append_prepend_content:
  assumes "binv b" "length hdr \<le> prependableBytes b"
  shows "okE (append_bytes b data) (\<lambda>b'. binv b' \<and> content b' = content b @ data)
    \<and> okE (prepend b hdr) (\<lambda>b'. binv b' \<and> content b' = hdr @ content b)"
  using assms by (simp add: append_ok prepend_ok)

theorem append_prepend_content_witness:
  "okE (append_bytes \<lparr>buffer = replicate 12 (CHR ''x''), readerIndex = 10, writerIndex = 12\<rparr> ''abc'')
     (\<lambda>b'. binv b' \<and> content b' = ''xxabc'')
   \<and> okE (prepend \<lparr>buffer = replicate 12 (CHR ''x''), readerIndex = 10, writerIndex = 12\<rparr> ''GET '')
     (\<lambda>b'. binv b' \<and> content b' = ''GET xx'')"
  using append_prepend_content
    [of "\<lparr>buffer = replicate 12 (CHR ''x''), readerIndex = 10, writerIndex = 12\<rparr>" "''GET ''" "''abc''"]
  by (simp add: binv_def prependableBytes_def kCheapPrepend_def content_def segment_def numeral_eq_Suc)

text \<open>
  C16: Integers written with \<^verbatim>\<open>appendInt64/32/16/8\<close> arrive unchanged at a reader that
  receives the bytes and calls \<^verbatim>\<open>readInt64/32/16/8\<close>, also when writer and reader are hosts of
  different byte order (\<open>w\<close> and \<open>r\<close>): the bytes in between are big-endian, and the reader's buffer
  is empty afterwards.
\<close>

theorem int_round_trip:
  assumes "binv b" "content b = []" "binv c" "content c = []"
  shows "\<exists>b' c'. run_ops (buf_step w) [AppendInt64 x, AppendInt32 y, AppendInt16 z, AppendInt8 v] b
        = Inr ([Void, Void, Void, Void], b')
      \<and> content b' = be_bytes x @ be_bytes y @ be_bytes z @ be_bytes v
      \<and> run_ops (buf_step r) [Append (content b'), ReadInt64, ReadInt32, ReadInt16, ReadInt8] c
        = Inr ([Void, I64 x, I32 y, I16 z, I8 v], c')
      \<and> content c' = []"
proof -
  let ?bs = "be_bytes x @ be_bytes y @ be_bytes z @ be_bytes v"
  have "run_ops queue_step [AppendInt64 x, AppendInt32 y, AppendInt16 z, AppendInt8 v] []
      = Inr ([Void, Void, Void, Void], ?bs)"
    by simp
  from br.run_ok [OF _ this, of b w] assms
  obtain b' where b': "run_ops (buf_step w) [AppendInt64 x, AppendInt32 y, AppendInt16 z, AppendInt8 v] b
      = Inr ([Void, Void, Void, Void], b')" "buf_rel b' ?bs"
    by (auto simp: buf_rel_def)
  have "run_ops queue_step [Append ?bs, ReadInt64, ReadInt32, ReadInt16, ReadInt8] []
      = Inr ([Void, I64 x, I32 y, I16 z, I8 v], [])"
    by (simp add: take_front_def be_word_be_bytes [where n = 8] be_word_be_bytes [where n = 4]
        be_word_be_bytes [where n = 2] be_word_be_bytes [where n = 1] del: One_nat_def)
  from br.run_ok [OF _ this, of c r] assms
  obtain c' where "run_ops (buf_step r) [Append ?bs, ReadInt64, ReadInt32, ReadInt16, ReadInt8] c
      = Inr ([Void, I64 x, I32 y, I16 z, I8 v], c')" "buf_rel c' []"
    by (auto simp: buf_rel_def)
  with b' show ?thesis by (auto simp: buf_rel_def simp del: run_ops.simps)
qed

theorem int_round_trip_witness:
  "\<exists>b b' c'. mkBuffer 2 = Inr b
      \<and> run_ops (buf_step True) [AppendInt64 (- 2), AppendInt32 7, AppendInt16 258, AppendInt8 255] b
        = Inr ([Void, Void, Void, Void], b')
      \<and> run_ops (buf_step False) [Append (content b'), ReadInt64, ReadInt32, ReadInt16, ReadInt8] b
        = Inr ([Void, I64 (- 2), I32 7, I16 258, I8 255], c')"
proof -
  obtain b where "mkBuffer 2 = Inr b" "binv b" "content b = []"
    using mkBuffer_ok [of 2] by (auto simp: okE_iff)
  then show ?thesis
    using int_round_trip [of b b True "- 2" 7 258 255 False] by blast
qed

text \<open>
  C17: \<^verbatim>\<open>readFd\<close> appends to the content exactly the bytes that \<^verbatim>\<open>readv\<close> delivered, including
  those that went to the stack buffer, and returns their number; on an error it returns -1, saves
  the error number and leaves the buffer alone. Provided \<^verbatim>\<open>readv\<close> stores at most as many bytes as
  the areas hold, one call that uses the stack buffer reads at most 128k - 1 bytes.
\<close>

theorem readFd_appends:
  assumes "binv b"
    and kernel: "\<And>cap data. readv cap = ReadvOk data \<Longrightarrow> length data \<le> cap"
  shows "okE (readFd readv b) (\<lambda>(n, err, b').
     case readv (readv_capacity b) of
       ReadvErr e \<Rightarrow> n = - 1 \<and> err = Some e \<and> b' = b
     | ReadvOk data \<Rightarrow> n = int (length data) \<and> err = None \<and> binv b' \<and> content b' = content b @ data
         \<and> (writableBytes b < extrabuf_size \<longrightarrow> n \<le> 128 * 1024 - 1))"
proof (cases "readv (readv_capacity b)")
  case (ReadvErr e)
  then show ?thesis by (simp add: readFd_error)
next
  case (ReadvOk data)
  then have "length data \<le> readv_capacity b" by (rule kernel)
  then have "writableBytes b < extrabuf_size \<Longrightarrow> length data \<le> 128 * 1024 - 1"
    by (simp add: readv_capacity_def extrabuf_size_def)
  with ReadvOk readFd_data_ok [of b readv data, OF assms(1) ReadvOk] show ?thesis
    by (auto elim!: okE_mono)
qed

theorem readFd_appends_witness:
  "\<exists>b. mkBuffer 3 = Inr b \<and> okE (readFd (\<lambda>cap. ReadvOk (take cap ''hello'')) b)
     (\<lambda>(n, err, b'). n = 5 \<and> err = None \<and> content b' = ''hello'')"
proof -
  obtain b where b: "mkBuffer 3 = Inr b" "binv b" "content b = []" "writableBytes b = 3"
    using mkBuffer_ok [of 3] by (auto simp: okE_iff)
  then have "okE (readFd (\<lambda>cap. ReadvOk (take cap ''hello'')) b)
     (\<lambda>(n, err, b'). n = 5 \<and> err = None \<and> content b' = ''hello'')"
    using readFd_appends [OF b(2), of "\<lambda>cap. ReadvOk (take cap ''hello'')"]
    by (auto simp: readv_capacity_def extrabuf_size_def elim!: okE_mono)
  with b(1) show ?thesis by blast
qed

text \<open>
  C18: As long as the vector and the request together stay below \<open>2\<^sup>6\<^sup>4\<close>, the \<^verbatim>\<open>size_t\<close>
  arithmetic of \<^verbatim>\<open>ensureWritableBytes\<close> and \<^verbatim>\<open>makeSpace\<close> does not wrap: the 64-bit functions are
  those on natural numbers.
\<close>

theorem ensureWritableBytes_no_wrap:
  assumes "binv b" "length (buffer b) + unat len + kCheapPrepend < 2 ^ 64"
  shows "ensureWritableBytes64 b len = ensureWritableBytes b (unat len)
    \<and> okE (ensureWritableBytes64 b len) (\<lambda>b'. binv b' \<and> content b' = content b \<and> unat len \<le> writableBytes b')"
  using assms by (simp add: ensureWritableBytes64_eq ensureWritableBytes_ok)

theorem ensureWritableBytes_no_wrap_witness:
  "okE (ensureWritableBytes64 \<lparr>buffer = replicate 12 (CHR ''x''), readerIndex = 10, writerIndex = 12\<rparr> 100)
     (\<lambda>b'. binv b' \<and> content b' = ''xx'' \<and> 100 \<le> writableBytes b')"
proof -
  let ?b = "\<lparr>buffer = replicate 12 (CHR ''x''), readerIndex = 10, writerIndex = 12\<rparr>"
  have "binv ?b" by (simp add: binv_def kCheapPrepend_def)
  moreover have "content ?b = ''xx''" by (simp add: content_def segment_def numeral_eq_Suc)
  moreover have "length (buffer ?b) + unat (100 :: 64 word) + kCheapPrepend < 2 ^ 64"
    by (simp add: kCheapPrepend_def)
  ultimately show ?thesis
    using ensureWritableBytes_no_wrap [of ?b 100] by auto
qed

end
