(* ===== verification/Http.thy ===== *)
theory Http
  imports Buffer
begin

text \<open>
  The HTTP server of \<^verbatim>\<open>muduo/net/http\<close>: the request record, the incremental parser
  \<^verbatim>\<open>HttpContext::parseRequest\<close> over a buffer, the response printer and the message handler of
  \<^verbatim>\<open>HttpServer\<close>. The parser loop may run forever (it does in two of the four parser states), so it is
  a \<open>partial_function\<close> whose value \<^const>\<open>None\<close> means that it does not return.
\<close>

section \<open>Requests\<close>

datatype Method = kInvalid | kGet | kPost | kHead | kPut | kDelete

datatype Version = kUnknown | kHttp10 | kHttp11

record HttpRequest =
  reqMethod :: Method
  reqVersion :: Version
  reqPath :: string
  reqQuery :: string
  reqReceiveTime :: int
  reqHeaders :: "(string \<times> string) list"

definition mkHttpRequest :: HttpRequest where
  "mkHttpRequest = \<lparr>reqMethod = kInvalid, reqVersion = kUnknown, reqPath = [], reqQuery = [],
     reqReceiveTime = 0, reqHeaders = []\<rparr>"

definition setMethod :: "HttpRequest \<Rightarrow> string \<Rightarrow> (bool \<times> HttpRequest) res" where
  "setMethod req m =
    bindE (assertE (reqMethod req = kInvalid)) (\<lambda>_.
    let method = (if m = ''GET'' then kGet
                  else if m = ''POST'' then kPost
                  else if m = ''HEAD'' then kHead
                  else if m = ''PUT'' then kPut
                  else if m = ''DELETE'' then kDelete
                  else kInvalid) in
    Inr (method \<noteq> kInvalid, req\<lparr>reqMethod := method\<rparr>))"

definition methodString :: "HttpRequest \<Rightarrow> string" where
  "methodString req = (case reqMethod req of
       kGet \<Rightarrow> ''GET''
     | kPost \<Rightarrow> ''POST''
     | kHead \<Rightarrow> ''HEAD''
     | kPut \<Rightarrow> ''PUT''
     | kDelete \<Rightarrow> ''DELETE''
     | kInvalid \<Rightarrow> ''UNKNOWN'')"

definition setPath :: "HttpRequest \<Rightarrow> string \<Rightarrow> HttpRequest" where
  "setPath req s = req\<lparr>reqPath := s\<rparr>"

definition setQuery :: "HttpRequest \<Rightarrow> string \<Rightarrow> HttpRequest" where
  "setQuery req s = req\<lparr>reqQuery := s\<rparr>"

definition setVersion :: "HttpRequest \<Rightarrow> Version \<Rightarrow> HttpRequest" where
  "setVersion req v = req\<lparr>reqVersion := v\<rparr>"

definition setReceiveTime :: "HttpRequest \<Rightarrow> int \<Rightarrow> HttpRequest" where
  "setReceiveTime req t = req\<lparr>reqReceiveTime := t\<rparr>"

text \<open>\<^verbatim>\<open>isspace\<close> in the C locale.\<close>

definition isspace :: "char \<Rightarrow> bool" where
  "isspace c \<longleftrightarrow> c \<in> {CHR '' '', CHR 0x09, CHR 0x0A, CHR 0x0B, CHR 0x0C, CHR 0x0D}"

text \<open>The line from \<open>start\<close> to \<open>end\<close> with the offset of its colon.\<close>

definition addHeader :: "HttpRequest \<Rightarrow> string \<Rightarrow> nat \<Rightarrow> HttpRequest" where
  "addHeader req line colon =
    (let field = take colon line;
         val = dropWhile isspace (drop (colon + 1) line);
         val = rev (dropWhile isspace (rev val)) in
     req\<lparr>reqHeaders := map_put field val (reqHeaders req)\<rparr>)"

definition getHeader :: "HttpRequest \<Rightarrow> string \<Rightarrow> string" where
  "getHeader req field = (case map_of (reqHeaders req) field of Some v \<Rightarrow> v | None \<Rightarrow> [])"

section \<open>The parser\<close>

datatype HttpRequestParseState = kExpectRequestLine | kExpectHeaders | kExpectBody | kGotAll

record HttpContext =
  ctxState :: HttpRequestParseState
  ctxRequest :: HttpRequest

definition mkHttpContext :: HttpContext where
  "mkHttpContext = \<lparr>ctxState = kExpectRequestLine, ctxRequest = mkHttpRequest\<rparr>"

definition gotAll :: "HttpContext \<Rightarrow> bool" where
  "gotAll ctx \<longleftrightarrow> ctxState ctx = kGotAll"

definition resetContext :: "HttpContext \<Rightarrow> HttpContext" where
  "resetContext ctx = ctx\<lparr>ctxState := kExpectRequestLine, ctxRequest := mkHttpRequest\<rparr>"

definition processRequestLine :: "HttpRequest \<Rightarrow> string \<Rightarrow> (bool \<times> HttpRequest) res" where
  "processRequestLine req line =
    (case find_char (CHR '' '') line of
       None \<Rightarrow> Inr (False, req)
     | Some space \<Rightarrow>
         bindE (setMethod req (take space line)) (\<lambda>(valid, req).
         if \<not> valid then Inr (False, req)
         else
           let rest = drop (space + 1) line in
           case find_char (CHR '' '') rest of
             None \<Rightarrow> Inr (False, req)
           | Some space2 \<Rightarrow>
               let target = take space2 rest;
                   req = (case find_char (CHR ''?'') target of
                            Some question \<Rightarrow>
                              setQuery (setPath req (take question target)) (drop question target)
                          | None \<Rightarrow> setPath req target);
                   start = drop (space2 + 1) rest in
               if length start = 8 \<and> take 7 start = ''HTTP/1.''
               then (if start ! 7 = CHR ''1'' then Inr (True, setVersion req kHttp11)
                     else if start ! 7 = CHR ''0'' then Inr (True, setVersion req kHttp10)
                     else Inr (False, req))
               else Inr (False, req)))"

partial_function (option) parseRequest ::
  "int \<Rightarrow> HttpContext \<Rightarrow> Buffer \<Rightarrow> (bool \<times> HttpContext \<times> Buffer) res option" where
  "parseRequest receiveTime ctx buf =
    (case ctxState ctx of
       kExpectRequestLine \<Rightarrow>
         (case findCRLF buf of
            None \<Rightarrow> Some (Inr (True, ctx, buf))
          | Some crlf \<Rightarrow>
              (case processRequestLine (ctxRequest ctx) (segment (buffer buf) (peek buf) crlf) of
                 Inl e \<Rightarrow> Some (Inl e)
               | Inr (ok, req) \<Rightarrow>
                   if ok
                   then (case retrieveUntil buf (crlf + 2) of
                           Inl e \<Rightarrow> Some (Inl e)
                         | Inr buf' \<Rightarrow>
                             parseRequest receiveTime
                               (ctx\<lparr>ctxRequest := setReceiveTime req receiveTime,
                                    ctxState := kExpectHeaders\<rparr>) buf')
                   else Some (Inr (False, ctx\<lparr>ctxRequest := req\<rparr>, buf))))
     | kExpectHeaders \<Rightarrow>
         (case findCRLF buf of
            None \<Rightarrow> Some (Inr (True, ctx, buf))
          | Some crlf \<Rightarrow>
              (let line = segment (buffer buf) (peek buf) crlf in
               case find_char (CHR '':'') line of
                 Some colon \<Rightarrow>
                   (case retrieveUntil buf (crlf + 2) of
                      Inl e \<Rightarrow> Some (Inl e)
                    | Inr buf' \<Rightarrow>
                        parseRequest receiveTime
                          (ctx\<lparr>ctxRequest := addHeader (ctxRequest ctx) line colon\<rparr>) buf')
               | None \<Rightarrow>
                   (case retrieveUntil buf (crlf + 2) of
                      Inl e \<Rightarrow> Some (Inl e)
                    | Inr buf' \<Rightarrow> Some (Inr (True, ctx\<lparr>ctxState := kGotAll\<rparr>, buf')))))
     | kExpectBody \<Rightarrow> parseRequest receiveTime ctx buf
     | kGotAll \<Rightarrow> parseRequest receiveTime ctx buf)"

section \<open>Responses\<close>

record HttpResponse =
  respHeaders :: "(string \<times> string) list"
  respStatusCode :: int
  respStatusMessage :: string
  respCloseConnection :: bool
  respBody :: string

definition mkHttpResponse :: "bool \<Rightarrow> HttpResponse" where
  "mkHttpResponse close = \<lparr>respHeaders = [], respStatusCode = 0, respStatusMessage = [],
     respCloseConnection = close, respBody = []\<rparr>"

definition respAddHeader :: "string \<Rightarrow> string \<Rightarrow> HttpResponse \<Rightarrow> HttpResponse" where
  "respAddHeader key val resp = resp\<lparr>respHeaders := map_put key val (respHeaders resp)\<rparr>"

definition setContentType :: "string \<Rightarrow> HttpResponse \<Rightarrow> HttpResponse" where
  "setContentType contentType resp = respAddHeader ''Content-Type'' contentType resp"

abbreviation append_list :: "Buffer \<Rightarrow> string list \<Rightarrow> Buffer res" where
  "append_list \<equiv> foldE append_bytes"

definition header_parts :: "(string \<times> string) list \<Rightarrow> string list" where
  "header_parts hs = concat (map (\<lambda>(k, v). [k, '': '', v, kCRLF]) hs)"

definition appendToBuffer :: "HttpResponse \<Rightarrow> Buffer \<Rightarrow> Buffer res" where
  "appendToBuffer resp output =
    bindE (append_list output
      [snprintf 32 (''HTTP/1.1 '' @ dec_int (respStatusCode resp) @ '' ''),
       respStatusMessage resp, kCRLF]) (\<lambda>output.
    bindE (if respCloseConnection resp
           then append_list output [''Connection: close'' @ kCRLF]
           else append_list output
             [snprintf 32 (''Content-Length: '' @ dec_nat (length (respBody resp)) @ kCRLF),
              ''Connection: Keep-Alive'' @ kCRLF]) (\<lambda>output.
    bindE (append_list output (header_parts (respHeaders resp))) (\<lambda>output.
    append_list output [kCRLF, respBody resp])))"

section \<open>The server\<close>

text \<open>
  What the handlers do to the connection: \<^verbatim>\<open>conn->send\<close> and \<^verbatim>\<open>conn->shutdown\<close>, in order. The
  user's \<^verbatim>\<open>httpCallback_\<close> is a function argument.
\<close>

datatype conn_action = Send string | Shutdown

definition defaultHttpCallback :: "HttpRequest \<Rightarrow> HttpResponse \<Rightarrow> HttpResponse" where
  "defaultHttpCallback req resp =
    resp\<lparr>respStatusCode := 404, respStatusMessage := ''Not Found'', respCloseConnection := True\<rparr>"

definition onRequest ::
  "(HttpRequest \<Rightarrow> HttpResponse \<Rightarrow> HttpResponse) \<Rightarrow> HttpRequest \<Rightarrow> conn_action list res" where
  "onRequest httpCallback req =
    (let connection = getHeader req ''Connection'';
         close = (connection = ''close''
           \<or> (reqVersion req = kHttp10 \<and> connection \<noteq> ''Keep-Alive''));
         response = httpCallback req (mkHttpResponse close) in
     bindE (mkBuffer kInitialSize) (\<lambda>buf.
     bindE (appendToBuffer response buf) (\<lambda>buf.
     bindE (retrieveAllAsString buf) (\<lambda>(sent, _).
     Inr (Send sent # (if respCloseConnection response then [Shutdown] else []))))))"

definition onMessage ::
  "(HttpRequest \<Rightarrow> HttpResponse \<Rightarrow> HttpResponse) \<Rightarrow> int \<Rightarrow> HttpContext \<Rightarrow> Buffer
    \<Rightarrow> (conn_action list \<times> HttpContext \<times> Buffer) res option" where
  "onMessage httpCallback receiveTime ctx buf =
    (case parseRequest receiveTime ctx buf of
       None \<Rightarrow> None
     | Some (Inl e) \<Rightarrow> Some (Inl e)
     | Some (Inr (ok, ctx, buf)) \<Rightarrow>
         Some (let bad = (if ok then [] else [Send (''HTTP/1.1 400 Bad Request'' @ kCRLF @ kCRLF), Shutdown]) in
           if gotAll ctx
           then bindE (onRequest httpCallback (ctxRequest ctx)) (\<lambda>acts.
                  Inr (bad @ acts, resetContext ctx, buf))
           else Inr (bad, ctx, buf)))"

section \<open>The parser on plain strings\<close>

text \<open>Reference definition: the parser over the list of readable bytes.\<close>

function parse_spec :: "int \<Rightarrow> HttpContext \<Rightarrow> string \<Rightarrow> (bool \<times> HttpContext \<times> string) res" where
  "parse_spec t ctx s =
    (case ctxState ctx of
       kExpectRequestLine \<Rightarrow>
         (case search_crlf s of
            None \<Rightarrow> Inr (True, ctx, s)
          | Some i \<Rightarrow>
              (case processRequestLine (ctxRequest ctx) (take i s) of
                 Inl e \<Rightarrow> Inl e
               | Inr (ok, req) \<Rightarrow>
                   if ok then parse_spec t (ctx\<lparr>ctxRequest := setReceiveTime req t,
                                ctxState := kExpectHeaders\<rparr>) (drop (i + 2) s)
                   else Inr (False, ctx\<lparr>ctxRequest := req\<rparr>, s)))
     | kExpectHeaders \<Rightarrow>
         (case search_crlf s of
            None \<Rightarrow> Inr (True, ctx, s)
          | Some i \<Rightarrow>
              (case find_char (CHR '':'') (take i s) of
                 Some colon \<Rightarrow>
                   parse_spec t (ctx\<lparr>ctxRequest := addHeader (ctxRequest ctx) (take i s) colon\<rparr>) (drop (i + 2) s)
               | None \<Rightarrow> Inr (True, ctx\<lparr>ctxState := kGotAll\<rparr>, drop (i + 2) s)))
     | _ \<Rightarrow> Inr (True, ctx, s))"
  by pat_completeness auto
termination
  by (relation "measure (\<lambda>(t, ctx, s). length s)") (auto simp: search_crlf_Some)

declare parse_spec.simps [simp del]

definition parsing :: "HttpContext \<Rightarrow> bool" where
  "parsing ctx \<longleftrightarrow> ctxState ctx = kExpectRequestLine \<or> ctxState ctx = kExpectHeaders"

lemma parsing_update [simp]:
  "parsing (ctx\<lparr>ctxRequest := r\<rparr>) = parsing ctx"
  "parsing (ctx\<lparr>ctxRequest := r, ctxState := kExpectHeaders\<rparr>)"
  "\<not> parsing (ctx\<lparr>ctxState := kGotAll\<rparr>)"
  by (simp_all add: parsing_def)

definition parse_rel :: "(bool \<times> HttpContext \<times> Buffer) res option \<Rightarrow> (bool \<times> HttpContext \<times> string) res \<Rightarrow> bool" where
  "parse_rel m n = (case (m, n) of
      (Some (Inl e), Inl e') \<Rightarrow> e = e'
    | (Some (Inr (ok, ctx, b)), Inr (ok', ctx', s)) \<Rightarrow> ok = ok' \<and> ctx = ctx' \<and> binv b \<and> content b = s
    | _ \<Rightarrow> False)"

lemma line_eq:
  assumes "binv b" "search_crlf (content b) = Some i"
  shows "segment (buffer b) (peek b) (peek b + i) = take i (content b)"
  using assms by (intro segment_content) (auto simp: search_crlf_Some)

lemma retrieveUntil_crlf:
  assumes "binv b" "search_crlf (content b) = Some i"
  shows "\<exists>b'. retrieveUntil b (peek b + i + 2) = Inr b' \<and> binv b' \<and> content b' = drop (i + 2) (content b)"
proof -
  have le: "i + 2 \<le> readableBytes b"
    using assms by (auto simp: search_crlf_Some)
  with assms(1) have "peek b + i + 2 \<le> beginWrite b" by (auto simp: buffer_simps)
  with retrieve_ok [OF assms(1) le] show ?thesis
    by (auto simp: retrieveUntil_def okE_iff)
qed

lemma parse_rel_simps [simp]:
  "parse_rel (Some (Inl e)) (Inl e') \<longleftrightarrow> e = e'"
  "parse_rel (Some (Inr (ok, ctx, b))) (Inr (ok', ctx', s)) \<longleftrightarrow>
     ok = ok' \<and> ctx = ctx' \<and> binv b \<and> content b = s"
  by (simp_all add: parse_rel_def)

lemma parseRequest_refines:
  assumes "binv b" "parsing ctx"
  shows "parse_rel (parseRequest t ctx b) (parse_spec t ctx (content b))"
  using assms
proof (induction "length (content b)" arbitrary: b ctx rule: less_induct)
  case less
  note unf = parseRequest.simps [of t ctx b] parse_spec.simps [of t ctx "content b"]
  show ?case
  proof (cases "search_crlf (content b)")
    case None
    with less.prems show ?thesis by (auto simp: unf findCRLF_eq parsing_def)
  next
    case (Some i)
    obtain b' where b': "retrieveUntil b (peek b + i + 2) = Inr b'" "binv b'"
        "content b' = drop (i + 2) (content b)"
      using retrieveUntil_crlf [OF less.prems(1) Some] by blast
    have shorter: "length (content b') < length (content b)"
      using Some b'(3) by (auto simp: search_crlf_Some)
    note IH = less.hyps [OF shorter b'(2), unfolded b'(3)]
    note line = line_eq [OF less.prems(1) Some]
    have crlf: "findCRLF b = Some (peek b + i)" using Some less.prems by (simp add: findCRLF_eq)
    show ?thesis
    proof (cases "ctxState ctx = kExpectRequestLine")
      case True
      show ?thesis
      proof (cases "processRequestLine (ctxRequest ctx) (take i (content b))")
        case (Inl e)
        with True Some crlf line show ?thesis by (simp add: unf)
      next
        case (Inr p)
        with True Some crlf line b' less.prems show ?thesis
          by (cases p; cases "fst p") (simp_all add: unf IH del: add_2_eq_Suc')
      qed
    next
      case False
      with less.prems have "ctxState ctx = kExpectHeaders" by (simp add: parsing_def)
      with Some crlf line b' less.prems show ?thesis
        by (cases "find_char (CHR '':'') (take i (content b))")
          (simp_all add: unf IH Let_def del: add_2_eq_Suc')
    qed
  qed
qed

section \<open>Requests arriving in pieces\<close>

lemma search_crlf_append: "search_crlf s = Some i \<Longrightarrow> search_crlf (s @ s') = Some i"
  by (auto simp: search_crlf_Some)

definition parse_more :: "int \<Rightarrow> string \<Rightarrow> (bool \<times> HttpContext \<times> string) res \<Rightarrow> (bool \<times> HttpContext \<times> string) res" where
  "parse_more t s' m = (case m of
      Inl e \<Rightarrow> Inl e
    | Inr (ok, ctx, r) \<Rightarrow>
        if ok \<and> parsing ctx then parse_spec t ctx (r @ s') else Inr (ok, ctx, r @ s'))"

lemma parse_more_simps [simp]:
  "parse_more t s' (Inl e) = Inl e"
  "parse_more t s' (Inr (False, ctx, r)) = Inr (False, ctx, r @ s')"
  "parsing ctx \<Longrightarrow> parse_more t s' (Inr (True, ctx, r)) = parse_spec t ctx (r @ s')"
  "\<not> parsing ctx \<Longrightarrow> parse_more t s' (Inr (ok, ctx, r)) = Inr (ok, ctx, r @ s')"
  by (simp_all add: parse_more_def)

lemma parse_spec_append:
  assumes "parsing ctx"
  shows "parse_spec t ctx (s @ s') = parse_more t s' (parse_spec t ctx s)"
  using assms
proof (induction "length s" arbitrary: s ctx rule: less_induct)
  case less
  note unf = parse_spec.simps [of t ctx s] parse_spec.simps [of t ctx "s @ s'"]
  show ?case
  proof (cases "search_crlf s")
    case None
    with less.prems show ?thesis
      by (cases "ctxState ctx") (simp_all add: parse_spec.simps [of t ctx s] parsing_def [of ctx])
  next
    case (Some i)
    have i: "i + 2 \<le> length s" using Some by (simp add: search_crlf_Some)
    then have shorter: "length (drop (i + 2) s) < length s" by simp
    note IH = less.hyps [OF shorter]
    note srch = Some search_crlf_append [OF Some]
    have tk: "take i (s @ s') = take i s" "drop (i + 2) (s @ s') = drop (i + 2) s @ s'"
      using i by simp_all
    show ?thesis
    proof (cases "ctxState ctx = kExpectRequestLine")
      case True
      show ?thesis
      proof (cases "processRequestLine (ctxRequest ctx) (take i s)")
        case (Inl e)
        with True srch show ?thesis by (simp add: unf tk del: take_append)
      next
        case (Inr p)
        with True srch show ?thesis
          by (cases p; cases "fst p") (simp_all add: unf IH tk del: add_2_eq_Suc' take_append drop_append)
      qed
    next
      case False
      with less.prems have "ctxState ctx = kExpectHeaders" by (simp add: parsing_def)
      with srch less.prems show ?thesis
        by (cases "find_char (CHR '':'') (take i s)") (simp_all add: unf IH tk del: add_2_eq_Suc' take_append drop_append)
    qed
  qed
qed

section \<open>Printing a request\<close>

definition versionString :: "Version \<Rightarrow> string" where
  "versionString v = (if v = kHttp11 then ''HTTP/1.1'' else ''HTTP/1.0'')"

definition print_header :: "string \<times> string \<Rightarrow> string" where
  "print_header h = fst h @ '': '' @ snd h @ kCRLF"

definition print_request :: "HttpRequest \<Rightarrow> string" where
  "print_request req =
     methodString req @ '' '' @ reqPath req @ reqQuery req @ '' '' @ versionString (reqVersion req) @ kCRLF
       @ concat (map print_header (reqHeaders req)) @ kCRLF"

definition wf_header :: "string \<times> string \<Rightarrow> bool" where
  "wf_header h \<longleftrightarrow> CHR '':'' \<notin> set (fst h) \<and> CHR 0x0D \<notin> set (fst h) \<and> CHR 0x0D \<notin> set (snd h)
     \<and> (snd h \<noteq> [] \<longrightarrow> \<not> isspace (hd (snd h)) \<and> \<not> isspace (last (snd h)))"

definition wf_request :: "HttpRequest \<Rightarrow> bool" where
  "wf_request req \<longleftrightarrow>
     reqMethod req \<noteq> kInvalid \<and> reqVersion req \<noteq> kUnknown
     \<and> CHR '' '' \<notin> set (reqPath req @ reqQuery req) \<and> CHR 0x0D \<notin> set (reqPath req @ reqQuery req)
     \<and> CHR ''?'' \<notin> set (reqPath req)
     \<and> (reqQuery req \<noteq> [] \<longrightarrow> hd (reqQuery req) = CHR ''?'')
     \<and> sorted_map (reqHeaders req) \<and> list_all wf_header (reqHeaders req)"

lemma search_crlf_line:
  "CHR 0x0D \<notin> set line \<Longrightarrow> search_crlf (line @ kCRLF @ rest) = Some (length line)"
proof (induction line)
  case Nil
  then show ?case by (simp add: kCRLF_def)
next
  case (Cons x xs)
  then have "search_crlf (xs @ kCRLF @ rest) = Some (length xs)" by simp
  with Cons.prems show ?case
    by (cases xs) (auto simp: kCRLF_def)
qed

lemma cut_line:
  "take (length line) (line @ kCRLF @ rest) = line"
  "drop (length line + 2) (line @ kCRLF @ rest) = rest"
  by (simp_all add: kCRLF_def)

lemma find_char_first: "c \<notin> set xs \<Longrightarrow> find_char c (xs @ c # ys) = Some (length xs)"
  by (induction xs) auto

lemma trim_id:
  assumes "v \<noteq> [] \<longrightarrow> \<not> isspace (hd v) \<and> \<not> isspace (last v)"
  shows "rev (dropWhile isspace (rev (dropWhile isspace (CHR '' '' # v)))) = v"
proof (cases v)
  case Nil
  then show ?thesis by (simp add: isspace_def)
next
  case (Cons c w)
  then have "dropWhile isspace (CHR '' '' # v) = v" using assms by (simp add: isspace_def)
  moreover have "rev v = last v # rev (butlast v)" using Cons by (metis append_butlast_last_id list.distinct(1) rev.simps(2) rev_rev_ident rev_append append_Cons append_Nil rev_singleton_conv)
  ultimately show ?thesis using assms Cons by simp
qed

lemma addHeader_print:
  assumes "wf_header h"
  shows "addHeader req (fst h @ '': '' @ snd h) (length (fst h))
    = req\<lparr>reqHeaders := map_put (fst h) (snd h) (reqHeaders req)\<rparr>"
  using assms trim_id [of "snd h"] by (simp add: addHeader_def wf_header_def Let_def del: dropWhile.simps)

lemma map_put_last:
  "sorted_map (m @ [(k, v)]) \<Longrightarrow> map_put k v m = m @ [(k, v)]"
  by (induction m) (auto simp: sorted_map_def)

lemma parse_headers:
  assumes "list_all wf_header hs" "sorted_map (reqHeaders (ctxRequest ctx) @ hs)"
    "ctxState ctx = kExpectHeaders"
  shows "parse_spec t ctx (concat (map print_header hs) @ kCRLF @ rest)
    = Inr (True, ctx\<lparr>ctxState := kGotAll,
        ctxRequest := (ctxRequest ctx)\<lparr>reqHeaders := reqHeaders (ctxRequest ctx) @ hs\<rparr>\<rparr>, rest)"
  using assms
proof (induction hs arbitrary: ctx)
  case Nil
  then show ?case
    using search_crlf_line [of "[]" rest] by (simp add: parse_spec.simps [of t ctx] kCRLF_def)
next
  case (Cons h hs)
  let ?line = "fst h @ '': '' @ snd h"
  let ?tail = "concat (map print_header hs) @ kCRLF @ rest"
  let ?ctx = "ctx\<lparr>ctxRequest := (ctxRequest ctx)\<lparr>reqHeaders := reqHeaders (ctxRequest ctx) @ [h]\<rparr>\<rparr>"
  have wf: "wf_header h" using Cons.prems by simp
  have whole: "concat (map print_header (h # hs)) @ kCRLF @ rest = ?line @ kCRLF @ ?tail"
    by (simp add: print_header_def)
  have crlf: "search_crlf (?line @ kCRLF @ ?tail) = Some (length ?line)"
    using wf by (intro search_crlf_line) (auto simp: wf_header_def)
  have colon: "find_char (CHR '':'') ?line = Some (length (fst h))"
    using wf find_char_first [of "CHR '':''" "fst h" "'' '' @ snd h"] by (simp add: wf_header_def)
  have "sorted_map (reqHeaders (ctxRequest ctx) @ [h])"
    using Cons.prems(2) by (auto simp: sorted_map_def sorted_wrt_append)
  then have put: "map_put (fst h) (snd h) (reqHeaders (ctxRequest ctx)) = reqHeaders (ctxRequest ctx) @ [h]"
    using map_put_last [of "reqHeaders (ctxRequest ctx)" "fst h" "snd h"] by simp
  have cut: "take (length ?line) (?line @ kCRLF @ ?tail) = ?line"
    "drop (length ?line + 2) (?line @ kCRLF @ ?tail) = ?tail"
    by (rule cut_line)+
  have "parse_spec t ctx (?line @ kCRLF @ ?tail) = parse_spec t ?ctx ?tail"
    unfolding parse_spec.simps [of t ctx "?line @ kCRLF @ ?tail"] crlf option.case cut colon
    using Cons.prems(3) by (simp only: HttpRequestParseState.case addHeader_print [OF wf] put)
  also have "\<dots> = Inr (True, ctx\<lparr>ctxState := kGotAll,
        ctxRequest := (ctxRequest ctx)\<lparr>reqHeaders := reqHeaders (ctxRequest ctx) @ h # hs\<rparr>\<rparr>, rest)"
    using Cons.prems by (subst Cons.IH) simp_all
  finally show ?case unfolding whole .
qed

lemma setMethod_methodString:
  "reqMethod req \<noteq> kInvalid \<Longrightarrow> reqMethod r0 = kInvalid \<Longrightarrow>
   setMethod r0 (methodString req) = Inr (True, r0\<lparr>reqMethod := reqMethod req\<rparr>)"
  by (cases "reqMethod req") (simp_all add: setMethod_def methodString_def)

lemma methodString_chars: "c \<in> set (methodString req) \<Longrightarrow> c \<noteq> CHR '' '' \<and> c \<noteq> CHR 0x0D"
  by (cases "reqMethod req") (auto simp: methodString_def)

definition request_target :: "HttpRequest \<Rightarrow> HttpRequest \<Rightarrow> HttpRequest" where
  "request_target req r0 = r0\<lparr>reqMethod := reqMethod req, reqPath := reqPath req,
     reqQuery := reqQuery req, reqVersion := reqVersion req\<rparr>"

lemma find_query:
  assumes "wf_request req" "reqQuery r = []"
  shows "(case find_char (CHR ''?'') (reqPath req @ reqQuery req) of
       Some q \<Rightarrow> setQuery (setPath r (take q (reqPath req @ reqQuery req))) (drop q (reqPath req @ reqQuery req))
     | None \<Rightarrow> setPath r (reqPath req @ reqQuery req))
   = r\<lparr>reqPath := reqPath req, reqQuery := reqQuery req\<rparr>"
proof (cases "reqQuery req")
  case Nil
  then have "find_char (CHR ''?'') (reqPath req @ reqQuery req) = None"
    using assms(1) by (simp add: find_char_None wf_request_def)
  with Nil assms(2) show ?thesis by (simp add: setPath_def)
next
  case (Cons c cs)
  then have "find_char (CHR ''?'') (reqPath req @ reqQuery req) = Some (length (reqPath req))"
    using assms(1) find_char_first [of "CHR ''?''" "reqPath req" cs] by (simp add: wf_request_def)
  then show ?thesis by (simp add: setPath_def setQuery_def)
qed

lemma processRequestLine_print:
  assumes "wf_request req" "reqMethod r0 = kInvalid" "reqQuery r0 = []"
  shows "processRequestLine r0
      (methodString req @ '' '' @ reqPath req @ reqQuery req @ '' '' @ versionString (reqVersion req))
    = Inr (True, request_target req r0)"
proof -
  let ?tv = "reqPath req @ reqQuery req @ '' '' @ versionString (reqVersion req)"
  let ?target = "reqPath req @ reqQuery req"
  have sp1: "find_char (CHR '' '') (methodString req @ '' '' @ ?tv) = Some (length (methodString req))"
    using find_char_first [of "CHR '' ''" "methodString req" ?tv] methodString_chars by fastforce
  have cut1: "take (length (methodString req)) (methodString req @ '' '' @ ?tv) = methodString req"
    "drop (length (methodString req) + 1) (methodString req @ '' '' @ ?tv) = ?tv"
    by simp_all
  have sp2: "find_char (CHR '' '') ?tv = Some (length ?target)"
    using assms(1) find_char_first [of "CHR '' ''" ?target "versionString (reqVersion req)"]
    by (simp add: wf_request_def)
  have cut2: "take (length ?target) ?tv = ?target"
    "drop (length ?target + 1) ?tv = versionString (reqVersion req)"
    by simp_all
  note q = find_query [OF assms(1), of "r0\<lparr>reqMethod := reqMethod req\<rparr>"]
  have sm: "setMethod r0 (methodString req) = Inr (True, r0\<lparr>reqMethod := reqMethod req\<rparr>)"
    using assms by (intro setMethod_methodString) (auto simp: wf_request_def)
  have v: "versionString (reqVersion req) = ''HTTP/1.1'' \<and> reqVersion req = kHttp11
      \<or> versionString (reqVersion req) = ''HTTP/1.0'' \<and> reqVersion req = kHttp10"
    using assms(1) by (cases "reqVersion req") (auto simp: versionString_def wf_request_def)
  show ?thesis
    unfolding processRequestLine_def sp1 option.case cut1 sm bindE_simps Let_def sp2 cut2 q
    using v assms(3) q by (auto simp: request_target_def setVersion_def Let_def sp2 cut2)
qed

lemma ctx_mk [simp]: "ctxState mkHttpContext = kExpectRequestLine" "ctxRequest mkHttpContext = mkHttpRequest"
  by (simp_all add: mkHttpContext_def)

lemma parse_print_request:
  assumes "wf_request req"
  shows "parse_spec t mkHttpContext (print_request req @ rest)
    = Inr (True, \<lparr>ctxState = kGotAll, ctxRequest = req\<lparr>reqReceiveTime := t\<rparr>\<rparr>, rest)"
proof -
  let ?line = "methodString req @ '' '' @ reqPath req @ reqQuery req @ '' '' @ versionString (reqVersion req)"
  let ?tail = "concat (map print_header (reqHeaders req)) @ kCRLF @ rest"
  let ?ctx = "\<lparr>ctxState = kExpectHeaders,
      ctxRequest = setReceiveTime (request_target req mkHttpRequest) t\<rparr>"
  have whole: "print_request req @ rest = ?line @ kCRLF @ ?tail"
    by (simp add: print_request_def)
  have "CHR 0x0D \<notin> set ?line"
    using assms methodString_chars [of "CHR 0x0D" req] by (auto simp: wf_request_def versionString_def)
  then have crlf: "search_crlf (?line @ kCRLF @ ?tail) = Some (length ?line)"
    by (rule search_crlf_line)
  have pl: "processRequestLine mkHttpRequest ?line = Inr (True, request_target req mkHttpRequest)"
    by (rule processRequestLine_print [OF assms]) (simp_all add: mkHttpRequest_def)
  have "parse_spec t mkHttpContext (?line @ kCRLF @ ?tail) = parse_spec t ?ctx ?tail"
    unfolding parse_spec.simps [of t mkHttpContext "?line @ kCRLF @ ?tail"] crlf option.case cut_line
      ctx_mk HttpRequestParseState.case pl sum.case prod.case
    by (simp add: mkHttpContext_def)
  also have "\<dots> = Inr (True, \<lparr>ctxState = kGotAll, ctxRequest = req\<lparr>reqReceiveTime := t\<rparr>\<rparr>, rest)"
    using assms
    by (subst parse_headers) (auto simp: wf_request_def setReceiveTime_def request_target_def mkHttpRequest_def)
  finally show ?thesis unfolding whole .
qed

section \<open>The server as a consumer of chunks\<close>

text \<open>
  The bytes of a connection arrive in chunks; each is appended to the input buffer and
  \<^verbatim>\<open>onMessage\<close> runs once.
\<close>

fun serve ::
  "(HttpRequest \<Rightarrow> HttpResponse \<Rightarrow> HttpResponse) \<Rightarrow> int \<Rightarrow> string list \<Rightarrow> HttpContext \<Rightarrow> Buffer
    \<Rightarrow> (conn_action list \<times> HttpContext \<times> Buffer) res option" where
  "serve cb t [] ctx buf = Some (Inr ([], ctx, buf))"
| "serve cb t (chunk # chunks) ctx buf =
    (case append_bytes buf chunk of
       Inl e \<Rightarrow> Some (Inl e)
     | Inr buf \<Rightarrow>
       (case onMessage cb t ctx buf of
          None \<Rightarrow> None
        | Some (Inl e) \<Rightarrow> Some (Inl e)
        | Some (Inr (acts, ctx, buf)) \<Rightarrow>
            (case serve cb t chunks ctx buf of
               None \<Rightarrow> None
             | Some (Inl e) \<Rightarrow> Some (Inl e)
             | Some (Inr (acts', ctx, buf)) \<Rightarrow> Some (Inr (acts @ acts', ctx, buf)))))"

lemma parsing_not_gotAll: "parsing ctx \<Longrightarrow> \<not> gotAll ctx"
  by (auto simp: parsing_def gotAll_def)

lemma parsing_mk [simp]: "parsing mkHttpContext" "resetContext ctx = mkHttpContext"
  by (cases ctx) (simp_all add: parsing_def mkHttpContext_def resetContext_def)

lemma parseRequest_ok:
  assumes "binv b" "parsing ctx" "parse_spec t ctx (content b) = Inr (ok, ctx', r)"
  obtains b' where "parseRequest t ctx b = Some (Inr (ok, ctx', b'))" "binv b'" "content b' = r"
  using parseRequest_refines [OF assms(1,2), of t] assms(3) unfolding parse_rel_def
  by (auto split: option.splits sum.splits prod.splits)

lemma parse_spec_result:
  "parsing ctx \<Longrightarrow> parse_spec t ctx s = Inr (ok, ctx', r) \<Longrightarrow> ok \<Longrightarrow> parsing ctx' \<or> gotAll ctx'"
proof (induction "length s" arbitrary: s ctx rule: less_induct)
  case less
  show ?case
  proof (cases "search_crlf s")
    case None
    with less.prems show ?thesis
      by (auto simp: parse_spec.simps [of t ctx s] parsing_def)
  next
    case (Some i)
    then have shorter: "length (drop (i + 2) s) < length s" by (auto simp: search_crlf_Some)
    have got: "gotAll (ctx\<lparr>ctxState := kGotAll\<rparr>)" by (simp add: gotAll_def)
    from less.prems(1) consider "ctxState ctx = kExpectRequestLine" | "ctxState ctx = kExpectHeaders"
      by (auto simp: parsing_def)
    then show ?thesis
    proof cases
      case 1
      then obtain req where "parse_spec t (ctx\<lparr>ctxRequest := setReceiveTime req t, ctxState := kExpectHeaders\<rparr>)
          (drop (i + 2) s) = Inr (ok, ctx', r)"
        using less.prems Some
        by (auto simp: parse_spec.simps [of t ctx s] split: sum.splits if_splits)
      from less.hyps [OF shorter _ this less.prems(3)] show ?thesis by simp
    next
      case 2
      show ?thesis
      proof (cases "find_char (CHR '':'') (take i s)")
        case None
        with 2 less.prems Some got show ?thesis by (auto simp: parse_spec.simps [of t ctx s])
      next
        case (Some colon)
        with 2 less.prems \<open>search_crlf s = Some i\<close>
        have "parse_spec t (ctx\<lparr>ctxRequest := addHeader (ctxRequest ctx) (take i s) colon\<rparr>)
            (drop (i + 2) s) = Inr (ok, ctx', r)"
          by (simp add: parse_spec.simps [of t ctx s])
        from less.hyps [OF shorter _ this less.prems(3)] less.prems(1) show ?thesis by simp
      qed
    qed
  qed
qed

text \<open>Nothing left to parse: empty chunks after a complete request change nothing.\<close>

lemma serve_nothing:
  assumes "binv b" "content b = []" "concat chunks = []"
  shows "\<exists>b'. serve cb t chunks mkHttpContext b = Some (Inr ([], mkHttpContext, b')) \<and> binv b' \<and> content b' = []"
  using assms
proof (induction chunks arbitrary: b)
  case Nil
  then show ?case by simp
next
  case (Cons c cs)
  obtain b1 where b1: "append_bytes b c = Inr b1" "binv b1" "content b1 = []"
    using append_ok [OF Cons.prems(1), of c] Cons.prems by (auto simp: okE_iff)
  have "parse_spec t mkHttpContext (content b1) = Inr (True, mkHttpContext, [])"
    using b1 by (simp add: parse_spec.simps [of t mkHttpContext "[]"])
  then obtain b2 where b2: "parseRequest t mkHttpContext b1 = Some (Inr (True, mkHttpContext, b2))"
      "binv b2" "content b2 = []"
    using parseRequest_ok [OF b1(2) parsing_mk(1)] by metis
  from Cons.IH [OF b2(2,3)] Cons.prems b1 b2 show ?case
    by (auto simp: onMessage_def parsing_not_gotAll)
qed

lemma serve_chunks:
  assumes "binv b" "parsing ctx"
    and "parse_spec t ctx (content b @ concat chunks) = Inr (True, ctx', [])"
    and "gotAll ctx'" "onRequest cb (ctxRequest ctx') = Inr acts"
    and "parse_spec t ctx (content b) = Inr (True, ctx, content b)"
  shows "\<exists>b'. serve cb t chunks ctx b = Some (Inr (acts, mkHttpContext, b')) \<and> binv b' \<and> content b' = []"
  using assms
proof (induction chunks arbitrary: ctx b)
  case Nil
  then show ?case using parsing_not_gotAll by auto
next
  case (Cons c cs)
  obtain b1 where b1: "append_bytes b c = Inr b1" "binv b1" "content b1 = content b @ c"
    using append_ok [OF Cons.prems(1), of c] by (auto simp: okE_iff)
  have more: "parse_spec t ctx (content b @ concat (c # cs)) = parse_more t (concat cs) (parse_spec t ctx (content b1))"
    using parse_spec_append [OF Cons.prems(2), of t "content b1" "concat cs"] b1(3) by simp
  then obtain ctx1 r where p1: "parse_spec t ctx (content b1) = Inr (True, ctx1, r)"
    using Cons.prems(3) by (auto simp: parse_more_def split: sum.splits prod.splits if_splits)
  obtain b2 where b2: "parseRequest t ctx b1 = Some (Inr (True, ctx1, b2))" "binv b2" "content b2 = r"
    using parseRequest_ok [OF b1(2) Cons.prems(2) p1] by metis
  show ?case
  proof (cases "parsing ctx1")
    case True
    have again: "parse_spec t ctx1 r = Inr (True, ctx1, r)"
      using parse_spec_append [OF Cons.prems(2), of t "content b1" "[]"] p1 True by simp
    have "parse_spec t ctx1 (r @ concat cs) = Inr (True, ctx', [])"
      using more p1 True Cons.prems(3) by simp
    then show ?thesis
      using Cons.IH [of b2 ctx1] b1 b2 True again Cons.prems parsing_not_gotAll [OF True]
      by (auto simp: onMessage_def)
  next
    case False
    with parse_spec_result [OF Cons.prems(2) p1] have "gotAll ctx1" by simp
    have "ctx1 = ctx'" "r = []" "concat cs = []"
      using more p1 False Cons.prems(3) by simp_all
    with serve_nothing [OF b2(2), of cs cb t] b1 b2 \<open>gotAll ctx1\<close> Cons.prems(5) show ?thesis
      by (auto simp: onMessage_def)
  qed
qed

lemma append_list_ok:
  "binv b \<Longrightarrow> okE (append_list b ss) (\<lambda>b'. binv b' \<and> content b' = content b @ concat ss)"
  by (rule bb.append_all_law)

definition print_response :: "HttpResponse \<Rightarrow> string" where
  "print_response resp =
    ''HTTP/1.1 '' @ dec_int (respStatusCode resp) @ '' '' @ respStatusMessage resp @ kCRLF
    @ (if respCloseConnection resp then ''Connection: close'' @ kCRLF
       else ''Content-Length: '' @ dec_nat (length (respBody resp)) @ kCRLF @ ''Connection: Keep-Alive'' @ kCRLF)
    @ concat (map print_header (respHeaders resp)) @ kCRLF @ respBody resp"

lemma concat_header_parts: "concat (header_parts hs) = concat (map print_header hs)"
  by (induction hs) (auto simp: header_parts_def print_header_def)

lemma snprintf_fits: "length s < sz \<Longrightarrow> snprintf sz s = s"
  by (simp add: snprintf_def)

lemma appendToBuffer_ok:
  assumes "binv b" "length (respBody resp) < 10 ^ 13" "\<bar>respStatusCode resp\<bar> < 10 ^ 10"
  shows "okE (appendToBuffer resp b) (\<lambda>b'. binv b' \<and> content b' = content b @ print_response resp)"
proof -
  have code: "length (dec_nat (nat \<bar>respStatusCode resp\<bar>)) \<le> 10"
    using assms(3) by (intro length_dec_nat) (simp_all add: nat_less_iff)
  have "length (''HTTP/1.1 '' @ dec_int (respStatusCode resp) @ '' '') < 32"
    using code by (auto simp: dec_int_def abs_if split: if_splits)
  then have status: "snprintf 32 (''HTTP/1.1 '' @ dec_int (respStatusCode resp) @ '' '')
      = ''HTTP/1.1 '' @ dec_int (respStatusCode resp) @ '' ''"
    by (rule snprintf_fits)
  have "length (dec_nat (length (respBody resp))) \<le> 13"
    using assms(2) by (intro length_dec_nat) simp_all
  then have clen: "snprintf 32 (''Content-Length: '' @ dec_nat (length (respBody resp)) @ kCRLF)
      = ''Content-Length: '' @ dec_nat (length (respBody resp)) @ kCRLF"
    by (intro snprintf_fits) (simp add: kCRLF_def)
  show ?thesis
    unfolding appendToBuffer_def status clen
    apply (rule okE_bind [OF append_list_ok [OF assms(1)]])
    apply (rule okE_bind [where P = "\<lambda>b'. binv b' \<and> content b' = content b @
        ''HTTP/1.1 '' @ dec_int (respStatusCode resp) @ '' '' @ respStatusMessage resp @ kCRLF
        @ (if respCloseConnection resp then ''Connection: close'' @ kCRLF
           else ''Content-Length: '' @ dec_nat (length (respBody resp)) @ kCRLF @ ''Connection: Keep-Alive'' @ kCRLF)"])
     apply (auto simp del: foldE.simps elim!: okE_mono [OF append_list_ok])[1]
    apply (rule okE_bind, rule append_list_ok, blast)
    apply (rule okE_mono, rule append_list_ok, blast)
    apply (auto simp: print_response_def concat_header_parts)
    done
qed

lemma onRequest_ok:
  assumes "resp = cb req (mkHttpResponse (getHeader req ''Connection'' = ''close''
      \<or> (reqVersion req = kHttp10 \<and> getHeader req ''Connection'' \<noteq> ''Keep-Alive'')))"
    and "length (respBody resp) < 10 ^ 13" "\<bar>respStatusCode resp\<bar> < 10 ^ 10"
  shows "onRequest cb req = Inr (Send (print_response resp) # (if respCloseConnection resp then [Shutdown] else []))"
proof -
  obtain b0 where b0: "mkBuffer kInitialSize = Inr b0" "binv b0" "content b0 = []"
    using mkBuffer_ok [of kInitialSize] by (auto simp: okE_iff)
  obtain b1 where b1: "appendToBuffer resp b0 = Inr b1" "binv b1" "content b1 = print_response resp"
    using appendToBuffer_ok [OF b0(2) assms(2,3)] b0(3) by (auto simp: okE_iff)
  obtain b2 where "retrieveAllAsString b1 = Inr (print_response resp, b2)"
    using retrieveAsString_ok [OF b1(2), of "readableBytes b1"] b1 length_content [OF b1(2)]
    by (auto simp: okE_iff retrieveAllAsString_def simp del: length_content)
  with b0(1) b1(1) show ?thesis by (simp add: onRequest_def Let_def assms(1) [symmetric])
qed

lemma parseRequest_stuck:
  assumes "\<not> parsing ctx"
  shows "parseRequest t ctx b = None"
proof -
  have "parsing ctx" if "parseRequest t ctx b = Some r" for r
    using that
    by (rule parseRequest.raw_induct [where P = "\<lambda>_ ctx _ _. parsing ctx", rotated])
      (fastforce simp: parsing_def split: HttpRequestParseState.splits)
  with assms show ?thesis by (cases "parseRequest t ctx b") auto
qed

lemma processRequestLine_again:
  assumes "reqMethod req \<noteq> kInvalid" "CHR '' '' \<in> set line"
  shows "processRequestLine req line = Inl AssertFailed"
  using assms find_char_None [of "CHR '' ''" line]
  by (auto simp: processRequestLine_def setMethod_def)

section \<open>Properties\<close>

text \<open>
  C9: Parsing undoes printing. A well-formed request, printed as HTTP text at the front of the
  input buffer, is parsed back exactly (method, path, query, version, header map and the receive time),
  the parser reports success and \<^verbatim>\<open>gotAll()\<close>, and exactly the bytes of the request are consumed.
\<close>

theorem http_request_round_trip:
  assumes "wf_request req" "binv b" "content b = print_request req @ rest"
  shows "\<exists>b'. parseRequest t mkHttpContext b
      = Some (Inr (True, \<lparr>ctxState = kGotAll, ctxRequest = req\<lparr>reqReceiveTime := t\<rparr>\<rparr>, b'))
    \<and> binv b' \<and> content b' = rest"
proof -
  have "parse_spec t mkHttpContext (content b)
      = Inr (True, \<lparr>ctxState = kGotAll, ctxRequest = req\<lparr>reqReceiveTime := t\<rparr>\<rparr>, rest)"
    using parse_print_request [OF assms(1)] assms(3) by simp
  from parseRequest_ok [OF assms(2) parsing_mk(1) this] show ?thesis by metis
qed

definition sample_request :: HttpRequest where
  "sample_request = \<lparr>reqMethod = kPost, reqVersion = kHttp11, reqPath = ''/index'', reqQuery = ''?q=1'',
     reqReceiveTime = 0, reqHeaders = [(''Accept'', ''text/html''), (''Host'', ''a.b'')]\<rparr>"

lemma wf_sample_request: "wf_request sample_request"
  by code_simp

theorem http_request_round_trip_witness:
  "\<exists>b b'. binv b \<and> parseRequest 42 mkHttpContext b
      = Some (Inr (True, \<lparr>ctxState = kGotAll, ctxRequest = sample_request\<lparr>reqReceiveTime := 42\<rparr>\<rparr>, b'))
    \<and> content b' = ''GET''"
proof -
  obtain b0 where "binv b0" "content b0 = []"
    using mkBuffer_ok [of 16] by (auto simp: okE_iff)
  then obtain b where "binv b" "content b = print_request sample_request @ ''GET''"
    using append_ok [of b0 "print_request sample_request @ ''GET''"] by (auto simp: okE_iff)
  then show ?thesis using http_request_round_trip [OF wf_sample_request] by blast
qed

text \<open>
  C8: The server does not depend on how TCP cuts the stream. Whatever the chunks in which the
  bytes of a well-formed request arrive, \<^verbatim>\<open>onMessage\<close> answers the request exactly once, with the
  response of the callback followed by a shutdown if the response asks for it, and afterwards the context is
  fresh and the input buffer empty.
\<close>

theorem http_server_chunking:
  assumes "wf_request req" "binv b" "content b = []" "concat chunks = print_request req"
    and "resp = cb (req\<lparr>reqReceiveTime := t\<rparr>) (mkHttpResponse (getHeader req ''Connection'' = ''close''
      \<or> (reqVersion req = kHttp10 \<and> getHeader req ''Connection'' \<noteq> ''Keep-Alive'')))"
    and "length (respBody resp) < 10 ^ 13" "\<bar>respStatusCode resp\<bar> < 10 ^ 10"
  shows "\<exists>b'. serve cb t chunks mkHttpContext b
      = Some (Inr (Send (print_response resp) # (if respCloseConnection resp then [Shutdown] else []),
                   mkHttpContext, b'))
    \<and> binv b' \<and> content b' = []"
proof -
  let ?ctx = "\<lparr>ctxState = kGotAll, ctxRequest = req\<lparr>reqReceiveTime := t\<rparr>\<rparr>"
  have "onRequest cb (ctxRequest ?ctx)
      = Inr (Send (print_response resp) # (if respCloseConnection resp then [Shutdown] else []))"
    using assms(5-7) by (intro onRequest_ok) (simp_all add: getHeader_def)
  moreover have "parse_spec t mkHttpContext (content b @ concat chunks) = Inr (True, ?ctx, [])"
    using parse_print_request [OF assms(1), of t "[]"] assms(3,4) by simp
  moreover have "parse_spec t mkHttpContext (content b) = Inr (True, mkHttpContext, content b)"
    using assms(3) by (simp add: parse_spec.simps [of t mkHttpContext "[]"])
  ultimately show ?thesis
    using serve_chunks [OF assms(2) parsing_mk(1), of t chunks ?ctx cb]
    by (simp add: gotAll_def)
qed

theorem http_server_chunking_witness:
  "\<exists>b b'. binv b \<and> serve defaultHttpCallback 7
      [take 3 (print_request sample_request), [], drop 3 (print_request sample_request)] mkHttpContext b
    = Some (Inr ([Send (print_response (defaultHttpCallback sample_request (mkHttpResponse False))), Shutdown],
                 mkHttpContext, b'))"
proof -
  obtain b where b: "binv b" "content b = []"
    using mkBuffer_ok [of 16] by (auto simp: okE_iff)
  have "getHeader sample_request ''Connection'' = []" "reqVersion sample_request = kHttp11"
    by (simp_all add: sample_request_def getHeader_def)
  with http_server_chunking [OF wf_sample_request b,
      of "[take 3 (print_request sample_request), [], drop 3 (print_request sample_request)]"
         "defaultHttpCallback sample_request (mkHttpResponse False)" defaultHttpCallback 7] b(1)
  show ?thesis by (auto simp: defaultHttpCallback_def mkHttpResponse_def)
qed

text \<open>
  C19: \<^verbatim>\<open>parseRequest\<close> returns exactly when it is entered in one of the states
  \<^verbatim>\<open>kExpectRequestLine\<close> and \<^verbatim>\<open>kExpectHeaders\<close>; in \<^verbatim>\<open>kGotAll\<close> and \<^verbatim>\<open>kExpectBody\<close> the loop never ends, so the
  call of \<^verbatim>\<open>reset()\<close> in \<^verbatim>\<open>HttpServer::onMessage\<close> is what keeps the server alive.
\<close>

theorem parseRequest_terminates_iff:
  assumes "binv b"
  shows "(\<exists>r. parseRequest t ctx b = Some r) \<longleftrightarrow>
    ctxState ctx = kExpectRequestLine \<or> ctxState ctx = kExpectHeaders"
  using parseRequest_refines [OF assms, of ctx t] parseRequest_stuck [of ctx t b]
  by (cases "parsing ctx"; cases "parseRequest t ctx b") (auto simp: parsing_def parse_rel_def)

theorem parseRequest_terminates_iff_witness:
  "\<exists>b. mkBuffer 16 = Inr b \<and> (\<exists>r. parseRequest 0 mkHttpContext b = Some r)
     \<and> parseRequest 0 (mkHttpContext\<lparr>ctxState := kGotAll\<rparr>) b = None"
proof -
  obtain b where b: "mkBuffer 16 = Inr b" "binv b"
    using mkBuffer_ok [of 16] by (auto simp: okE_iff)
  then show ?thesis
    using parseRequest_terminates_iff [OF b(2), of 0 mkHttpContext]
      parseRequest_terminates_iff [OF b(2), of 0 "mkHttpContext\<lparr>ctxState := kGotAll\<rparr>"]
    by auto
qed

text \<open>
  C20: A request line with a known method but a bad remainder (for instance a wrong protocol
  version) is answered with 400, but it stays in the buffer and the method stays set; when the peer sends
  anything more, the next \<^verbatim>\<open>onMessage\<close> fails the assertion \<^verbatim>\<open>method_ == kInvalid\<close> in \<^verbatim>\<open>setMethod\<close>.
\<close>

theorem bad_request_then_more_data_asserts:
  assumes "binv b" "content b = line @ kCRLF" "CHR 0x0D \<notin> set line"
    and "processRequestLine mkHttpRequest line = Inr (False, req)" "reqMethod req \<noteq> kInvalid"
  shows "\<exists>b'. onMessage cb t mkHttpContext b
      = Some (Inr ([Send (''HTTP/1.1 400 Bad Request'' @ kCRLF @ kCRLF), Shutdown],
                   mkHttpContext\<lparr>ctxRequest := req\<rparr>, b'))
    \<and> serve cb t [d] (mkHttpContext\<lparr>ctxRequest := req\<rparr>) b' = Some (Inl AssertFailed)"
proof -
  let ?ctx = "mkHttpContext\<lparr>ctxRequest := req\<rparr>"
  have crlf: "search_crlf (line @ kCRLF @ rest) = Some (length line)" for rest
    by (rule search_crlf_line [OF assms(3)])
  have space: "CHR '' '' \<in> set line"
  proof (rule ccontr)
    assume "CHR '' '' \<notin> set line"
    then have "find_char (CHR '' '') line = None" by (simp add: find_char_None)
    with assms(4,5) show False by (auto simp: processRequestLine_def mkHttpRequest_def)
  qed
  have "parse_spec t mkHttpContext (content b) = Inr (False, ?ctx, content b)"
    using crlf [of "[]"] assms(2,4) by (simp add: parse_spec.simps [of t mkHttpContext])
  then obtain b' where b': "parseRequest t mkHttpContext b = Some (Inr (False, ?ctx, b'))"
      "binv b'" "content b' = line @ kCRLF"
    using parseRequest_ok [OF assms(1) parsing_mk(1)] assms(2) by metis
  obtain b2 where b2: "append_bytes b' d = Inr b2" "binv b2" "content b2 = line @ kCRLF @ d"
    using append_ok [OF b'(2), of d] b'(3) by (auto simp: okE_iff)
  have "parse_spec t ?ctx (content b2) = Inl AssertFailed"
    using crlf [of d] assms(5) space b2(3)
    by (simp add: parse_spec.simps [of t ?ctx] processRequestLine_again)
  then have "parseRequest t ?ctx b2 = Some (Inl AssertFailed)"
    using parseRequest_refines [OF b2(2), of ?ctx t]
    by (auto simp: parse_rel_def split: option.splits sum.splits)
  with b' b2 show ?thesis
    by (intro exI [of _ b']) (simp add: onMessage_def gotAll_def)
qed

theorem bad_request_then_more_data_asserts_witness:
  "\<exists>b b' ctx. binv b \<and> content b = ''GET / HTTP/2.0'' @ kCRLF
     \<and> onMessage defaultHttpCallback 0 mkHttpContext b
         = Some (Inr ([Send (''HTTP/1.1 400 Bad Request'' @ kCRLF @ kCRLF), Shutdown], ctx, b'))
     \<and> serve defaultHttpCallback 0 [''x''] ctx b' = Some (Inl AssertFailed)"
proof -
  obtain b0 where "binv b0" "content b0 = []"
    using mkBuffer_ok [of 16] by (auto simp: okE_iff)
  then obtain b where "binv b" "content b = ''GET / HTTP/2.0'' @ kCRLF"
    using append_ok [of b0 "''GET / HTTP/2.0'' @ kCRLF"] by (auto simp: okE_iff)
  moreover have "processRequestLine mkHttpRequest ''GET / HTTP/2.0''
      = Inr (False, mkHttpRequest\<lparr>reqMethod := kGet, reqPath := ''/''\<rparr>)"
    by code_simp
  ultimately show ?thesis
    using bad_request_then_more_data_asserts [of b "''GET / HTTP/2.0''"
        "mkHttpRequest\<lparr>reqMethod := kGet, reqPath := ''/''\<rparr>" defaultHttpCallback 0 "''x''"]
    by auto
qed

text \<open>
  \<^verbatim>\<open>appendToBuffer\<close> appends the status line, the connection and length headers, the header
  map in key order, an empty line and the body; the two \<^verbatim>\<open>snprintf\<close> calls into 32 characters do not cut anything
  for status codes of an \<^verbatim>\<open>int\<close> and bodies below ten terabytes, so the announced length is the length
  of the body.
\<close>

theorem http_response_text:
  assumes "binv b" "length (respBody resp) < 10 ^ 13" "\<bar>respStatusCode resp\<bar> < 10 ^ 10"
  shows "okE (appendToBuffer resp b) (\<lambda>b'. binv b' \<and> content b' = content b @ print_response resp)
    \<and> undec (dec_nat (length (respBody resp))) = length (respBody resp)"
  using assms by (simp add: appendToBuffer_ok undec_dec_nat del: undec.simps)

theorem http_response_text_witness:
  "\<exists>b. mkBuffer 16 = Inr b \<and> okE (appendToBuffer (defaultHttpCallback mkHttpRequest (mkHttpResponse False)) b)
     (\<lambda>b'. content b' = ''HTTP/1.1 404 Not Found'' @ kCRLF @ ''Connection: close'' @ kCRLF @ kCRLF)"
proof -
  obtain b where b: "mkBuffer 16 = Inr b" "binv b" "content b = []"
    using mkBuffer_ok [of 16] by (auto simp: okE_iff)
  have "print_response (defaultHttpCallback mkHttpRequest (mkHttpResponse False))
      = ''HTTP/1.1 404 Not Found'' @ kCRLF @ ''Connection: close'' @ kCRLF @ kCRLF"
    by code_simp
  with b http_response_text [OF b(2), of "defaultHttpCallback mkHttpRequest (mkHttpResponse False)"]
  show ?thesis by (auto simp: defaultHttpCallback_def mkHttpResponse_def elim!: okE_mono)
qed

end
