(* ===== verification/Date.thy ===== *)
theory Date
  imports Prelude
begin

text \<open>
  Calendar dates (\<^verbatim>\<open>muduo/base/Date.h\<close>, \<^verbatim>\<open>Date.cc\<close>): the conversions between year-month-day
  and the Julian day number, compared with the Gregorian calendar given by \<open>days_in_month\<close> and
  \<open>next_day\<close>. The code computes with 32-bit \<^verbatim>\<open>int\<close>s: every addition, subtraction and multiplication
  wraps (\<open>add32\<close>, \<open>sub32\<close>, \<open>mul32\<close>). The same formulas over the integers, \<open>jdn_of\<close> and \<open>ymd_of\<close>, are
  what the calendar lemmas are about; \<open>jdn_exact\<close> and \<open>ymd_exact\<close> show that no operation wraps up to day
  number 536838867, where \<^verbatim>\<open>4 * a + 3\<close> is about to overflow.
\<close>

section \<open>The class\<close>

record YearMonthDay =
  year :: int
  month :: int
  day :: int

text \<open>The operators of \<^verbatim>\<open>int\<close>; a division by a positive constant cannot overflow.\<close>

definition add32 :: "int \<Rightarrow> int \<Rightarrow> int" where
  "add32 x y = to_int32 (x + y)"

definition sub32 :: "int \<Rightarrow> int \<Rightarrow> int" where
  "sub32 x y = to_int32 (x - y)"

definition mul32 :: "int \<Rightarrow> int \<Rightarrow> int" where
  "mul32 x y = to_int32 (x * y)"

definition getJulianDayNumber :: "int \<Rightarrow> int \<Rightarrow> int \<Rightarrow> int" where
  "getJulianDayNumber yr mon d =
    (let a = cdiv (sub32 14 mon) 12;
         y = sub32 (add32 yr 4800) a;
         m = sub32 (add32 mon (mul32 12 a)) 3 in
     sub32 (add32 (sub32 (add32 (add32 (add32 d (cdiv (add32 (mul32 153 m) 2) 5)) (mul32 y 365)) (cdiv y 4))
       (cdiv y 100)) (cdiv y 400)) 32045)"

definition getYearMonthDay :: "int \<Rightarrow> YearMonthDay" where
  "getYearMonthDay julianDayNumber =
    (let a = add32 julianDayNumber 32044;
         b = cdiv (add32 (mul32 4 a) 3) 146097;
         c = sub32 a (cdiv (mul32 b 146097) 4);
         d = cdiv (add32 (mul32 4 c) 3) 1461;
         e = sub32 c (cdiv (mul32 1461 d) 4);
         m = cdiv (add32 (mul32 5 e) 2) 153 in
     \<lparr>year = add32 (sub32 (add32 (mul32 b 100) d) 4800) (cdiv m 10),
      month = sub32 (add32 m 3) (mul32 12 (cdiv m 10)),
      day = add32 (sub32 e (cdiv (add32 (mul32 153 m) 2) 5)) 1\<rparr>)"

definition kJulianDayOf1970_01_01 :: int where
  "kJulianDayOf1970_01_01 = getJulianDayNumber 1970 1 1"

definition kDaysPerWeek :: int where
  "kDaysPerWeek = 7"

text \<open>A \<^verbatim>\<open>Date\<close> object is its Julian day number.\<close>

definition validDate :: "int \<Rightarrow> bool" where
  "validDate julianDayNumber \<longleftrightarrow> julianDayNumber > 0"

definition yearMonthDay :: "int \<Rightarrow> YearMonthDay" where
  "yearMonthDay julianDayNumber = getYearMonthDay julianDayNumber"

definition weekDay :: "int \<Rightarrow> int" where
  "weekDay julianDayNumber = cmod (add32 julianDayNumber 1) kDaysPerWeek"

definition toIsoString :: "int \<Rightarrow> string" where
  "toIsoString julianDayNumber =
    (let ymd = yearMonthDay julianDayNumber in
     snprintf 32 (fmt_blank 4 (year ymd) @ ''-'' @ fmt_zero 2 (month ymd) @ ''-'' @ fmt_zero 2 (day ymd)))"

section \<open>The formulas over the integers\<close>

definition jdn_of :: "int \<Rightarrow> int \<Rightarrow> int \<Rightarrow> int" where
  "jdn_of yr mon d =
    (let a = cdiv (14 - mon) 12;
         y = yr + 4800 - a;
         m = mon + 12 * a - 3 in
     d + cdiv (153 * m + 2) 5 + y * 365 + cdiv y 4 - cdiv y 100 + cdiv y 400 - 32045)"

definition ymd_of :: "int \<Rightarrow> YearMonthDay" where
  "ymd_of j =
    (let a = j + 32044;
         b = cdiv (4 * a + 3) 146097;
         c = a - cdiv (b * 146097) 4;
         d = cdiv (4 * c + 3) 1461;
         e = c - cdiv (1461 * d) 4;
         m = cdiv (5 * e + 2) 153 in
     \<lparr>year = b * 100 + d - 4800 + cdiv m 10,
      month = m + 3 - 12 * cdiv m 10,
      day = e - cdiv (153 * m + 2) 5 + 1\<rparr>)"

section \<open>The Gregorian calendar\<close>

definition leap :: "int \<Rightarrow> bool" where
  "leap y \<longleftrightarrow> 4 dvd y \<and> (\<not> 100 dvd y \<or> 400 dvd y)"

definition days_in_month :: "int \<Rightarrow> int \<Rightarrow> int" where
  "days_in_month y m =
    (if m = 2 then (if leap y then 29 else 28)
     else if m \<in> {4, 6, 9, 11} then 30 else 31)"

definition gregorian :: "int \<Rightarrow> int \<Rightarrow> int \<Rightarrow> bool" where
  "gregorian y m d \<longleftrightarrow> 1 \<le> m \<and> m \<le> 12 \<and> 1 \<le> d \<and> d \<le> days_in_month y m"

definition next_day :: "int \<times> int \<times> int \<Rightarrow> int \<times> int \<times> int" where
  "next_day = (\<lambda>(y, m, d).
     if d < days_in_month y m then (y, m, d + 1)
     else if m < 12 then (y, m + 1, 1)
     else (y + 1, 1, 1))"

text \<open>The dates from 1 March 4801 BC on, where the algorithm counts from.\<close>

definition in_range :: "int \<Rightarrow> int \<Rightarrow> bool" where
  "in_range y m \<longleftrightarrow> - 4800 < y \<or> (y = - 4800 \<and> 3 \<le> m)"

lemma gregorian_next_day:
  "gregorian y m d \<Longrightarrow> next_day (y, m, d) = (y', m', d') \<Longrightarrow> gregorian y' m' d'"
  by (auto simp: gregorian_def next_day_def days_in_month_def split: if_splits)

lemma in_range_next_day:
  "in_range y m \<Longrightarrow> gregorian y m d \<Longrightarrow> next_day (y, m, d) = (y', m', d') \<Longrightarrow> in_range y' m'"
  by (auto simp: in_range_def next_day_def gregorian_def split: if_splits)

lemma month_cases:
  assumes "gregorian y m d"
  obtains "m = 1" | "m = 2" | "m = 3" | "m = 4" | "m = 5" | "m = 6"
    | "m = 7" | "m = 8" | "m = 9" | "m = 10" | "m = 11" | "m = 12"
proof -
  have "1 \<le> m \<Longrightarrow> m \<le> 12 \<Longrightarrow> m = 1 \<or> m = 2 \<or> m = 3 \<or> m = 4 \<or> m = 5 \<or> m = 6
      \<or> m = 7 \<or> m = 8 \<or> m = 9 \<or> m = 10 \<or> m = 11 \<or> m = 12"
    by presburger
  with assms that show thesis by (simp only: gregorian_def) blast
qed

text \<open>The day count with the year starting in March.\<close>

definition year_base :: "int \<Rightarrow> int" where
  "year_base Y = 365 * Y + Y div 4 - Y div 100 + Y div 400 - 32045"

definition march_days :: "int \<Rightarrow> int \<Rightarrow> int \<Rightarrow> int" where
  "march_days Y M d = d + (153 * M + 2) div 5 + year_base Y"

lemma jdn_march:
  assumes "gregorian y m d" "in_range y m"
  shows "jdn_of y m d =
    (if m \<le> 2 then march_days (y + 4800 - 1) (m + 9) d else march_days (y + 4800) (m - 3) d)"
proof -
  have "- 4800 \<le> y" and "m \<le> 2 \<Longrightarrow> - 4799 \<le> y" using assms(2) by (auto simp: in_range_def)
  note low = this
  from assms(1) show ?thesis
    by (cases rule: month_cases) (use low in \<open>simp_all add: jdn_of_def march_days_def year_base_def Let_def\<close>)
qed

lemma div_pred:
  assumes "0 < (n :: int)"
  shows "x div n - (x - 1) div n = (if n dvd x then 1 else 0)"
proof -
  have "x - 1 = (x mod n - 1) + n * (x div n)" by simp
  then have "(x - 1) div n = ((x mod n - 1) + n * (x div n)) div n" by (rule arg_cong)
  also have "\<dots> = x div n + (x mod n - 1) div n" using assms by simp
  finally have *: "(x - 1) div n = x div n + (x mod n - 1) div n" .
  show ?thesis
  proof (cases "x mod n = 0")
    case True
    with * assms show ?thesis by (simp add: dvd_eq_mod_eq_0 div_eq_minus1)
  next
    case False
    then have "0 \<le> x mod n - 1" "x mod n - 1 < n"
      using assms pos_mod_sign [of n x] pos_mod_bound [of n x] by linarith+
    with * False show ?thesis by (simp add: dvd_eq_mod_eq_0)
  qed
qed

lemma leap_shift: "leap (Y - 4800) = leap Y"
proof -
  have "(k::int) dvd Y - 4800 \<longleftrightarrow> k dvd Y" if "k dvd 4800" for k
    using that dvd_diff_left_iff by blast
  then show ?thesis unfolding leap_def by simp
qed

lemma leap_count:
  "(Y div 4 - Y div 100 + Y div 400) - ((Y - 1) div 4 - (Y - 1) div 100 + (Y - 1) div 400)
   = (if leap (Y - 4800) then 1 else 0)"
proof -
  define p q r where "p = Y div 4 - (Y - 1) div 4" and "q = Y div 100 - (Y - 1) div 100"
    and "r = Y div 400 - (Y - 1) div 400"
  have pqr: "p = (if 4 dvd Y then 1 else 0)" "q = (if 100 dvd Y then 1 else 0)"
    "r = (if 400 dvd Y then 1 else 0)"
    unfolding p_def q_def r_def by (rule div_pred; simp)+
  have imp: "100 dvd Y \<Longrightarrow> 4 dvd Y" "400 dvd Y \<Longrightarrow> 100 dvd Y"
    by (rule dvd_trans [of _ 100], simp, assumption) (rule dvd_trans [of _ 400], simp, assumption)
  have "p - q + r = (if leap Y then 1 else 0)"
  proof (cases "400 dvd Y")
    case True
    with pqr imp show ?thesis by (simp add: leap_def)
  next
    case False
    with pqr imp show ?thesis by (cases "100 dvd Y"; cases "4 dvd Y") (simp_all add: leap_def)
  qed
  then show ?thesis unfolding leap_shift p_def q_def r_def by linarith
qed

lemma march_days_Suc: "march_days Y M (d + 1) = march_days Y M d + 1"
  by (simp add: march_days_def)

lemma year_base_step: "year_base Y = year_base (Y - 1) + (if leap (Y - 4800) then 366 else 365)"
proof -
  have "year_base Y = year_base (Y - 1) + (365 + ((Y div 4 - Y div 100 + Y div 400)
      - ((Y - 1) div 4 - (Y - 1) div 100 + (Y - 1) div 400)))"
  proof -
    have "365 * Y + a - b + c - 32045
        = 365 * (Y - 1) + a' - b' + c' - 32045 + (365 + ((a - b + c) - (a' - b' + c')))"
      for a b c a' b' c' :: int
      by simp
    then show ?thesis unfolding year_base_def .
  qed
  then show ?thesis unfolding leap_count by (auto split: if_splits)
qed

lemma march_days_year:
  "march_days Y 0 1 = march_days (Y - 1) 11 (if leap (Y - 4800) then 29 else 28) + 1"
  using year_base_step [of Y] by (simp add: march_days_def)

lemma jdn_next_day:
  assumes "gregorian y m d" "in_range y m" "next_day (y, m, d) = (y', m', d')"
  shows "jdn_of y' m' d' = jdn_of y m d + 1"
proof -
  have g: "gregorian y' m' d'" "in_range y' m'"
    using assms gregorian_next_day in_range_next_day by blast+
  note jdn = jdn_march [OF assms(1,2)] jdn_march [OF g]
  show ?thesis
  proof (cases "d < days_in_month y m")
    case True
    then have "y' = y" "m' = m" "d' = d + 1" using assms(3) by (auto simp: next_day_def)
    then show ?thesis unfolding jdn by (simp add: march_days_Suc)
  next
    case False
    then have d: "d = days_in_month y m" using assms(1) by (simp add: gregorian_def)
    have nx: "y' = (if m = 12 then y + 1 else y)" "m' = (if m = 12 then 1 else m + 1)" "d' = 1"
      using assms(1,3) d by (auto simp: next_day_def gregorian_def split: if_splits)
    from assms(1) show ?thesis
    proof (cases rule: month_cases)
      case 2
      with nx d show ?thesis
        using march_days_year [of "y + 4800"] unfolding jdn by (simp add: days_in_month_def)
    qed (unfold jdn, unfold nx d, simp_all add: days_in_month_def march_days_def add.commute)
  qed
qed

section \<open>From the day number back to the date\<close>

lemma div_unique: "n * q \<le> x \<Longrightarrow> x < n * (q + 1) \<Longrightarrow> (x :: int) div n = q"
  by (rule int_div_pos_eq [where r = "x - n * q"]) (auto simp: distrib_left)

text \<open>Centuries and years within the century: the two divisions by 146097 and 1461.\<close>

lemma year_base_split:
  assumes "0 \<le> D" "D < 100"
  shows "year_base (100 * B + D) + 32045 = (146097 * B) div 4 + (1461 * D) div 4"
proof -
  have h: "(100 * B + D) div 100 = B" using assms by (intro div_unique) auto
  have q: "(100 * B + D) div 4 = 25 * B + D div 4"
    using div_mult_self1 [of 4 D "25 * B"] by (simp add: add.commute)
  have f: "(100 * B + D) div 400 = B div 4"
    using zdiv_zmult2_eq [of 4 "100 * B + D" 100] h by simp
  have c: "(146097 * B) div 4 = 36524 * B + B div 4"
    using div_mult_self1 [of 4 B "36524 * B"] by (simp add: algebra_simps)
  have y: "(1461 * D) div 4 = 365 * D + D div 4"
    using div_mult_self1 [of 4 D "365 * D"] by (simp add: algebra_simps)
  show ?thesis unfolding year_base_def h q f c y by (simp add: algebra_simps)
qed

lemma div4: "(4 * k + 1) * x div 4 * 4 = (4 * k + 1) * x - (x :: int) mod 4"
proof -
  have "(4 * k + 1) * x = x + 4 * (k * x)" by (simp add: algebra_simps)
  then have "((4 * k + 1) * x) mod 4 = x mod 4" by simp
  then show ?thesis by (metis minus_mod_eq_div_mult)
qed

lemma century_div:
  assumes "0 \<le> (c :: int)" "4 * c + 3 < 146097 + B mod 4"
  shows "(4 * ((146097 * B) div 4 + c) + 3) div 146097 = B"
proof -
  define h where "h = (146097 * B) div 4"
  have "4 * h = 146097 * B - B mod 4" using div4 [of 36524 B] by (simp add: h_def)
  moreover have "0 \<le> B mod 4" "B mod 4 < 4" by simp_all
  ultimately have "(4 * (h + c) + 3) div 146097 = B"
    using assms by (intro div_unique) (simp_all add: distrib_left)
  then show ?thesis by (simp add: h_def)
qed

lemma year_div:
  assumes "0 \<le> (e :: int)" "4 * e + 3 < 1461 + D mod 4"
  shows "(4 * ((1461 * D) div 4 + e) + 3) div 1461 = D"
proof -
  define h where "h = (1461 * D) div 4"
  have "4 * h = 1461 * D - D mod 4" using div4 [of 365 D] by (simp add: h_def)
  moreover have "0 \<le> D mod 4" "D mod 4 < 4" by simp_all
  ultimately have "(4 * (h + e) + 3) div 1461 = D"
    using assms by (intro div_unique) (simp_all add: distrib_left)
  then show ?thesis by (simp add: h_def)
qed

text \<open>Day \<open>E\<close> of a March year: 365 only when a leap day ends it.\<close>

lemma decode_march_year:
  assumes "0 \<le> (D :: int)" "D < 100" "0 \<le> E" "E \<le> 365"
    and "E = 365 \<Longrightarrow> D mod 4 = 3 \<and> (D = 99 \<longrightarrow> B mod 4 = 3)"
    and "a = (146097 * B) div 4 + (1461 * D) div 4 + E"
  shows "(4 * a + 3) div 146097 = B"
    and "(4 * (a - (B * 146097) div 4) + 3) div 1461 = D"
    and "a - (B * 146097) div 4 - (1461 * D) div 4 = E"
proof -
  define h where "h = (1461 * D) div 4"
  have h: "4 * h = 1461 * D - D mod 4" using div4 [of 365 D] by (simp add: h_def)
  have m: "0 \<le> B mod 4" "B mod 4 < 4" "0 \<le> D mod 4" "D mod 4 < 4" by simp_all
  have c: "0 \<le> h + E" using h m assms by linarith
  have e: "4 * E + 3 < 1461 + D mod 4"
    using assms(3-5) m by (cases "E = 365") auto
  have "4 * (h + E) + 3 < 146097 + B mod 4"
  proof (cases "D = 99")
    case True
    then show ?thesis using assms(3-5) m h by (cases "E = 365") auto
  next
    case False
    then have "1461 * D \<le> 1461 * 98" using assms(2) by simp
    then have "4 * h \<le> 143178" using h m(3) by simp
    then have "4 * (h + E) + 3 \<le> 144641" using assms(4) by simp
    with m(1) show ?thesis by simp
  qed
  from century_div [OF c this] show "(4 * a + 3) div 146097 = B"
    unfolding assms(6) h_def by (simp only: add.assoc)
  have "a - (B * 146097) div 4 = h + E" unfolding assms(6) h_def by (simp add: mult.commute)
  with year_div [OF assms(3) e] show "(4 * (a - (B * 146097) div 4) + 3) div 1461 = D"
    "a - (B * 146097) div 4 - (1461 * D) div 4 = E"
    by (simp_all add: h_def)
qed

definition march_day :: "int \<Rightarrow> int \<Rightarrow> int" where
  "march_day M d = (153 * M + 2) div 5 + d - 1"

lemma mod4_pred: "(x + 1) mod 4 = 0 \<Longrightarrow> x mod 4 = (3 :: int)"
  by presburger

lemma leap_mod: "leap y \<Longrightarrow> (y + 4800 - 1) mod 100 mod 4 = 3 \<and>
    ((y + 4800 - 1) mod 100 = 99 \<longrightarrow> (y + 4800 - 1) div 100 mod 4 = 3)"
proof -
  assume l: "leap y"
  define Y where "Y = y + 4800 - 1"
  have "leap (Y + 1)" using l leap_shift [of "y + 4800"] by (simp add: Y_def add.commute)
  then have 4: "(Y + 1) mod 4 = 0" and c: "(Y + 1) mod 100 = 0 \<Longrightarrow> (Y + 1) mod 400 = 0"
    by (auto simp: leap_def dvd_eq_mod_eq_0)
  have "Y mod 4 = 3" using 4 by (rule mod4_pred)
  then have "Y mod 100 mod 4 = 3" by (simp add: mod_mod_cancel)
  moreover have "Y div 100 mod 4 = 3" if "Y mod 100 = 99"
  proof -
    have "Y = 100 * (Y div 100) + Y mod 100" by simp
    then have Y1: "Y + 1 = 100 * (Y div 100 + 1)" unfolding that by (simp add: distrib_left)
    have "(Y + 1) mod 100 = 0" unfolding Y1 by (rule mod_mult_self1_is_0)
    from c [OF this] have "(100 * (Y div 100 + 1)) mod (100 * 4) = 0" unfolding Y1 [symmetric] by simp
    then have "(Y div 100 + 1) mod 4 = 0" by (simp only: mod_mult_mult1)
    then show ?thesis by (rule mod4_pred)
  qed
  ultimately show ?thesis by (simp add: Y_def)
qed

definition march_month :: "int \<Rightarrow> int" where
  "march_month m = (if m \<le> 2 then m + 9 else m - 3)"

lemma march_day_bounds:
  assumes "gregorian y m d"
  shows "0 \<le> march_day (march_month m) d \<and> march_day (march_month m) d \<le> 365"
    and "march_day (march_month m) d = 365 \<Longrightarrow> m = 2 \<and> leap y"
    and "153 * march_month m \<le> 5 * march_day (march_month m) d + 2"
    and "5 * march_day (march_month m) d + 2 < 153 * (march_month m + 1)"
proof -
  have d: "1 \<le> d" "d \<le> days_in_month y m" using assms by (simp_all add: gregorian_def)
  from assms have "0 \<le> march_day (march_month m) d \<and> march_day (march_month m) d \<le> 365
      \<and> (march_day (march_month m) d = 365 \<longrightarrow> m = 2 \<and> leap y)
      \<and> 153 * march_month m \<le> 5 * march_day (march_month m) d + 2
      \<and> 5 * march_day (march_month m) d + 2 < 153 * (march_month m + 1)"
    by (cases rule: month_cases)
      (use d in \<open>simp_all add: march_month_def march_day_def days_in_month_def split: if_splits\<close>)
  then show "0 \<le> march_day (march_month m) d \<and> march_day (march_month m) d \<le> 365"
    "march_day (march_month m) d = 365 \<Longrightarrow> m = 2 \<and> leap y"
    "153 * march_month m \<le> 5 * march_day (march_month m) d + 2"
    "5 * march_day (march_month m) d + 2 < 153 * (march_month m + 1)"
    by blast+
qed

lemma march_month_back:
  assumes "gregorian y m d"
  shows "march_month m + 3 - 12 * (march_month m div 10) = m"
    and "march_month m div 10 = (if m \<le> 2 then 1 else 0)" and "0 \<le> march_month m"
  using assms by (cases rule: month_cases, simp_all add: march_month_def)+

lemma ymd_of_jdn:
  assumes "gregorian y m d" "in_range y m"
  shows "ymd_of (jdn_of y m d) = \<lparr>year = y, month = m, day = d\<rparr>"
proof -
  define Y where "Y = (if m \<le> 2 then y + 4800 - 1 else y + 4800)"
  define M where "M = march_month m"
  define B D E where "B = Y div 100" and "D = Y mod 100" and "E = march_day M d"
  define a where "a = jdn_of y m d + 32044"
  note bnd = march_day_bounds [OF assms(1), folded M_def, folded E_def]
  note mon = march_month_back [OF assms(1), folded M_def]
  have Y: "0 \<le> Y" "Y = 100 * B + D" using assms(2) by (auto simp: Y_def B_def D_def in_range_def)
  have D: "0 \<le> D" "D < 100" "0 \<le> B" using Y(1) by (simp_all add: D_def B_def pos_imp_zdiv_nonneg_iff)
  have "a = year_base Y + 32045 + E"
    unfolding a_def jdn_march [OF assms]
    by (simp add: Y_def M_def march_month_def E_def march_day_def march_days_def)
  then have a: "a = (146097 * B) div 4 + (1461 * D) div 4 + E"
    using year_base_split [OF D(1,2), of B] Y(2) by simp
  have leapE: "E = 365 \<Longrightarrow> D mod 4 = 3 \<and> (D = 99 \<longrightarrow> B mod 4 = 3)"
    using bnd(2) leap_mod [of y] by (auto simp: D_def B_def Y_def)
  have E: "0 \<le> E" "E \<le> 365" using bnd(1) by simp_all
  note dec = decode_march_year [OF D(1,2) E leapE a]
  have pos: "0 \<le> a" "0 \<le> a - (B * 146097) div 4"
    using a E D by (simp_all add: mult.commute)
  have m: "(5 * E + 2) div 153 = M" using bnd(3,4) by (rule div_unique)
  have "ymd_of (jdn_of y m d)
      = \<lparr>year = B * 100 + D - 4800 + M div 10, month = M + 3 - 12 * (M div 10), day = E - (153 * M + 2) div 5 + 1\<rparr>"
  proof -
    have b: "cdiv (4 * a + 3) 146097 = B" using pos(1) dec(1) by (subst cdiv_pos) auto
    have c: "cdiv (B * 146097) 4 = (B * 146097) div 4" using D(3) by (intro cdiv_pos) auto
    have d': "cdiv (4 * (a - (B * 146097) div 4) + 3) 1461 = D"
      using pos(2) dec(2) by (subst cdiv_pos) auto
    have e: "cdiv (1461 * D) 4 = (1461 * D) div 4" using D(1) by (intro cdiv_pos) auto
    have m': "cdiv (5 * E + 2) 153 = M" using E m by (subst cdiv_pos) auto
    have n: "cdiv (153 * M + 2) 5 = (153 * M + 2) div 5" "cdiv M 10 = M div 10"
      using mon(3) by (intro cdiv_pos; simp)+
    show ?thesis
      unfolding ymd_of_def Let_def a_def [symmetric] b c d' e
      by (simp only: dec(3) m' n)
  qed
  also have "\<dots> = \<lparr>year = y, month = m, day = d\<rparr>"
    using mon Y by (simp add: Y_def E_def march_day_def split: if_splits)
  finally show ?thesis .
qed

lemma jdn_onto:
  assumes "- 32044 \<le> j"
  shows "\<exists>y m d. gregorian y m d \<and> in_range y m \<and> jdn_of y m d = j"
  using assms
proof (induction j rule: int_ge_induct)
  case base
  have "gregorian (- 4800) 3 1 \<and> in_range (- 4800) 3 \<and> jdn_of (- 4800) 3 1 = - 32044"
    by (simp add: gregorian_def in_range_def days_in_month_def jdn_of_def)
  then show ?case by blast
next
  case (step j)
  then obtain y m d where ymd: "gregorian y m d" "in_range y m" "jdn_of y m d = j" by blast
  obtain y' m' d' where n: "next_day (y, m, d) = (y', m', d')" by (metis prod_cases3)
  have "gregorian y' m' d'" "in_range y' m'" "jdn_of y' m' d' = j + 1"
    using gregorian_next_day [OF ymd(1) n] in_range_next_day [OF ymd(2,1) n] jdn_next_day [OF ymd(1,2) n] ymd(3)
    by simp_all
  then show ?case by blast
qed

lemma jdn_of_ymd:
  assumes "- 32044 \<le> j"
  shows "gregorian (year (ymd_of j)) (month (ymd_of j)) (day (ymd_of j))"
    and "in_range (year (ymd_of j)) (month (ymd_of j))"
    and "jdn_of (year (ymd_of j)) (month (ymd_of j)) (day (ymd_of j)) = j"
  using jdn_onto [OF assms] by (auto simp: ymd_of_jdn)

lemma ymd_next_day:
  assumes "- 32044 \<le> j"
  shows "(year (ymd_of (j + 1)), month (ymd_of (j + 1)), day (ymd_of (j + 1)))
    = next_day (year (ymd_of j), month (ymd_of j), day (ymd_of j))"
proof -
  let ?t = "ymd_of j"
  obtain y' m' d' where n: "next_day (year ?t, month ?t, day ?t) = (y', m', d')" by (metis prod_cases3)
  note j = jdn_of_ymd [OF assms]
  have "jdn_of y' m' d' = j + 1" using jdn_next_day [OF j(1,2) n] j(3) by simp
  then show ?thesis
    using ymd_of_jdn [OF gregorian_next_day [OF j(1) n] in_range_next_day [OF j(2,1) n]] n by simp
qed

section \<open>No overflow\<close>

lemma wrap_id [simp]:
  "- 2147483648 \<le> x + y \<Longrightarrow> x + y < 2147483648 \<Longrightarrow> add32 x y = x + y"
  "- 2147483648 \<le> x - y \<Longrightarrow> x - y < 2147483648 \<Longrightarrow> sub32 x y = x - y"
  "- 2147483648 \<le> x * y \<Longrightarrow> x * y < 2147483648 \<Longrightarrow> mul32 x y = x * y"
  by (simp_all add: add32_def sub32_def mul32_def to_int32_id)

lemma cdiv_bounds:
  assumes "0 \<le> x" "0 < n"
  shows "0 \<le> cdiv x n" "n * cdiv x n \<le> x" "x < n * cdiv x n + n"
proof -
  have c: "cdiv x n = x div n" using assms by simp
  have "n * (x div n) + x mod n = x" "0 \<le> x mod n" "x mod n < n" using assms by simp_all
  then show "n * cdiv x n \<le> x" "x < n * cdiv x n + n" unfolding c by linarith+
  show "0 \<le> cdiv x n" unfolding c using assms by (simp add: pos_imp_zdiv_nonneg_iff)
qed

lemma ymd_exact:
  assumes "- 32044 \<le> j" "j \<le> 536838867"
  shows "getYearMonthDay j = ymd_of j"
proof -
  define a where "a = j + 32044"
  have a: "0 \<le> a" "a \<le> 536870911" using assms by (simp_all add: a_def)
  define b where "b = cdiv (4 * a + 3) 146097"
  have b: "0 \<le> b" "146097 * b \<le> 4 * a + 3" "4 * a + 3 < 146097 * b + 146097"
    unfolding b_def by (rule cdiv_bounds; use a in simp)+
  define q where "q = cdiv (b * 146097) 4"
  have q: "0 \<le> q" "4 * q \<le> b * 146097" "b * 146097 < 4 * q + 4"
    unfolding q_def by (rule cdiv_bounds; use b in simp)+
  define c where "c = a - q"
  have c: "0 \<le> c" "c \<le> 36525" using q a b by (simp_all add: c_def)
  define d where "d = cdiv (4 * c + 3) 1461"
  have d: "0 \<le> d" "1461 * d \<le> 4 * c + 3" "4 * c + 3 < 1461 * d + 1461"
    unfolding d_def by (rule cdiv_bounds; use c in simp)+
  define r where "r = cdiv (1461 * d) 4"
  have r: "0 \<le> r" "4 * r \<le> 1461 * d" "1461 * d < 4 * r + 4"
    unfolding r_def by (rule cdiv_bounds; use d in simp)+
  define e where "e = c - r"
  have e: "0 \<le> e" "e \<le> 366" using r d by (simp_all add: e_def)
  define m where "m = cdiv (5 * e + 2) 153"
  have m: "0 \<le> m" "153 * m \<le> 5 * e + 2" unfolding m_def by (rule cdiv_bounds; use e in simp)+
  define k where "k = cdiv m 10"
  have k: "0 \<le> k" "10 * k \<le> m" unfolding k_def by (rule cdiv_bounds; use m in simp)+
  define f where "f = cdiv (153 * m + 2) 5"
  have f: "0 \<le> f" "5 * f \<le> 153 * m + 2" unfolding f_def by (rule cdiv_bounds; use m in simp)+
  have "ymd_of j = \<lparr>year = b * 100 + d - 4800 + k, month = m + 3 - 12 * k, day = e - f + 1\<rparr>"
    unfolding ymd_of_def Let_def a_def [symmetric] b_def [symmetric] q_def [symmetric] c_def [symmetric] d_def [symmetric]
      r_def [symmetric] e_def [symmetric] m_def [symmetric] k_def [symmetric] f_def [symmetric] ..
  moreover have "getYearMonthDay j = \<lparr>year = b * 100 + d - 4800 + k, month = m + 3 - 12 * k, day = e - f + 1\<rparr>"
  proof -
    have "add32 j 32044 = a" "mul32 4 a = 4 * a" "add32 (4 * a) 3 = 4 * a + 3" using a assms by (simp_all add: a_def)
    note 1 = this
    have "mul32 b 146097 = b * 146097" "sub32 a q = c" "mul32 4 c = 4 * c" "add32 (4 * c) 3 = 4 * c + 3"
      using a b c by (simp_all add: c_def)
    note 2 = this
    have "mul32 1461 d = 1461 * d" "sub32 c r = e" "mul32 5 e = 5 * e" "add32 (5 * e) 2 = 5 * e + 2"
      using c d e by (simp_all add: e_def)
    note 3 = this
    have 4: "mul32 b 100 = b * 100" "add32 (b * 100) d = b * 100 + d" "sub32 (b * 100 + d) 4800 = b * 100 + d - 4800"
      "add32 (b * 100 + d - 4800) k = b * 100 + d - 4800 + k"
      using a b c d e m k by simp_all
    have 5: "add32 m 3 = m + 3" "mul32 12 k = 12 * k" "sub32 (m + 3) (12 * k) = m + 3 - 12 * k"
      "mul32 153 m = 153 * m" "add32 (153 * m) 2 = 153 * m + 2" "sub32 e f = e - f" "add32 (e - f) 1 = e - f + 1"
      using e m k f by simp_all
    show ?thesis
      unfolding getYearMonthDay_def Let_def 1 b_def [symmetric] 2 q_def [symmetric] d_def [symmetric] 3 r_def [symmetric]
        m_def [symmetric] k_def [symmetric] 2 3 4 5 f_def [symmetric] ..
  qed
  ultimately show ?thesis by simp
qed

lemma jdn_exact:
  assumes "gregorian y m d" "in_range y m" "y \<le> 5000000"
  shows "getJulianDayNumber y m d = jdn_of y m d"
proof -
  define a where "a = cdiv (14 - m) 12"
  define Y where "Y = y + 4800 - a"
  define M where "M = m + 12 * a - 3"
  have m: "1 \<le> m" "m \<le> 12" "1 \<le> d" "d \<le> 31"
    using assms(1) by (auto simp: gregorian_def days_in_month_def split: if_splits)
  have a: "0 \<le> a" "12 * a \<le> 14 - m" "14 - m < 12 * a + 12" unfolding a_def by (rule cdiv_bounds; use m in simp)+
  have Y: "0 \<le> Y" "Y \<le> 5004800" using a m assms(2,3) by (auto simp: Y_def in_range_def)
  have M: "0 \<le> M" "M \<le> 11" using a m by (simp_all add: M_def)
  define f where "f = cdiv (153 * M + 2) 5"
  have f: "0 \<le> f" "5 * f \<le> 153 * M + 2" unfolding f_def by (rule cdiv_bounds; use M in simp)+
  define g h k where "g = cdiv Y 4" and "h = cdiv Y 100" and "k = cdiv Y 400"
  have g: "0 \<le> g" "4 * g \<le> Y" unfolding g_def by (rule cdiv_bounds; use Y in simp)+
  have h: "0 \<le> h" "100 * h \<le> Y" unfolding h_def by (rule cdiv_bounds; use Y in simp)+
  have k: "0 \<le> k" "400 * k \<le> Y" unfolding k_def by (rule cdiv_bounds; use Y in simp)+
  have "sub32 14 m = 14 - m" "add32 y 4800 = y + 4800" "mul32 12 a = 12 * a" "add32 m (12 * a) = m + 12 * a"
    "sub32 (y + 4800) a = Y" "sub32 (m + 12 * a) 3 = M" "mul32 153 M = 153 * M" "add32 (153 * M) 2 = 153 * M + 2"
    using m a Y M assms(2,3) by (auto simp: Y_def M_def in_range_def)
  note 1 = this
  have "add32 d f = d + f" "mul32 Y 365 = Y * 365" "add32 (d + f) (Y * 365) = d + f + Y * 365"
    "add32 (d + f + Y * 365) g = d + f + Y * 365 + g" "sub32 (d + f + Y * 365 + g) h = d + f + Y * 365 + g - h"
    "add32 (d + f + Y * 365 + g - h) k = d + f + Y * 365 + g - h + k"
    "sub32 (d + f + Y * 365 + g - h + k) 32045 = d + f + Y * 365 + g - h + k - 32045"
    using m M Y f g h k by simp_all
  note 2 = this
  have "jdn_of y m d = d + f + Y * 365 + g - h + k - 32045"
    unfolding jdn_of_def Let_def a_def [symmetric] Y_def [symmetric] M_def [symmetric] f_def [symmetric] g_def [symmetric]
      h_def [symmetric] k_def [symmetric] ..
  moreover have "getJulianDayNumber y m d = d + f + Y * 365 + g - h + k - 32045"
    unfolding getJulianDayNumber_def Let_def 1 a_def [symmetric] 1 f_def [symmetric] g_def [symmetric] h_def [symmetric]
      k_def [symmetric] 2 ..
  ultimately show ?thesis by simp
qed

text \<open>The years of the day numbers that \<open>ymd_exact\<close> covers, and the day numbers of the years up to 1465000.\<close>

lemma jdn_year:
  assumes "gregorian y m d" "in_range y m"
  shows "365 * y + 1719000 \<le> jdn_of y m d" "4 * jdn_of y m d \<le> 1461 * y + 6887000" "- 32044 \<le> jdn_of y m d"
proof -
  define Y where "Y = (if m \<le> 2 then y + 4800 - 1 else y + 4800)"
  define k where "k = (153 * march_month m + 2) div 5"
  have d: "1 \<le> d" "d \<le> 31" using assms(1) by (auto simp: gregorian_def days_in_month_def split: if_splits)
  have j: "jdn_of y m d = d + k + 365 * Y + Y div 4 - Y div 100 + Y div 400 - 32045"
    unfolding jdn_march [OF assms] by (simp add: march_days_def year_base_def Y_def k_def march_month_def)
  have "0 \<le> march_month m" "march_month m \<le> 11" using assms(1) by (simp_all add: march_month_def gregorian_def)
  then have k: "0 \<le> k" "k \<le> 338" by (simp_all add: k_def pos_imp_zdiv_nonneg_iff div_le_dividend)
  have Y: "0 \<le> Y" "y + 4799 \<le> Y" "Y \<le> y + 4800" using assms(2) by (auto simp: Y_def in_range_def)
  have "Y div 400 = Y div 100 div 4" by (simp add: zdiv_zmult2_eq [symmetric])
  moreover have "0 \<le> Y div 100" using Y(1) by (simp add: pos_imp_zdiv_nonneg_iff)
  ultimately have q: "0 \<le> Y div 400" "Y div 400 \<le> Y div 100" by linarith+
  have "Y div 100 = Y div 4 div 25" by (simp add: zdiv_zmult2_eq [symmetric])
  moreover have "0 \<le> Y div 4" using Y(1) by (simp add: pos_imp_zdiv_nonneg_iff)
  ultimately have r: "Y div 100 \<le> Y div 4" by linarith
  have s: "4 * (Y div 4) \<le> Y" by linarith
  obtain u v w where uvw: "u = Y div 4" "v = Y div 100" "w = Y div 400" by simp
  note b = d k Y q r s
  show "365 * y + 1719000 \<le> jdn_of y m d" "4 * jdn_of y m d \<le> 1461 * y + 6887000" "- 32044 \<le> jdn_of y m d"
    using b unfolding j uvw [symmetric] by (simp_all add: algebra_simps)
qed

lemma year_high:
  assumes "- 32044 \<le> j" "j \<le> 536838867"
  shows "year (ymd_of j) \<le> 1470000"
  using jdn_year(1) [OF jdn_of_ymd(1,2) [OF assms(1)]] jdn_of_ymd(3) [OF assms(1)] assms(2) by simp

lemma day_number_high:
  assumes "gregorian y m d" "in_range y m" "y \<le> 1465000"
  shows "- 32044 \<le> jdn_of y m d" "jdn_of y m d \<le> 536838867"
  using jdn_year(2,3) [OF assms(1,2)] assms(3) by simp_all

lemma weekDay_step:
  assumes "0 \<le> j" "j < 2 ^ 31 - 2"
  shows "weekDay (j + 1) = (weekDay j + 1) mod 7"
  using assms by (simp add: weekDay_def kDaysPerWeek_def mod_simps add.commute)

text \<open>The first day number beyond the range: the product \<^verbatim>\<open>4 * a\<close> is \<open>2 ^ 31\<close>, and the year comes out negative.\<close>

lemma day_number_overflow: "year (getYearMonthDay 536838868) < - 700000"
  by code_simp

section \<open>Properties\<close>

text \<open>
  C21: With 32-bit arithmetic, the Julian day number is a bijection with the Gregorian calendar from 1 March
  4801 BC on: converting a valid date up to the year 1465000 to its day number and back gives the date, and converting a
  day number from -32044 to 536838867 to a date and back gives the number, the date being valid. The upper bound is where
  the code first overflows.
\<close>

theorem julian_day_bijection:
  assumes "gregorian y m d" "in_range y m" "y \<le> 1465000" "- 32044 \<le> j" "j \<le> 536838867"
  shows "getYearMonthDay (getJulianDayNumber y m d) = \<lparr>year = y, month = m, day = d\<rparr>
    \<and> (let t = getYearMonthDay j in
        gregorian (year t) (month t) (day t) \<and> getJulianDayNumber (year t) (month t) (day t) = j)"
proof -
  have "getJulianDayNumber y m d = jdn_of y m d" by (rule jdn_exact) (use assms in auto)
  then have 1: "getYearMonthDay (getJulianDayNumber y m d) = \<lparr>year = y, month = m, day = d\<rparr>"
    using ymd_exact [OF day_number_high [OF assms(1-3)]] ymd_of_jdn [OF assms(1,2)] by simp
  note t = jdn_of_ymd [OF assms(4)]
  have "getJulianDayNumber (year (ymd_of j)) (month (ymd_of j)) (day (ymd_of j)) = j"
    using jdn_exact [OF t(1,2)] year_high [OF assms(4,5)] t(3) by simp
  with 1 t(1) show ?thesis unfolding ymd_exact [OF assms(4,5)] by simp
qed

theorem julian_day_bijection_witness:
  "getYearMonthDay (getJulianDayNumber 2000 2 29) = \<lparr>year = 2000, month = 2, day = 29\<rparr>
    \<and> (let t = getYearMonthDay 2440588 in
        gregorian (year t) (month t) (day t) \<and> getJulianDayNumber (year t) (month t) (day t) = 2440588)"
  by (rule julian_day_bijection) (simp_all add: gregorian_def in_range_def days_in_month_def leap_def)

text \<open>
  The next day in the calendar, over month ends, leap days and year ends, has the next
  Julian day number and the next week day; day 2440588 is Thursday, 1 January 1970.
\<close>

theorem next_day_successor:
  assumes "gregorian y m d" "in_range y m" "y \<le> 1465000" "next_day (y, m, d) = (y', m', d')"
    and "0 \<le> getJulianDayNumber y m d"
  shows "getJulianDayNumber y' m' d' = getJulianDayNumber y m d + 1
    \<and> weekDay (getJulianDayNumber y' m' d') = (weekDay (getJulianDayNumber y m d) + 1) mod 7
    \<and> getYearMonthDay 2440588 = \<lparr>year = 1970, month = 1, day = 1\<rparr> \<and> weekDay 2440588 = 4"
proof -
  have "y' \<le> y + 1" using assms(4) by (auto simp: next_day_def split: if_splits)
  then have e: "getJulianDayNumber y m d = jdn_of y m d" "getJulianDayNumber y' m' d' = jdn_of y' m' d'"
    using jdn_exact [OF assms(1,2)] jdn_exact [OF gregorian_next_day [OF assms(1,4)] in_range_next_day [OF assms(2,1,4)]] assms(3)
    by simp_all
  have "weekDay (jdn_of y m d + 1) = (weekDay (jdn_of y m d) + 1) mod 7"
    by (rule weekDay_step) (use assms(5) e day_number_high [OF assms(1-3)] in simp_all)
  moreover have "getYearMonthDay 2440588 = \<lparr>year = 1970, month = 1, day = 1\<rparr>" "weekDay 2440588 = 4" by code_simp+
  ultimately show ?thesis unfolding e using jdn_next_day [OF assms(1,2,4)] by simp
qed

theorem next_day_successor_witness:
  "getJulianDayNumber 2000 3 1 = getJulianDayNumber 2000 2 29 + 1
    \<and> weekDay (getJulianDayNumber 2000 3 1) = (weekDay (getJulianDayNumber 2000 2 29) + 1) mod 7
    \<and> getYearMonthDay 2440588 = \<lparr>year = 1970, month = 1, day = 1\<rparr> \<and> weekDay 2440588 = 4"
proof (rule next_day_successor)
  show "0 \<le> getJulianDayNumber 2000 2 29" by code_simp
qed (simp_all add: gregorian_def in_range_def days_in_month_def leap_def next_day_def)

end
