(* ===== verification/UtcTime.thy ===== *)
theory UtcTime
  imports Date
begin

text \<open>
  Broken-down UTC time: \<^verbatim>\<open>TimeZone::toUtcTime\<close> and \<^verbatim>\<open>fromUtcTime\<close> of \<^verbatim>\<open>muduo/base/TimeZone.cc\<close>,
  compared with the C library functions \<^verbatim>\<open>gmtime_r\<close> and \<^verbatim>\<open>timegm\<close>, which are given by their documented
  meaning, counting calendar days from 1970-01-01. \<^verbatim>\<open>time_t\<close> is \<^typ>\<open>int\<close>; the two
  narrowing casts of \<^verbatim>\<open>toUtcTime\<close> are \<^const>\<open>to_int32\<close>, and the \<^verbatim>\<open>int\<close> operators wrap.
\<close>

section \<open>Broken-down time\<close>

record tm =
  tm_sec :: int
  tm_min :: int
  tm_hour :: int
  tm_mday :: int
  tm_mon :: int
  tm_year :: int
  tm_wday :: int
  tm_yday :: int
  tm_isdst :: bool
  tm_gmtoff :: int
  tm_zone :: string

definition zero_tm :: tm where
  "zero_tm = \<lparr>tm_sec = 0, tm_min = 0, tm_hour = 0, tm_mday = 0, tm_mon = 0, tm_year = 0,
     tm_wday = 0, tm_yday = 0, tm_isdst = False, tm_gmtoff = 0, tm_zone = []\<rparr>"

definition kSecondsPerDay :: int where
  "kSecondsPerDay = 24 * 60 * 60"

definition fillHMS :: "int \<Rightarrow> tm \<Rightarrow> tm" where
  "fillHMS seconds utc =
    (let minutes = seconds div 60 in
     utc\<lparr>tm_sec := seconds mod 60, tm_min := minutes mod 60, tm_hour := minutes div 60\<rparr>)"

definition toUtcTime :: "int \<Rightarrow> bool \<Rightarrow> tm" where
  "toUtcTime secondsSinceEpoch yday =
    (let utc = zero_tm\<lparr>tm_zone := ''GMT''\<rparr>;
         seconds = to_int32 (cmod secondsSinceEpoch kSecondsPerDay);
         days = to_int32 (cdiv secondsSinceEpoch kSecondsPerDay);
         (seconds, days) = (if seconds < 0 then (add32 seconds kSecondsPerDay, sub32 days 1) else (seconds, days));
         utc = fillHMS seconds utc;
         date = add32 days kJulianDayOf1970_01_01;
         ymd = yearMonthDay date;
         utc = utc\<lparr>tm_year := sub32 (year ymd) 1900, tm_mon := sub32 (month ymd) 1, tm_mday := day ymd,
                   tm_wday := weekDay date\<rparr> in
     if yday then utc\<lparr>tm_yday := sub32 date (getJulianDayNumber (year ymd) 1 1)\<rparr> else utc)"

definition fromUtcTime :: "int \<Rightarrow> int \<Rightarrow> int \<Rightarrow> int \<Rightarrow> int \<Rightarrow> int \<Rightarrow> int" where
  "fromUtcTime yr mon d hour minute seconds =
    (let date = getJulianDayNumber yr mon d;
         secondsInDay = add32 (add32 (mul32 hour 3600) (mul32 minute 60)) seconds;
         days = sub32 date kJulianDayOf1970_01_01 in
     days * kSecondsPerDay + secondsInDay)"

definition fromUtcTime_tm :: "tm \<Rightarrow> int" where
  "fromUtcTime_tm utc = fromUtcTime (add32 (tm_year utc) 1900) (add32 (tm_mon utc) 1) (tm_mday utc)
     (tm_hour utc) (tm_min utc) (tm_sec utc)"

section \<open>The C library\<close>

definition prev_day :: "int \<times> int \<times> int \<Rightarrow> int \<times> int \<times> int" where
  "prev_day = (\<lambda>(y, m, d).
     if d > 1 then (y, m, d - 1)
     else if m > 1 then (y, m - 1, days_in_month y (m - 1))
     else (y - 1, 12, 31))"

definition civil :: "int \<Rightarrow> int \<times> int \<times> int" where
  "civil n = (if 0 \<le> n then (next_day ^^ nat n) (1970, 1, 1) else (prev_day ^^ nat (- n)) (1970, 1, 1))"

definition days_before_month :: "int \<Rightarrow> int \<Rightarrow> int" where
  "days_before_month y m = sum_list (map (\<lambda>k. days_in_month y (int k + 1)) [0..<nat (m - 1)])"

definition leaps_before :: "int \<Rightarrow> int" where
  "leaps_before y = (y - 1) div 4 - (y - 1) div 100 + (y - 1) div 400"

definition civil_days :: "int \<Rightarrow> int \<Rightarrow> int \<Rightarrow> int" where
  "civil_days y m d = 365 * (y - 1970) + (leaps_before y - leaps_before 1970) + days_before_month y m + d - 1"

text \<open>
  \<^verbatim>\<open>gmtime_r\<close> fails and leaves the buffer as it is when the year does not fit an \<^verbatim>\<open>int\<close>; the caller for which that
  can happen, \<^verbatim>\<open>toLocalTime\<close>, has filled the buffer with zeros.
\<close>

definition gmtime_r :: "int \<Rightarrow> tm" where
  "gmtime_r t =
    (let days = t div 86400; s = t mod 86400 in
     case civil days of (y, m, d) \<Rightarrow>
       if y - 1900 < - (2 ^ 31) \<or> 2 ^ 31 \<le> y - 1900 then zero_tm else
       \<lparr>tm_sec = s mod 60, tm_min = s div 60 mod 60, tm_hour = s div 3600, tm_mday = d, tm_mon = m - 1,
        tm_year = y - 1900, tm_wday = (days + 4) mod 7, tm_yday = days_before_month y m + d - 1,
        tm_isdst = False, tm_gmtoff = 0, tm_zone = ''GMT''\<rparr>)"

definition timegm :: "tm \<Rightarrow> int" where
  "timegm t =
    (let y = tm_year t + 1900 + tm_mon t div 12; m = tm_mon t mod 12 + 1 in
     civil_days y m (tm_mday t) * 86400 + tm_hour t * 3600 + tm_min t * 60 + tm_sec t)"

section \<open>UTC conversion\<close>

lemma cdiv_cmod_day:
  fixes t :: int
  assumes "0 < n"
  shows "(if cmod t n < 0 then (cmod t n + n, cdiv t n - 1) else (cmod t n, cdiv t n)) = (t mod n, t div n)"
proof (cases "0 \<le> t")
  case True
  with assms pos_mod_sign [of n t] show ?thesis by (simp add: not_less)
next
  case False
  then have neg: "t < 0" by simp
  show ?thesis
  proof (cases "(- t) mod n = 0")
    case True
    have lt: "t mod n \<noteq> n" using pos_mod_bound [OF assms, of t] by simp
    from True
    have "t mod n = 0" "(- t) div n = - (t div n)"
      using assms lt by (simp_all add: zmod_zminus1_eq_if zdiv_zminus1_eq_if split: if_splits)
    with True neg assms show ?thesis by (simp add: cdiv_neg cmod_neg)
  next
    case False
    then have "t mod n \<noteq> 0" using assms by (simp add: zmod_zminus1_eq_if split: if_splits)
    then have "(- t) mod n = n - t mod n" "(- t) div n = - (t div n) - 1"
      using assms by (simp_all add: zmod_zminus1_eq_if zdiv_zminus1_eq_if)
    with False neg assms pos_mod_bound [OF assms, of t] show ?thesis by (simp add: cdiv_neg cmod_neg)
  qed
qed

text \<open>The seconds of the days 0 to 536838867, for which \<^verbatim>\<open>getYearMonthDay\<close> does not overflow.\<close>

definition utc_range :: "int \<Rightarrow> bool" where
  "utc_range t \<longleftrightarrow> - 2440588 * 86400 \<le> t \<and> t < (536838868 - 2440588) * 86400"

lemma epoch_jdn [simp]: "kJulianDayOf1970_01_01 = 2440588"
  by code_simp

lemma kSecondsPerDay_val: "kSecondsPerDay = 86400"
  by (simp add: kSecondsPerDay_def)

lemma utc_range_casts:
  assumes "utc_range t"
  shows "to_int32 (cmod t 86400) = cmod t 86400" "to_int32 (cdiv t 86400) = cdiv t 86400"
    "0 \<le> t div 86400 + 2440588" "t div 86400 + 2440588 \<le> 536838867"
proof -
  have d: "- 2440588 \<le> t div 86400" "t div 86400 < 536838868 - 2440588"
  proof -
    define q r where "q = t div 86400" and "r = t mod 86400"
    have "t = 86400 * q + r" "0 \<le> r" "r < 86400" by (simp_all add: q_def r_def)
    then have "- 2440588 \<le> q" "q < 536838868 - 2440588" using assms unfolding utc_range_def by auto
    then show "- 2440588 \<le> t div 86400" "t div 86400 < 536838868 - 2440588" by (simp_all add: q_def)
  qed
  have c: "cmod t 86400 = t mod 86400 \<and> cdiv t 86400 = t div 86400
      \<or> cmod t 86400 = t mod 86400 - 86400 \<and> cdiv t 86400 = t div 86400 + 1"
    using cdiv_cmod_day [of 86400 t] by (auto split: if_splits)
  have m: "0 \<le> t mod 86400" "t mod 86400 < 86400" by simp_all
  show "to_int32 (cmod t 86400) = cmod t 86400"
    by (rule to_int32_id) (use c m in auto)
  show "to_int32 (cdiv t 86400) = cdiv t 86400"
    by (rule to_int32_id) (use c d in auto)
  show "0 \<le> t div 86400 + 2440588" "t div 86400 + 2440588 \<le> 536838867" using d by simp_all
qed

lemma prev_next_day: "gregorian y m d \<Longrightarrow> prev_day (next_day (y, m, d)) = (y, m, d)"
proof -
  assume g: "gregorian y m d"
  show ?thesis
  proof (cases "d < days_in_month y m")
    case True
    with g show ?thesis by (simp add: next_day_def prev_day_def gregorian_def)
  next
    case False
    with g have d: "d = days_in_month y m" by (simp add: gregorian_def)
    show ?thesis
    proof (cases "m < 12")
      case True
      with g show ?thesis by (simp add: next_day_def prev_day_def gregorian_def d)
    next
      case False
      with g have "m = 12" by (simp add: gregorian_def)
      with d show ?thesis by (simp add: next_day_def prev_day_def days_in_month_def)
    qed
  qed
qed

definition date_of :: "int \<Rightarrow> int \<times> int \<times> int" where
  "date_of j = (let t = ymd_of j in (year t, month t, day t))"

lemma date_of_Suc: "- 32044 \<le> j \<Longrightarrow> date_of (j + 1) = next_day (date_of j)"
  using ymd_next_day [of j] by (simp add: date_of_def Let_def)

lemma date_of_pred: "- 32044 \<le> j \<Longrightarrow> date_of j = prev_day (date_of (j + 1))"
  using date_of_Suc [of j] jdn_of_ymd(1) [of j] prev_next_day
  by (simp add: date_of_def Let_def)

lemma date_of_epoch: "date_of 2440588 = (1970, 1, 1)"
  by (simp add: date_of_def ymd_of_def)

lemma civil_eq:
  assumes "- 2440588 \<le> n"
  shows "civil n = date_of (n + 2440588)"
proof (cases "0 \<le> n")
  case True
  have "(next_day ^^ k) (1970, 1, 1) = date_of (int k + 2440588)" for k
  proof (induction k)
    case 0
    then show ?case by (simp add: date_of_epoch)
  next
    case (Suc k)
    then show ?case using date_of_Suc [of "int k + 2440588"] by (simp add: add.commute add.left_commute)
  qed
  with True show ?thesis by (simp add: civil_def)
next
  case False
  have "k \<le> 2440588 \<Longrightarrow> (prev_day ^^ k) (1970, 1, 1) = date_of (2440588 - int k)" for k
  proof (induction k)
    case 0
    then show ?case by (simp add: date_of_epoch)
  next
    case (Suc k)
    then show ?case using date_of_pred [of "2440588 - int (Suc k)"] by (simp add: algebra_simps)
  qed
  from this [of "nat (- n)"] False assms show ?thesis by (simp add: civil_def algebra_simps)
qed

lemma days_before_month_table:
  "days_before_month y 1 = 0"
  "1 \<le> m \<Longrightarrow> days_before_month y (m + 1) = days_before_month y m + days_in_month y m"
proof -
  show "days_before_month y 1 = 0" by (simp add: days_before_month_def)
  assume "1 \<le> m"
  then have "nat m = Suc (nat (m - 1))" "int (nat (m - 1)) + 1 = m" by simp_all
  then show "days_before_month y (m + 1) = days_before_month y m + days_in_month y m"
    by (simp add: days_before_month_def)
qed

lemma jdn_yday:
  assumes "gregorian y m d" "- 4800 < y"
  shows "jdn_of y m d = jdn_of y 1 1 + days_before_month y m + d - 1"
proof -
  have r: "in_range y k" for k using assms(2) by (simp add: in_range_def)
  have first: "1 \<le> k \<Longrightarrow> k \<le> 12 \<Longrightarrow> jdn_of y k 1 = jdn_of y 1 1 + days_before_month y k" for k
  proof (induction k rule: int_ge_induct)
    case base
    then show ?case by (simp add: days_before_month_table)
  next
    case (step k)
    define l where "l = days_in_month y k"
    have "1 \<le> l" by (simp add: l_def days_in_month_def)
    then have g: "gregorian y k l" using step by (simp add: gregorian_def l_def)
    have "next_day (y, k, l) = (y, k + 1, 1)" using step by (simp add: next_day_def l_def)
    from jdn_next_day [OF g r this] have "jdn_of y (k + 1) 1 = jdn_of y k l + 1" .
    also have "jdn_of y k l = jdn_of y k 1 + l - 1"
      by (simp add: jdn_of_def Let_def)
    finally show ?case using step by (simp add: days_before_month_table(2) l_def)
  qed
  have "jdn_of y m d = jdn_of y m 1 + d - 1"
    by (simp add: jdn_of_def Let_def)
  with first [of m] assms(1) show ?thesis by (simp add: gregorian_def)
qed

lemma year_low:
  assumes "0 \<le> j"
  shows "- 4800 < year (ymd_of j)"
proof (rule ccontr)
  let ?t = "ymd_of j"
  assume "\<not> - 4800 < year ?t"
  then have "year ?t = - 4800" "month ?t \<ge> 3"
    using jdn_of_ymd(2) [of j] assms by (auto simp: in_range_def)
  moreover have "jdn_of (- 4800) m d < 0" if "gregorian (- 4800) m d" for m d
  proof -
    have "d \<le> 31" using that by (auto simp: gregorian_def days_in_month_def split: if_splits)
    then show ?thesis
      using that by (cases rule: month_cases [OF that]) (simp_all add: jdn_of_def cdiv_def Let_def)
  qed
  ultimately show False using jdn_of_ymd(1,3) [of j] assms by force
qed

text \<open>The date of a time in the range, and that the 32-bit conversions find it.\<close>

lemma utc_date:
  assumes "utc_range t"
  obtains y m d where "civil (t div 86400) = (y, m, d)" "gregorian y m d" "- 4800 < y" "y \<le> 1470000"
    "jdn_of y m d = t div 86400 + 2440588" "getYearMonthDay (t div 86400 + 2440588) = \<lparr>year = y, month = m, day = d\<rparr>"
    "getJulianDayNumber y m d = jdn_of y m d" "getJulianDayNumber y 1 1 = jdn_of y 1 1"
proof -
  define j where "j = t div 86400 + 2440588"
  have j: "0 \<le> j" "j \<le> 536838867" using utc_range_casts(3,4) [OF assms] by (simp_all add: j_def)
  obtain y m d where ymd: "ymd_of j = \<lparr>year = y, month = m, day = d\<rparr>" by (cases "ymd_of j") simp
  have g: "gregorian y m d" "in_range y m" "jdn_of y m d = j" "- 4800 < y" "y \<le> 1470000"
    using jdn_of_ymd [of j] year_low [of j] year_high [of j] j ymd by simp_all
  have "civil (t div 86400) = (y, m, d)"
    using civil_eq [of "t div 86400"] j ymd by (simp add: date_of_def Let_def j_def)
  moreover have "getJulianDayNumber y m d = jdn_of y m d" using jdn_exact [OF g(1,2)] g(5) by simp
  moreover have "getJulianDayNumber y 1 1 = jdn_of y 1 1"
    by (rule jdn_exact) (use g(4,5) in \<open>simp_all add: gregorian_def days_in_month_def in_range_def\<close>)
  moreover have "getYearMonthDay j = \<lparr>year = y, month = m, day = d\<rparr>" using ymd_exact [of j] j ymd by simp
  ultimately show thesis using that g unfolding j_def by blast
qed

lemma yday_bounds:
  assumes "gregorian y m d"
  shows "0 \<le> days_before_month y m" "days_before_month y m + d \<le> 366"
proof -
  have d: "d \<le> days_in_month y m" using assms by (simp add: gregorian_def)
  from assms have "0 \<le> days_before_month y m \<and> days_before_month y m + days_in_month y m \<le> 366"
    by (cases rule: month_cases) (simp_all add: days_before_month_def days_in_month_def upt_rec)
  with d show "0 \<le> days_before_month y m" "days_before_month y m + d \<le> 366" by simp_all
qed

lemma toUtcTime_gmtime:
  assumes "utc_range t"
  shows "toUtcTime t True = gmtime_r t"
proof -
  define D S where "D = t div 86400" and "S = t mod 86400"
  define j where "j = D + 2440588"
  note cast = utc_range_casts [OF assms]
  have j: "0 \<le> j" "j \<le> 536838867" using cast(3,4) by (simp_all add: j_def D_def)
  have c: "cmod t 86400 < 0 \<Longrightarrow> add32 (cmod t 86400) 86400 = cmod t 86400 + 86400"
    "cmod t 86400 < 0 \<Longrightarrow> sub32 (cdiv t 86400) 1 = cdiv t 86400 - 1"
    using cdiv_cmod_day [of 86400 t] j pos_mod_sign [of 86400 t] by (auto simp: j_def D_def)
  have split: "(if cmod t 86400 < 0 then (add32 (cmod t 86400) 86400, sub32 (cdiv t 86400) 1)
      else (cmod t 86400, cdiv t 86400)) = (S, D)"
    using cdiv_cmod_day [of 86400 t] c by (simp add: S_def D_def split: if_splits)
  obtain y m d where ymd: "civil D = (y, m, d)" "gregorian y m d" "- 4800 < y" "y \<le> 1470000" "jdn_of y m d = j"
    "getYearMonthDay j = \<lparr>year = y, month = m, day = d\<rparr>" "getJulianDayNumber y 1 1 = jdn_of y 1 1"
    using utc_date [OF assms] unfolding D_def [symmetric] j_def [symmetric] by blast
  have m: "1 \<le> m" "m \<le> 12" "1 \<le> d" using ymd(2) by (simp_all add: gregorian_def)
  have y: "j - jdn_of y 1 1 = days_before_month y m + d - 1" using jdn_yday [OF ymd(2,3)] ymd(5) by simp
  have yday: "sub32 j (getJulianDayNumber y 1 1) = days_before_month y m + d - 1"
    unfolding ymd(7) using y yday_bounds [OF ymd(2)] m by simp
  have date: "add32 D 2440588 = j" using j by (simp add: j_def)
  have w: "weekDay j = (D + 4) mod 7"
    using j mod_add_right_eq [of D 2440589 7] by (simp add: weekDay_def kDaysPerWeek_def j_def add.commute)
  have f: "sub32 y 1900 = y - 1900" "sub32 m 1 = m - 1" using ymd(3,4) m by simp_all
  have n: "(y - 1900 < - (2 ^ 31) \<or> 2 ^ 31 \<le> y - 1900) = False" using ymd(3,4) by simp
  show ?thesis
    unfolding toUtcTime_def gmtime_r_def Let_def kSecondsPerDay_val cast(1,2) split prod.case
      D_def [symmetric] S_def [symmetric] ymd(1) yearMonthDay_def epoch_jdn date ymd(6) n if_False
    by (simp add: fillHMS_def zero_tm_def Let_def yday w f S_def zdiv_zmult2_eq [symmetric])
qed

lemma hms_split:
  fixes s :: int
  shows "s div 3600 * 3600 + s div 60 mod 60 * 60 + s mod 60 = s"
proof -
  define m where "m = s div 60"
  have "s div 3600 = m div 60" using zdiv_zmult2_eq [of 60 s 60] by (simp add: m_def)
  moreover have "m = 60 * (m div 60) + m mod 60" "s = 60 * m + s mod 60" by (simp_all add: m_def)
  ultimately show ?thesis unfolding m_def [symmetric] by linarith
qed

lemma year_base_shift: "year_base (y + 4800) = year_base y + 1753164"
  using div_mult_self1 [of 4 y 1200] div_mult_self1 [of 100 y 48] div_mult_self1 [of 400 y 12]
  by (simp add: year_base_def)

lemma civil_days_jdn:
  assumes "gregorian y m d" "- 4800 < y"
  shows "civil_days y m d = jdn_of y m d - 2440588"
proof -
  have "gregorian y 1 1" by (simp add: gregorian_def days_in_month_def)
  then have "jdn_of y 1 1 = march_days (y + 4800 - 1) 10 1"
    using jdn_march [of y 1 1] assms(2) by (simp add: in_range_def)
  also have "\<dots> = 307 + year_base (y - 1) + 1753164"
    using year_base_shift [of "y - 1"] by (simp add: march_days_def algebra_simps)
  finally have j1: "jdn_of y 1 1 = 307 + year_base (y - 1) + 1753164" .
  have l: "leaps_before y = year_base (y - 1) + 365 + 32045 - 365 * y" for y
    by (simp add: leaps_before_def year_base_def)
  have "leaps_before 1970 = 477" by (simp add: leaps_before_def)
  then show ?thesis
    unfolding civil_days_def jdn_yday [OF assms] j1 l [of y] by simp
qed

lemma timegm_gmtime:
  assumes "utc_range t"
  shows "timegm (gmtime_r t) = t"
proof -
  define D S where "D = t div 86400" and "S = t mod 86400"
  obtain y m d where ymd: "civil D = (y, m, d)" "gregorian y m d" "- 4800 < y" "y \<le> 1470000" "jdn_of y m d = D + 2440588"
    using utc_date [OF assms] unfolding D_def [symmetric] by blast
  have "(m - 1) div 12 = 0" "(m - 1) mod 12 = m - 1" using ymd(2) by (simp_all add: gregorian_def)
  then have "timegm (gmtime_r t) = D * 86400 + S div 3600 * 3600 + S div 60 mod 60 * 60 + S mod 60"
    using civil_days_jdn [OF ymd(2,3)] ymd(3-5)
    by (simp add: timegm_def gmtime_r_def Let_def D_def [symmetric] S_def [symmetric] ymd(1))
  also have "\<dots> = D * 86400 + S" using hms_split [of S] by linarith
  finally show ?thesis by (simp add: D_def S_def)
qed

lemma fromUtcTime_gmtime:
  assumes "utc_range t"
  shows "fromUtcTime_tm (gmtime_r t) = t"
proof -
  define D S where "D = t div 86400" and "S = t mod 86400"
  have D: "- 2440588 \<le> D" "D \<le> 536838867 - 2440588" using utc_range_casts(3,4) [OF assms] by (simp_all add: D_def)
  have S: "0 \<le> S" "S < 86400" by (simp_all add: S_def)
  obtain y m d where ymd: "civil D = (y, m, d)" "gregorian y m d" "- 4800 < y" "y \<le> 1470000" "jdn_of y m d = D + 2440588"
    "getJulianDayNumber y m d = jdn_of y m d"
    using utc_date [OF assms] unfolding D_def [symmetric] by blast
  have m: "1 \<le> m" "m \<le> 12" using ymd(2) by (simp_all add: gregorian_def)
  have g: "gmtime_r t = \<lparr>tm_sec = S mod 60, tm_min = S div 60 mod 60, tm_hour = S div 3600, tm_mday = d, tm_mon = m - 1,
        tm_year = y - 1900, tm_wday = (D + 4) mod 7, tm_yday = days_before_month y m + d - 1,
        tm_isdst = False, tm_gmtoff = 0, tm_zone = ''GMT''\<rparr>"
    using ymd(1,3,4) by (simp add: gmtime_r_def D_def [symmetric] S_def [symmetric])
  define h i k where "h = S div 3600" and "i = S div 60 mod 60" and "k = S mod 60"
  have hik: "h * 3600 + i * 60 + k = S" using hms_split [of S] by (simp add: h_def i_def k_def)
  have "0 \<le> h" "0 \<le> i" "0 \<le> k" using S by (simp_all add: h_def i_def k_def pos_imp_zdiv_nonneg_iff)
  with hik S have "mul32 h 3600 = h * 3600" "mul32 i 60 = i * 60" "add32 (h * 3600) (i * 60) = h * 3600 + i * 60"
    "add32 (h * 3600 + i * 60) k = S" by simp_all
  note s = this
  have "add32 (y - 1900) 1900 = y" "add32 (m - 1) 1 = m" "sub32 (D + 2440588) 2440588 = D" using ymd(3,4) m D by simp_all
  with ymd(5,6) have "fromUtcTime_tm (gmtime_r t) = D * 86400 + S"
    unfolding g h_def [symmetric] i_def [symmetric] k_def [symmetric]
    by (simp add: fromUtcTime_tm_def fromUtcTime_def Let_def kSecondsPerDay_val s)
  then show ?thesis by (simp add: D_def S_def)
qed

section \<open>Properties\<close>

text \<open>
  C22: With 32-bit arithmetic, \<^verbatim>\<open>toUtcTime\<close> computes the fields of \<^verbatim>\<open>gmtime_r\<close>, seconds before the
  epoch included, and \<^verbatim>\<open>fromUtcTime\<close> inverts it, for all times from day 0 of the Julian count up to day 536838867, the
  last one that \<^verbatim>\<open>getYearMonthDay\<close> converts without overflow (in the year 1465102).
\<close>

theorem toUtcTime_is_gmtime:
  assumes "utc_range t"
  shows "toUtcTime t True = gmtime_r t \<and> fromUtcTime_tm (toUtcTime t True) = t"
  using toUtcTime_gmtime [OF assms] fromUtcTime_gmtime [OF assms] by simp

theorem toUtcTime_is_gmtime_witness:
  "toUtcTime (- 1) True = gmtime_r (- 1) \<and> fromUtcTime_tm (toUtcTime (- 1) True) = - 1"
  by (rule toUtcTime_is_gmtime) (simp add: utc_range_def)

end
