(* ===== verification/TimeZone.thy ===== *)
theory TimeZone
  imports UtcTime Endian
begin

text \<open>
  Time zones (\<^verbatim>\<open>muduo/base/TimeZone.h\<close>, \<^verbatim>\<open>TimeZone.cc\<close>): the zone file reader, the search for the
  transition in force and the conversions between local time and UTC. The file is its list of bytes.
\<close>

section \<open>Zone data\<close>

record Transition =
  gmttime :: int
  localtime :: int
  localtimeIdx :: nat

record Localtime =
  gmtOffset :: int
  isDst :: bool
  arrbIdx :: nat

record Data =
  transitions :: "Transition list"
  localtimes :: "Localtime list"
  zoneNames :: string

definition empty_Data :: Data where
  "empty_Data = \<lparr>transitions = [], localtimes = [], zoneNames = []\<rparr>"

definition Comp_less :: "bool \<Rightarrow> Transition \<Rightarrow> Transition \<Rightarrow> bool" where
  "Comp_less compareGmt lhs rhs =
    (if compareGmt then gmttime lhs < gmttime rhs else localtime lhs < localtime rhs)"

definition Comp_equal :: "bool \<Rightarrow> Transition \<Rightarrow> Transition \<Rightarrow> bool" where
  "Comp_equal compareGmt lhs rhs =
    (if compareGmt then gmttime lhs = gmttime rhs else localtime lhs = localtime rhs)"

text \<open>\<^verbatim>\<open>std::lower_bound\<close>: binary search for the first position where \<open>before\<close> does not hold.\<close>

function lower_bound :: "(nat \<Rightarrow> bool) \<Rightarrow> nat \<Rightarrow> nat \<Rightarrow> nat" where
  "lower_bound before start len =
    (if len = 0 then start
     else let half = len div 2; mid = start + half in
       if before mid then lower_bound before (mid + 1) (len - half - 1)
       else lower_bound before start half)"
  by pat_completeness auto
termination
  by (relation "measure (\<lambda>(before, start, len). len)") auto

declare lower_bound.simps [simp del]

text \<open>\<^verbatim>\<open>operator[]\<close> and \<^verbatim>\<open>front()\<close> outside the vector are errors.\<close>

definition at :: "'a list \<Rightarrow> nat \<Rightarrow> 'a res" where
  "at xs i = (if i < length xs then Inr (xs ! i) else Inl OutOfBounds)"

definition findLocaltime :: "Data \<Rightarrow> Transition \<Rightarrow> bool \<Rightarrow> Localtime res" where
  "findLocaltime data sentry gmt =
    (let ts = transitions data in
     if ts = [] \<or> Comp_less gmt sentry (ts ! 0) then at (localtimes data) 0
     else
       let transI = lower_bound (\<lambda>i. Comp_less gmt (ts ! i) sentry) 0 (length ts) in
       if transI \<noteq> length ts then
         bindE (if \<not> Comp_equal gmt sentry (ts ! transI)
                then bindE (assertE (transI \<noteq> 0)) (\<lambda>_. Inr (transI - 1))
                else Inr transI) (\<lambda>transI.
         at (localtimes data) (localtimeIdx (ts ! transI)))
       else at (localtimes data) (localtimeIdx (last ts)))"

text \<open>A \<^verbatim>\<open>TimeZone\<close> is its data pointer.\<close>

definition valid :: "Data option \<Rightarrow> bool" where
  "valid zone \<longleftrightarrow> zone \<noteq> None"

definition fixedTimeZone :: "int \<Rightarrow> string \<Rightarrow> Data option" where
  "fixedTimeZone eastOfUtc name =
    Some (empty_Data\<lparr>localtimes := [\<lparr>gmtOffset = eastOfUtc, isDst = False, arrbIdx = 0\<rparr>], zoneNames := name\<rparr>)"

definition c_str :: "string \<Rightarrow> string" where
  "c_str s = takeWhile (\<lambda>c. c \<noteq> CHR 0x00) s"

definition toLocalTime :: "Data option \<Rightarrow> int \<Rightarrow> tm res" where
  "toLocalTime zone seconds =
    (case zone of
       None \<Rightarrow> Inl AssertFailed
     | Some data \<Rightarrow>
         bindE (findLocaltime data \<lparr>gmttime = seconds, localtime = 0, localtimeIdx = 0\<rparr> True) (\<lambda>local.
         let localSeconds = seconds + gmtOffset local;
             localTime = (gmtime_r localSeconds)\<lparr>tm_isdst := isDst local, tm_gmtoff := gmtOffset local\<rparr> in
         if arrbIdx local \<le> length (zoneNames data)
         then Inr (localTime\<lparr>tm_zone := c_str (drop (arrbIdx local) (zoneNames data))\<rparr>)
         else Inl OutOfBounds))"

definition fromLocalTime :: "Data option \<Rightarrow> tm \<Rightarrow> int res" where
  "fromLocalTime zone localTm =
    (case zone of
       None \<Rightarrow> Inl AssertFailed
     | Some data \<Rightarrow>
         let seconds = timegm localTm in
         bindE (findLocaltime data \<lparr>gmttime = 0, localtime = seconds, localtimeIdx = 0\<rparr> False) (\<lambda>local.
         bindE (if tm_isdst localTm
                then bindE (toLocalTime zone (seconds - gmtOffset local)) (\<lambda>tryTm.
                       Inr (if \<not> tm_isdst tryTm \<and> tm_hour tryTm = tm_hour localTm
                               \<and> tm_min tryTm = tm_min localTm
                            then seconds - 3600 else seconds))
                else Inr seconds) (\<lambda>seconds.
         Inr (seconds - gmtOffset local))))"

section \<open>Zone files\<close>

text \<open>The file is the rest of its bytes; a short read throws \<^verbatim>\<open>logic_error\<close>.\<close>

definition readBytes :: "int \<Rightarrow> string \<Rightarrow> (string \<times> string) res" where
  "readBytes n f =
    (if n < 0 then Inl OutOfBounds
     else if length f < nat n then Inl (LogicError ''no enough data'')
     else Inr (take (nat n) f, drop (nat n) f))"

definition file_readInt32 :: "bool \<Rightarrow> string \<Rightarrow> (int \<times> string) res" where
  "file_readInt32 little f =
    (if length f < 4 then Inl (LogicError ''bad int32_t data'')
     else Inr (sint (networkToHost32 little (mem_word little (take 4 f))), drop 4 f))"

definition readUInt8 :: "string \<Rightarrow> (nat \<times> string) res" where
  "readUInt8 f =
    (case f of [] \<Rightarrow> Inl (LogicError ''bad uint8_t data'') | c # f' \<Rightarrow> Inr (of_char c, f'))"

text \<open>The reading loops; the loop over the types pushes onto the data as it goes.\<close>

fun read_times :: "bool \<Rightarrow> nat \<Rightarrow> string \<Rightarrow> (int list \<times> string) res" where
  "read_times little 0 f = Inr ([], f)"
| "read_times little (Suc n) f =
     bindE (file_readInt32 little f) (\<lambda>(t, f).
     bindE (read_times little n f) (\<lambda>(ts, f). Inr (t # ts, f)))"

fun read_indices :: "nat \<Rightarrow> string \<Rightarrow> (nat list \<times> string) res" where
  "read_indices 0 f = Inr ([], f)"
| "read_indices (Suc n) f =
     bindE (readUInt8 f) (\<lambda>(i, f).
     bindE (read_indices n f) (\<lambda>(is, f). Inr (i # is, f)))"

fun read_types :: "bool \<Rightarrow> nat \<Rightarrow> string \<Rightarrow> Data \<Rightarrow> Data \<times> string res" where
  "read_types little 0 f data = (data, Inr f)"
| "read_types little (Suc n) f data =
     (case bindE (file_readInt32 little f) (\<lambda>(gmtoff, f).
           bindE (readUInt8 f) (\<lambda>(isdst, f).
           bindE (readUInt8 f) (\<lambda>(abbrind, f).
           Inr (\<lparr>gmtOffset = gmtoff, isDst = (isdst \<noteq> 0), arrbIdx = abbrind\<rparr>, f)))) of
        Inl e \<Rightarrow> (data, Inl e)
      | Inr (l, f) \<Rightarrow> read_types little n f (data\<lparr>localtimes := localtimes data @ [l]\<rparr>))"

fun fill_transitions :: "(int \<times> nat) list \<Rightarrow> Data \<Rightarrow> Data \<times> unit res" where
  "fill_transitions [] data = (data, Inr ())"
| "fill_transitions ((t, localIdx) # rest) data =
     (case at (localtimes data) localIdx of
        Inl e \<Rightarrow> (data, Inl e)
      | Inr l \<Rightarrow> fill_transitions rest (data\<lparr>transitions := transitions data
          @ [\<lparr>gmttime = t, localtime = t + gmtOffset l, localtimeIdx = localIdx\<rparr>]\<rparr>))"

fun read_header :: "bool \<Rightarrow> string \<Rightarrow> ((int \<times> int \<times> int) \<times> string) res" where
  "read_header little f =
     bindE (readBytes 4 f) (\<lambda>(head, f).
     if head \<noteq> ''TZif'' then Inl (LogicError ''bad head'')
     else
       bindE (readBytes 1 f) (\<lambda>(version, f).
       bindE (readBytes 15 f) (\<lambda>(_, f).
       bindE (file_readInt32 little f) (\<lambda>(isgmtcnt, f).
       bindE (file_readInt32 little f) (\<lambda>(isstdcnt, f).
       bindE (file_readInt32 little f) (\<lambda>(leapcnt, f).
       bindE (file_readInt32 little f) (\<lambda>(timecnt, f).
       bindE (file_readInt32 little f) (\<lambda>(typecnt, f).
       bindE (file_readInt32 little f) (\<lambda>(charcnt, f).
       Inr ((timecnt, typecnt, charcnt), f))))))))))"

text \<open>The body of the \<^verbatim>\<open>try\<close> block: the data as far as it got, and how it ended.\<close>

definition read_zone :: "bool \<Rightarrow> string \<Rightarrow> Data \<Rightarrow> Data \<times> unit res" where
  "read_zone little f data =
    (case bindE (read_header little f) (\<lambda>((timecnt, typecnt, charcnt), f).
          bindE (if timecnt < 0 then Inl (LogicError ''vector::reserve'') else Inr ()) (\<lambda>_.
          bindE (read_times little (nat timecnt) f) (\<lambda>(transTimes, f).
          bindE (read_indices (nat timecnt) f) (\<lambda>(idx, f).
          Inr (transTimes, idx, typecnt, charcnt, f))))) of
       Inl e \<Rightarrow> (data, Inl e)
     | Inr (transTimes, idx, typecnt, charcnt, f) \<Rightarrow>
         (case read_types little (nat typecnt) f data of
            (data, Inl e) \<Rightarrow> (data, Inl e)
          | (data, Inr f) \<Rightarrow>
              (case fill_transitions (zip transTimes idx) data of
                 (data, Inl e) \<Rightarrow> (data, Inl e)
               | (data, Inr _) \<Rightarrow>
                   (case readBytes charcnt f of
                      Inl e \<Rightarrow> (data, Inl e)
                    | Inr (abbr, f) \<Rightarrow> (data\<lparr>zoneNames := abbr\<rparr>, Inr ())))))"

definition readTimeZoneFile :: "bool \<Rightarrow> string option \<Rightarrow> Data \<Rightarrow> (bool \<times> Data) res" where
  "readTimeZoneFile little zonefile data =
    (case zonefile of
       None \<Rightarrow> Inr (True, data)
     | Some f \<Rightarrow>
         (case read_zone little f data of
            (data, Inr _) \<Rightarrow> Inr (True, data)
          | (data, Inl (LogicError _)) \<Rightarrow> Inr (True, data)
          | (data, Inl e) \<Rightarrow> Inl e))"

definition mkTimeZone :: "bool \<Rightarrow> string option \<Rightarrow> Data option res" where
  "mkTimeZone little zonefile =
    bindE (readTimeZoneFile little zonefile empty_Data) (\<lambda>(ok, data).
    Inr (if \<not> ok then None else Some data))"

section \<open>The transition in force\<close>

lemma lower_bound_correct:
  assumes "\<And>i j. i \<le> j \<Longrightarrow> j < start + len \<Longrightarrow> before j \<Longrightarrow> before i"
  shows "start \<le> lower_bound before start len \<and> lower_bound before start len \<le> start + len
    \<and> (\<forall>i. start \<le> i \<and> i < lower_bound before start len \<longrightarrow> before i)
    \<and> (\<forall>i. lower_bound before start len \<le> i \<and> i < start + len \<longrightarrow> \<not> before i)"
  using assms
proof (induction len arbitrary: start rule: less_induct)
  case (less len)
  show ?case
  proof (cases "len = 0")
    case True
    then show ?thesis by (auto simp: lower_bound.simps [of before start 0])
  next
    case False
    define half mid where "half = len div 2" and "mid = start + half"
    have half: "half < len" using False by (simp add: half_def)
    show ?thesis
    proof (cases "before mid")
      case True
      let ?r = "lower_bound before (mid + 1) (len - half - 1)"
      have unf: "lower_bound before start len = ?r"
        using False True by (simp add: lower_bound.simps [of before start len] half_def mid_def Let_def)
      have len: "mid + 1 + (len - half - 1) = start + len" using half by (simp add: mid_def)
      have low: "before i" if "i \<le> mid" for i
        using less.prems [of i mid] that True half by (simp add: mid_def)
      have IH: "mid + 1 \<le> ?r" "?r \<le> start + len" "\<And>i. mid + 1 \<le> i \<Longrightarrow> i < ?r \<Longrightarrow> before i"
        "\<And>i. ?r \<le> i \<Longrightarrow> i < start + len \<Longrightarrow> \<not> before i"
        using less.IH [of "len - half - 1" "mid + 1", unfolded len, OF _ less.prems] half False by simp_all
      have "before i" if "i < ?r" for i
        using that low [of i] IH(3) [of i] by (cases "i \<le> mid") auto
      then show ?thesis
        unfolding unf using IH(1,2,4) by (simp add: mid_def)
    next
      case notbefore: False
      let ?r = "lower_bound before start half"
      have unf: "lower_bound before start len = ?r"
        using False notbefore by (simp add: lower_bound.simps [of before start len] half_def mid_def Let_def)
      have high: "\<not> before i" if "mid \<le> i" "i < start + len" for i
        using less.prems [of mid i] that notbefore by auto
      have IH: "start \<le> ?r" "?r \<le> mid" "\<And>i. start \<le> i \<Longrightarrow> i < ?r \<Longrightarrow> before i"
        "\<And>i. ?r \<le> i \<Longrightarrow> i < mid \<Longrightarrow> \<not> before i"
        using less.IH [OF half, of start, OF less.prems] half by (simp_all add: mid_def)
      have "\<not> before i" if "?r \<le> i" "i < start + len" for i
        using that high [of i] IH(4) [of i] by (cases "mid \<le> i") auto
      then show ?thesis
        unfolding unf using IH(1-3) half by (simp add: mid_def)
    qed
  qed
qed

lemma filter_prefix:
  assumes "n \<le> length xs" "\<And>i. i < n \<Longrightarrow> P (xs ! i)" "\<And>i. n \<le> i \<Longrightarrow> i < length xs \<Longrightarrow> \<not> P (xs ! i)"
  shows "filter P xs = take n xs"
proof -
  have "filter P (take n xs) = take n xs"
    using assms(1,2) by (intro filter_True) (auto simp: in_set_conv_nth)
  moreover have "filter P (drop n xs) = []"
    using assms(1,3) by (intro filter_False) (auto simp: in_set_conv_nth)
  ultimately show ?thesis by (metis append_Nil2 append_take_drop_id filter_append)
qed

definition trans_key :: "bool \<Rightarrow> Transition \<Rightarrow> int" where
  "trans_key gmt t = (if gmt then gmttime t else localtime t)"

lemma Comp_key:
  "Comp_less gmt a b \<longleftrightarrow> trans_key gmt a < trans_key gmt b"
  "Comp_equal gmt a b \<longleftrightarrow> trans_key gmt a = trans_key gmt b"
  by (simp_all add: Comp_less_def Comp_equal_def trans_key_def)

text \<open>The transitions that have happened at the time of the sentry.\<close>

definition past :: "Data \<Rightarrow> Transition \<Rightarrow> bool \<Rightarrow> Transition list" where
  "past data sentry gmt = filter (\<lambda>t. trans_key gmt t \<le> trans_key gmt sentry) (transitions data)"

definition keys_sorted :: "bool \<Rightarrow> Data \<Rightarrow> bool" where
  "keys_sorted gmt data \<longleftrightarrow> sorted_wrt (\<lambda>a b. trans_key gmt a < trans_key gmt b) (transitions data)"

lemma findLocaltime_eq:
  assumes "keys_sorted gmt data"
  shows "findLocaltime data sentry gmt =
    at (localtimes data) (if past data sentry gmt = [] then 0 else localtimeIdx (last (past data sentry gmt)))"
proof -
  let ?ts = "transitions data" and ?k = "trans_key gmt"
  have lt: "?k (?ts ! i) < ?k (?ts ! j)" if "i < j" "j < length ?ts" for i j
    using assms that by (simp add: keys_sorted_def sorted_wrt_iff_nth_less)
  define before where "before = (\<lambda>i. Comp_less gmt (?ts ! i) sentry)"
  define p where "p = lower_bound before 0 (length ?ts)"
  have mono: "before j \<Longrightarrow> before i" if "i \<le> j" "j < 0 + length ?ts" for i j
    using that lt [of i j] by (cases "i = j") (auto simp: before_def Comp_key)
  have p: "p \<le> length ?ts" "\<And>i. i < p \<Longrightarrow> before i" "\<And>i. p \<le> i \<Longrightarrow> i < length ?ts \<Longrightarrow> \<not> before i"
    using lower_bound_correct [of 0 "length ?ts" before, OF mono] by (auto simp: p_def)
  define n where "n = (if p < length ?ts \<and> ?k (?ts ! p) = ?k sentry then p + 1 else p)"
  have pastn: "past data sentry gmt = take n ?ts"
    unfolding past_def
  proof (rule filter_prefix)
    show "n \<le> length ?ts" using p(1) by (simp add: n_def)
    show "?k (?ts ! i) \<le> ?k sentry" if "i < n" for i
      using that p(2) [of i] by (cases "i = p") (auto simp: n_def before_def Comp_key split: if_splits)
    show "\<not> ?k (?ts ! i) \<le> ?k sentry" if "n \<le> i" "i < length ?ts" for i
    proof (cases "i = p")
      case True
      with that p(3) [of i] show ?thesis by (auto simp: n_def before_def Comp_key split: if_splits)
    next
      case False
      then have "p < i" using that by (auto simp: n_def split: if_splits)
      with lt [of p i] p(3) [of p] that show ?thesis by (auto simp: before_def Comp_key)
    qed
  qed
  have first: "\<not> Comp_less gmt sentry (?ts ! 0) \<Longrightarrow> ?ts \<noteq> [] \<Longrightarrow> 0 < n"
    using p(3) [of 0] p(1) by (cases "p = 0") (auto simp: n_def before_def Comp_key)
  have none: "Comp_less gmt sentry (?ts ! 0) \<Longrightarrow> n = 0"
    using p(2) [of 0] by (cases "p = 0") (auto simp: n_def before_def Comp_key)
  have lastn: "0 < n \<Longrightarrow> last (take n ?ts) = ?ts ! (n - 1)"
  proof -
    assume "0 < n"
    moreover have "n \<le> length ?ts" using p(1) by (simp add: n_def)
    ultimately have "take n ?ts \<noteq> []" "length (take n ?ts) = n" by auto
    with \<open>0 < n\<close> show ?thesis by (simp add: last_conv_nth)
  qed
  show ?thesis
  proof (cases "?ts = [] \<or> Comp_less gmt sentry (?ts ! 0)")
    case True
    then show ?thesis using none pastn by (auto simp: findLocaltime_def)
  next
    case False
    then have n: "0 < n" "?ts \<noteq> []" using first by auto
    then have "past data sentry gmt \<noteq> []" "last (past data sentry gmt) = ?ts ! (n - 1)"
      using pastn lastn by simp_all
    moreover have "findLocaltime data sentry gmt = at (localtimes data) (localtimeIdx (?ts ! (n - 1)))"
    proof (cases "p = length ?ts")
      case True
      with False n show ?thesis
        unfolding findLocaltime_def Let_def before_def [symmetric] p_def [symmetric]
        by (simp add: n_def last_conv_nth)
    next
      case pn: False
      then have "p < length ?ts" using p(1) by simp
      with False n pn show ?thesis
        unfolding findLocaltime_def Let_def before_def [symmetric] p_def [symmetric]
        by (cases "?k (?ts ! p) = ?k sentry") (simp_all add: n_def Comp_key(2))
    qed
    ultimately show ?thesis by simp
  qed
qed

section \<open>Reading a zone file\<close>

text \<open>The layout of a version 1 zone file, without leap seconds.\<close>

definition put32 :: "int \<Rightarrow> string" where
  "put32 i = be_bytes (word_of_int i :: 32 word)"

definition put_type :: "Localtime \<Rightarrow> string" where
  "put_type l = put32 (gmtOffset l) @ [char_of (if isDst l then 1 else 0 :: nat), char_of (arrbIdx l)]"

definition zone_file :: "string \<Rightarrow> Data \<Rightarrow> string" where
  "zone_file reserved data =
     ''TZif'' @ reserved @ put32 0 @ put32 0 @ put32 0
       @ put32 (int (length (transitions data))) @ put32 (int (length (localtimes data)))
       @ put32 (int (length (zoneNames data)))
       @ concat (map (\<lambda>t. put32 (gmttime t)) (transitions data))
       @ map (\<lambda>t. char_of (localtimeIdx t)) (transitions data)
       @ concat (map put_type (localtimes data)) @ zoneNames data"

definition int32_range :: "int \<Rightarrow> bool" where
  "int32_range i \<longleftrightarrow> - (2 ^ 31) \<le> i \<and> i < 2 ^ 31"

definition wf_zone :: "Data \<Rightarrow> bool" where
  "wf_zone data \<longleftrightarrow>
     length (transitions data) < 2 ^ 31 \<and> length (localtimes data) < 2 ^ 31 \<and> length (zoneNames data) < 2 ^ 31
     \<and> list_all (\<lambda>l. int32_range (gmtOffset l) \<and> arrbIdx l < 256) (localtimes data)
     \<and> list_all (\<lambda>t. int32_range (gmttime t) \<and> localtimeIdx t < 256 \<and> localtimeIdx t < length (localtimes data)
          \<and> localtime t = gmttime t + gmtOffset (localtimes data ! localtimeIdx t)) (transitions data)"

lemma length_put32 [simp]: "length (put32 i) = 4"
  by (simp add: put32_def)

lemma readInt32_put32 [simp]:
  "int32_range i \<Longrightarrow> file_readInt32 little (put32 i @ f) = Inr (i, f)"
  by (simp add: file_readInt32_def put32_def wire_words be_word_be_bytes [where n = 4] int32_range_def
      sint_word_ariths signed_of_int signed_take_bit_int_eq_self)

lemma int32_range_nat [simp]: "n < 2 ^ 31 \<Longrightarrow> int32_range (int n)"
  by (simp add: int32_range_def)

lemma readUInt8_put [simp]: "n < 256 \<Longrightarrow> readUInt8 (char_of n # f) = Inr (n, f)"
  by (simp add: readUInt8_def of_char_of)

lemma read_times_put:
  "list_all int32_range ts \<Longrightarrow> read_times little (length ts) (concat (map put32 ts) @ f) = Inr (ts, f)"
  by (induction ts) simp_all

lemma read_indices_put:
  "list_all (\<lambda>i. i < 256) is \<Longrightarrow> read_indices (length is) (map char_of is @ f) = Inr (is, f)"
  by (induction "is") simp_all

lemma read_types_put:
  "list_all (\<lambda>l. int32_range (gmtOffset l) \<and> arrbIdx l < 256) ls \<Longrightarrow>
   read_types little (length ls) (concat (map put_type ls) @ f) data
     = (data\<lparr>localtimes := localtimes data @ ls\<rparr>, Inr f)"
  by (induction ls arbitrary: data) (simp_all add: put_type_def)

lemma at_nth [simp]: "i < length xs \<Longrightarrow> at xs i = Inr (xs ! i)"
  by (simp add: at_def)

lemma fill_transitions_put:
  assumes "list_all (\<lambda>t. localtimeIdx t < length (localtimes data)
      \<and> localtime t = gmttime t + gmtOffset (localtimes data ! localtimeIdx t)) ts"
  shows "fill_transitions (zip (map gmttime ts) (map localtimeIdx ts)) data
    = (data\<lparr>transitions := transitions data @ ts\<rparr>, Inr ())"
  using assms by (induction ts arbitrary: data) simp_all

lemma read_header_put:
  assumes "length reserved = 16" "int32_range timecnt" "int32_range typecnt" "int32_range charcnt"
  shows "read_header little (''TZif'' @ reserved @ put32 0 @ put32 0 @ put32 0
      @ put32 timecnt @ put32 typecnt @ put32 charcnt @ f) = Inr ((timecnt, typecnt, charcnt), f)"
proof -
  have z: "int32_range 0" by (simp add: int32_range_def)
  obtain v r where r: "reserved = v # r" "length r = 15"
    using assms(1) by (cases reserved) auto
  have h4: "readBytes 4 (''TZif'' @ g) = Inr (''TZif'', g)" for g
    by (simp add: readBytes_def)
  have h1: "readBytes 1 ((v # r) @ g) = Inr ([v], r @ g)" for g
    by (simp add: readBytes_def)
  have h15: "readBytes 15 (r @ g) = Inr (r, g)" for g
    using r(2) by (simp add: readBytes_def)
  show ?thesis
    unfolding read_header.simps r(1)
    by (simp only: h4 h1 h15 bindE_simps prod.case simp_thms if_False readInt32_put32 z assms(2-4))
qed

lemma read_zone_put:
  assumes "wf_zone data" "length reserved = 16"
  shows "read_zone little (zone_file reserved data) empty_Data = (data, Inr ())"
proof -
  let ?ts = "transitions data" and ?ls = "localtimes data"
  let ?f3 = "zoneNames data"
  let ?f2 = "concat (map put_type ?ls) @ ?f3"
  let ?f1 = "map char_of (map localtimeIdx ?ts) @ ?f2"
  let ?f0 = "concat (map put32 (map gmttime ?ts)) @ ?f1"
  have whole: "zone_file reserved data = ''TZif'' @ reserved @ put32 0 @ put32 0 @ put32 0
      @ put32 (int (length ?ts)) @ put32 (int (length ?ls)) @ put32 (int (length ?f3)) @ ?f0"
    by (simp add: zone_file_def comp_def)
  have hdr: "read_header little (zone_file reserved data)
      = Inr ((int (length ?ts), int (length ?ls), int (length ?f3)), ?f0)"
    unfolding whole using assms by (intro read_header_put) (simp_all add: wf_zone_def)
  have times: "read_times little (length ?ts) ?f0 = Inr (map gmttime ?ts, ?f1)"
    using read_times_put [of "map gmttime ?ts" little ?f1] assms(1)
    by (simp add: wf_zone_def list_all_iff)
  have idx: "read_indices (length ?ts) ?f1 = Inr (map localtimeIdx ?ts, ?f2)"
    using read_indices_put [of "map localtimeIdx ?ts" ?f2] assms(1)
    by (simp add: wf_zone_def list_all_iff)
  have types: "read_types little (length ?ls) ?f2 empty_Data = (empty_Data\<lparr>localtimes := ?ls\<rparr>, Inr ?f3)"
    using read_types_put [of ?ls little ?f3 empty_Data] assms(1)
    by (simp add: wf_zone_def empty_Data_def)
  have fill: "fill_transitions (zip (map gmttime ?ts) (map localtimeIdx ?ts)) (empty_Data\<lparr>localtimes := ?ls\<rparr>)
      = (empty_Data\<lparr>localtimes := ?ls, transitions := ?ts\<rparr>, Inr ())"
    using fill_transitions_put [of "empty_Data\<lparr>localtimes := ?ls\<rparr>" ?ts] assms(1)
    by (simp add: wf_zone_def empty_Data_def list_all_iff)
  have names: "readBytes (int (length ?f3)) ?f3 = Inr (?f3, [])"
    by (simp add: readBytes_def)
  show ?thesis
    unfolding read_zone_def hdr bindE_simps prod.case
    using times idx by (simp add: types fill names)
qed

section \<open>Properties\<close>

text \<open>
  C23: \<^verbatim>\<open>toLocalTime\<close> uses the offset of the last transition that has happened at the given
  second, found by binary search in the sorted table, or of the first local time type before the first
  transition; the local time is UTC shifted by that offset.
\<close>

theorem toLocalTime_uses_transition_in_force:
  assumes "keys_sorted True data" "now = \<lparr>gmttime = seconds, localtime = 0, localtimeIdx = 0\<rparr>"
    and "idx = (if past data now True = [] then 0 else localtimeIdx (last (past data now True)))"
    and "idx < length (localtimes data)" "arrbIdx (localtimes data ! idx) \<le> length (zoneNames data)"
  shows "toLocalTime (Some data) seconds =
    Inr ((gmtime_r (seconds + gmtOffset (localtimes data ! idx)))
      \<lparr>tm_isdst := isDst (localtimes data ! idx), tm_gmtoff := gmtOffset (localtimes data ! idx),
       tm_zone := c_str (drop (arrbIdx (localtimes data ! idx)) (zoneNames data))\<rparr>)"
proof -
  have "findLocaltime data now True = Inr (localtimes data ! idx)"
    using findLocaltime_eq [OF assms(1), of now] assms(3,4) by simp
  with assms(2,5) show ?thesis by (simp add: toLocalTime_def Let_def)
qed

definition sample_zone :: Data where
  "sample_zone = \<lparr>transitions = [\<lparr>gmttime = 100, localtime = 3700, localtimeIdx = 1\<rparr>,
       \<lparr>gmttime = 5000, localtime = 5000, localtimeIdx = 0\<rparr>],
     localtimes = [\<lparr>gmtOffset = 0, isDst = False, arrbIdx = 0\<rparr>,
       \<lparr>gmtOffset = 3600, isDst = True, arrbIdx = 4\<rparr>],
     zoneNames = ''GMT'' @ [CHR 0x00] @ ''BST'' @ [CHR 0x00]\<rparr>"

theorem toLocalTime_uses_transition_in_force_witness:
  "toLocalTime (Some sample_zone) 200 =
    Inr ((gmtime_r 3800)\<lparr>tm_isdst := True, tm_gmtoff := 3600, tm_zone := ''BST''\<rparr>)"
proof -
  have p: "past sample_zone \<lparr>gmttime = 200, localtime = 0, localtimeIdx = 0\<rparr> True
      = [\<lparr>gmttime = 100, localtime = 3700, localtimeIdx = 1\<rparr>]"
    by (simp add: past_def sample_zone_def trans_key_def)
  have "keys_sorted True sample_zone"
    by (simp add: keys_sorted_def sample_zone_def trans_key_def)
  from toLocalTime_uses_transition_in_force [OF this refl refl, of 200] show ?thesis
    unfolding p by (simp add: sample_zone_def c_str_def)
qed

text \<open>
  C13: Reading a version 1 zone file gives back the transitions, local time types and
  abbreviations it was written from, on hosts of either byte order.
\<close>

theorem zone_file_round_trip:
  assumes "wf_zone data" "length reserved = 16"
  shows "mkTimeZone little (Some (zone_file reserved data)) = Inr (Some data)"
  using read_zone_put [OF assms] by (simp add: mkTimeZone_def readTimeZoneFile_def)

theorem zone_file_round_trip_witness:
  "mkTimeZone True (Some (zone_file (replicate 16 (CHR 0x00)) sample_zone)) = Inr (Some sample_zone)"
  by (rule zone_file_round_trip) (simp_all add: wf_zone_def sample_zone_def int32_range_def)

text \<open>
  A fixed zone round-trips: converting a second to local time and back gives the second,
  as long as the local time stays in the range of the calendar.
\<close>

theorem fixed_zone_round_trip:
  assumes "utc_range (seconds + east)"
  shows "bindE (toLocalTime (fixedTimeZone east name) seconds) (fromLocalTime (fixedTimeZone east name))
    = Inr seconds"
proof -
  let ?l = "\<lparr>gmtOffset = east, isDst = False, arrbIdx = 0\<rparr>"
  let ?tm = "(gmtime_r (seconds + east))\<lparr>tm_isdst := False, tm_gmtoff := east, tm_zone := c_str name\<rparr>"
  have find: "findLocaltime \<lparr>transitions = [], localtimes = [?l], zoneNames = name\<rparr> s gmt = Inr ?l" for s gmt
    by (simp add: findLocaltime_def Let_def)
  have "toLocalTime (fixedTimeZone east name) seconds = Inr ?tm"
    by (simp add: toLocalTime_def fixedTimeZone_def empty_Data_def find Let_def)
  moreover have "timegm ?tm = seconds + east"
    using timegm_gmtime [OF assms] by (simp add: timegm_def Let_def)
  ultimately show ?thesis
    by (simp add: fromLocalTime_def fixedTimeZone_def empty_Data_def find Let_def)
qed

theorem fixed_zone_round_trip_witness:
  "bindE (toLocalTime (fixedTimeZone 28800 ''CST'') 1000000000) (fromLocalTime (fixedTimeZone 28800 ''CST''))
    = Inr 1000000000"
  by (rule fixed_zone_round_trip) (simp add: utc_range_def)

text \<open>
  C24: \<^verbatim>\<open>readTimeZoneFile\<close> returns true also when the file cannot be opened or has a bad header, so
  the zone reports \<^verbatim>\<open>valid()\<close>; but it has no local time type, and the first conversion reads
  \<^verbatim>\<open>localtimes.front()\<close> of an empty vector.
\<close>

theorem unreadable_zone_is_valid_but_unusable:
  assumes "zonefile = None \<or> (\<exists>f. zonefile = Some f \<and> take 4 f \<noteq> ''TZif'')"
  shows "\<exists>zone. mkTimeZone little zonefile = Inr zone \<and> valid zone
    \<and> toLocalTime zone seconds = Inl OutOfBounds"
proof -
  have "\<exists>e. read_zone little f empty_Data = (empty_Data, Inl (LogicError e))" if "take 4 f \<noteq> ''TZif''" for f
  proof (cases "length f < 4")
    case True
    then show ?thesis by (simp add: read_zone_def readBytes_def)
  next
    case False
    with that show ?thesis by (simp add: read_zone_def readBytes_def)
  qed
  then have "take 4 f \<noteq> ''TZif'' \<Longrightarrow> readTimeZoneFile little (Some f) empty_Data = Inr (True, empty_Data)" for f
    by (fastforce simp: readTimeZoneFile_def)
  moreover have "readTimeZoneFile little None empty_Data = Inr (True, empty_Data)"
    by (simp add: readTimeZoneFile_def)
  ultimately have "mkTimeZone little zonefile = Inr (Some empty_Data)"
    using assms by (auto simp: mkTimeZone_def)
  moreover have "toLocalTime (Some empty_Data) seconds = Inl OutOfBounds"
    by (simp add: toLocalTime_def findLocaltime_def empty_Data_def at_def)
  ultimately show ?thesis by (simp add: valid_def)
qed

theorem unreadable_zone_is_valid_but_unusable_witness:
  "\<exists>zone. mkTimeZone True (Some ''junk'') = Inr zone \<and> valid zone \<and> toLocalTime zone 0 = Inl OutOfBounds"
  by (rule unreadable_zone_is_valid_but_unusable) simp

end
