(* ===== verification/LogStream.thy ===== *)
theory LogStream
  imports Prelude
begin

text \<open>
  The formatting stream of the logger (\<^verbatim>\<open>muduo/base/LogStream.h\<close>, \<^verbatim>\<open>LogStream.cc\<close>): the fixed
  size buffer with its cursor, the integer to text conversions that write into it directly, and the
  insertion operators. Memory outside the array is an error. An \<^verbatim>\<open>int\<close>, \<^verbatim>\<open>long\<close> or their
  unsigned versions is an \<^typ>\<open>int\<close> in the range of the type. The operator for doubles prints with
  \<^verbatim>\<open>%.12g\<close> and is not modelled.
\<close>

section \<open>The fixed buffer\<close>

record FixedBuffer =
  fb_data :: "char list"
  fb_cur :: nat

definition kSmallBuffer :: nat where
  "kSmallBuffer = 4000"

definition kLargeBuffer :: nat where
  "kLargeBuffer = 4000 * 1000"

definition kMaxNumericSize :: nat where
  "kMaxNumericSize = 32"

definition mkFixedBuffer :: "nat \<Rightarrow> FixedBuffer" where
  "mkFixedBuffer SIZE = \<lparr>fb_data = replicate SIZE (CHR 0x00), fb_cur = 0\<rparr>"

definition fb_avail :: "FixedBuffer \<Rightarrow> nat" where
  "fb_avail b = length (fb_data b) - fb_cur b"

definition fb_length :: "FixedBuffer \<Rightarrow> nat" where
  "fb_length b = fb_cur b"

definition fb_append :: "FixedBuffer \<Rightarrow> string \<Rightarrow> FixedBuffer" where
  "fb_append b buf =
    (if fb_avail b > length buf
     then b\<lparr>fb_data := overwrite (fb_data b) (fb_cur b) buf, fb_cur := fb_cur b + length buf\<rparr>
     else b)"

definition fb_add :: "FixedBuffer \<Rightarrow> nat \<Rightarrow> FixedBuffer" where
  "fb_add b len = b\<lparr>fb_cur := fb_cur b + len\<rparr>"

definition fb_reset :: "FixedBuffer \<Rightarrow> FixedBuffer" where
  "fb_reset b = b\<lparr>fb_cur := 0\<rparr>"

definition fb_bzero :: "FixedBuffer \<Rightarrow> FixedBuffer" where
  "fb_bzero b = b\<lparr>fb_data := replicate (length (fb_data b)) (CHR 0x00)\<rparr>"

definition fb_toString :: "FixedBuffer \<Rightarrow> string" where
  "fb_toString b = take (fb_length b) (fb_data b)"

text \<open>A write of \<open>s\<close> at offset \<open>i\<close> of the array.\<close>

definition fb_poke :: "FixedBuffer \<Rightarrow> nat \<Rightarrow> string \<Rightarrow> FixedBuffer res" where
  "fb_poke b i s =
    (if i + length s \<le> length (fb_data b) then Inr (b\<lparr>fb_data := overwrite (fb_data b) i s\<rparr>)
     else Inl OutOfBounds)"

definition fb_debugString :: "FixedBuffer \<Rightarrow> (string \<times> FixedBuffer) res" where
  "fb_debugString b =
    bindE (fb_poke b (fb_cur b) [CHR 0x00]) (\<lambda>b.
    Inr (takeWhile (\<lambda>c. c \<noteq> CHR 0x00) (fb_data b), b))"

section \<open>Integer to text\<close>

definition digits :: string where
  "digits = ''9876543210123456789''"

text \<open>\<^verbatim>\<open>zero[lsd]\<close>, where \<^verbatim>\<open>zero\<close> points at the middle of \<open>digits\<close>.\<close>

definition zero_at :: "int \<Rightarrow> char" where
  "zero_at lsd = digits ! nat (9 + lsd)"

definition digitsHex :: string where
  "digitsHex = ''0123456789ABCDEF''"

text \<open>The characters in the order in which the loop stores them.\<close>

function convert_loop :: "int \<Rightarrow> string" where
  "convert_loop i =
    (let lsd = cmod i 10; i' = cdiv i 10 in
     zero_at lsd # (if i' \<noteq> 0 then convert_loop i' else []))"
  by pat_completeness auto
termination
  by (relation "measure (\<lambda>i. nat \<bar>i\<bar>)")
    (auto simp: cdiv_def abs_mult zabs_less_one_iff sgn_if nat_less_iff split: if_splits)

declare convert_loop.simps [simp del]

text \<open>The text that ends up in the buffer, followed by a NUL, and its length.\<close>

definition convert :: "int \<Rightarrow> string \<times> nat" where
  "convert val =
    (let stored = convert_loop val @ (if val < 0 then ''-'' else []) in
     (rev stored @ [CHR 0x00], length stored))"

fun convertHex_loop :: "nat \<Rightarrow> string" where
  "convertHex_loop i =
    (let lsd = i mod 16; i' = i div 16 in
     digitsHex ! lsd # (if i' \<noteq> 0 then convertHex_loop i' else []))"

declare convertHex_loop.simps [simp del]

definition convertHex :: "nat \<Rightarrow> string \<times> nat" where
  "convertHex val =
    (let stored = convertHex_loop val in (rev stored @ [CHR 0x00], length stored))"

section \<open>The stream\<close>

definition formatInteger :: "FixedBuffer \<Rightarrow> int \<Rightarrow> FixedBuffer res" where
  "formatInteger b v =
    (if fb_avail b \<ge> kMaxNumericSize
     then case convert v of (s, len) \<Rightarrow>
       bindE (fb_poke b (fb_cur b) s) (\<lambda>b. Inr (fb_add b len))
     else Inr b)"

definition put_pointer :: "FixedBuffer \<Rightarrow> 64 word \<Rightarrow> FixedBuffer res" where
  "put_pointer b p =
    (if fb_avail b \<ge> kMaxNumericSize
     then case convertHex (unat p) of (s, len) \<Rightarrow>
       bindE (fb_poke b (fb_cur b) ''0x'') (\<lambda>b.
       bindE (fb_poke b (fb_cur b + 2) s) (\<lambda>b. Inr (fb_add b (len + 2))))
     else Inr b)"

definition put_bool :: "FixedBuffer \<Rightarrow> bool \<Rightarrow> FixedBuffer" where
  "put_bool b v = fb_append b (if v then ''1'' else ''0'')"

definition put_char :: "FixedBuffer \<Rightarrow> char \<Rightarrow> FixedBuffer" where
  "put_char b v = fb_append b [v]"

definition put_cstring :: "FixedBuffer \<Rightarrow> string option \<Rightarrow> FixedBuffer" where
  "put_cstring b str = (case str of Some s \<Rightarrow> fb_append b s | None \<Rightarrow> fb_append b ''(null)'')"

definition put_string :: "FixedBuffer \<Rightarrow> string \<Rightarrow> FixedBuffer" where
  "put_string b v = fb_append b v"

definition put_buffer :: "FixedBuffer \<Rightarrow> FixedBuffer \<Rightarrow> FixedBuffer" where
  "put_buffer b v = put_string b (fb_toString v)"

text \<open>
  The constructor of \<^verbatim>\<open>Fmt\<close> formats into 32 characters; \<open>text\<close> is what \<^verbatim>\<open>printf\<close> would print.
\<close>

definition mkFmt :: "string \<Rightarrow> (string \<times> nat) res" where
  "mkFmt text = bindE (assertE (length text < 32)) (\<lambda>_. Inr (snprintf 32 text, length text))"

datatype log_op =
    PutBool bool
  | PutLong "64 word"
  | PutULong "64 word"
  | PutPointer "64 word"
  | PutChar char
  | PutCString "string option"
  | PutString string
  | ResetBuffer

fun log_step :: "log_op \<Rightarrow> FixedBuffer \<Rightarrow> (unit \<times> FixedBuffer) res" where
  "log_step (PutBool v) b = Inr ((), put_bool b v)"
| "log_step (PutLong w) b = bindE (formatInteger b (sint w)) (\<lambda>b. Inr ((), b))"
| "log_step (PutULong w) b = bindE (formatInteger b (uint w)) (\<lambda>b. Inr ((), b))"
| "log_step (PutPointer p) b = bindE (put_pointer b p) (\<lambda>b. Inr ((), b))"
| "log_step (PutChar v) b = Inr ((), put_char b v)"
| "log_step (PutCString s) b = Inr ((), put_cstring b s)"
| "log_step (PutString s) b = Inr ((), put_string b s)"
| "log_step ResetBuffer b = Inr ((), fb_reset b)"

section \<open>The conversions are right\<close>

lemma zero_at_digit:
  assumes "\<bar>d\<bar> < 10"
  shows "zero_at d = char_of (48 + nat \<bar>d\<bar>)"
proof -
  have "d \<in> {-9, -8, -7, -6, -5, -4, -3, -2, -1, 0, 1, 2, 3, 4, 5, 6, 7, 8, 9}"
  proof -
    have "- 10 < d \<Longrightarrow> d < 10 \<Longrightarrow> d = - 9 \<or> d = - 8 \<or> d = - 7 \<or> d = - 6 \<or> d = - 5 \<or> d = - 4 \<or> d = - 3
        \<or> d = - 2 \<or> d = - 1 \<or> d = 0 \<or> d = 1 \<or> d = 2 \<or> d = 3 \<or> d = 4 \<or> d = 5 \<or> d = 6 \<or> d = 7 \<or> d = 8 \<or> d = 9"
      by presburger
    with assms show ?thesis by simp
  qed
  then have "of_char (zero_at d) = (48 + nat \<bar>d\<bar> :: nat)" by (auto simp: zero_at_def digits_def)
  then show ?thesis by (metis char_of_char)
qed

lemma convert_loop_dec: "convert_loop i = rev (dec_nat (nat \<bar>i\<bar>))"
proof (induction i rule: convert_loop.induct)
  case (1 i)
  define q r where "q = cdiv i 10" and "r = cmod i 10"
  have q: "nat \<bar>q\<bar> = nat \<bar>i\<bar> div 10" and r: "nat \<bar>r\<bar> = nat \<bar>i\<bar> mod 10"
    by (cases "i < 0"; simp add: q_def r_def cdiv_neg cmod_neg nat_div_distrib nat_mod_distrib)+
  have "\<bar>r\<bar> < 10" using r by linarith
  then have z: "zero_at r = char_of (48 + nat \<bar>i\<bar> mod 10)"
    using zero_at_digit r by metis
  show ?case
  proof (cases "q = 0")
    case True
    then have "nat \<bar>i\<bar> < 10" using q by (simp add: div_eq_0_iff)
    with True z show ?thesis
      by (simp add: convert_loop.simps [of i] dec_nat.simps [of "nat \<bar>i\<bar>"] Let_def q_def [symmetric] r_def [symmetric])
  next
    case False
    then have "\<not> nat \<bar>i\<bar> < 10" using q by (auto simp: div_eq_0_iff)
    with False z "1.IH" [OF refl refl] q show ?thesis
      by (simp add: convert_loop.simps [of i] dec_nat.simps [of "nat \<bar>i\<bar>"] Let_def
          q_def [symmetric] r_def [symmetric])
  qed
qed

lemma convert_dec: "convert v = (dec_int v @ [CHR 0x00], length (dec_int v))"
  by (simp add: convert_def convert_loop_dec dec_int_def Let_def)

lemma length_dec_int_signed: "length (dec_int (sint (w :: 64 word))) \<le> 20"
proof -
  have "- (2 ^ 63) \<le> sint w" "sint w < 2 ^ 63"
    using sint_ge [of w] sint_lt [of w] by simp_all
  then have "nat \<bar>sint w\<bar> < 10 ^ 19" by (auto simp: nat_less_iff abs_if)
  then have "length (dec_nat (nat \<bar>sint w\<bar>)) \<le> 19" by (intro length_dec_nat) simp_all
  then show ?thesis by (auto simp: dec_int_def abs_if split: if_splits)
qed

lemma length_dec_int_unsigned: "length (dec_int (uint (w :: 64 word))) \<le> 20"
proof -
  have "uint w < 2 ^ 64" using uint_lt2p [of w] by simp
  then have "nat (uint w) < 10 ^ 20" by (subst nat_less_iff) auto
  then have "length (dec_nat (nat (uint w))) \<le> 20" by (intro length_dec_nat) simp_all
  then show ?thesis by (auto simp: dec_int_def)
qed

definition hex_val :: "char \<Rightarrow> nat" where
  "hex_val c = (if c < CHR ''A'' then of_char c - 48 else of_char c - 55)"

definition unhex :: "string \<Rightarrow> nat" where
  "unhex s = foldl (\<lambda>n c. 16 * n + hex_val c) 0 s"

lemma hex_val_digit: "d < 16 \<Longrightarrow> hex_val (digitsHex ! d) = d"
  by (simp add: hex_val_def digitsHex_def less_Suc_eq numeral_eq_Suc) (elim disjE; simp add: less_char_def)

lemma unhex_convert: "unhex (rev (convertHex_loop i)) = i"
proof (induction i rule: convertHex_loop.induct)
  case (1 i)
  then show ?case
    by (cases "i div 16 = 0")
      (simp_all add: convertHex_loop.simps [of i] Let_def unhex_def hex_val_digit div_eq_0_iff)
qed

lemma length_convertHex: "i < 16 ^ k \<Longrightarrow> 0 < k \<Longrightarrow> length (convertHex_loop i) \<le> k"
proof (induction i arbitrary: k rule: convertHex_loop.induct)
  case (1 i)
  show ?case
  proof (cases "i div 16 = 0")
    case True
    with 1 show ?thesis by (simp add: convertHex_loop.simps [of i] Let_def)
  next
    case False
    then obtain j where j: "k = Suc j" "0 < j"
      using "1.prems" by (cases k; cases "k = 1") (auto simp: div_eq_0_iff)
    moreover have "i div 16 < 16 ^ j" using "1.prems" j by (simp add: less_mult_imp_div_less mult.commute)
    ultimately show ?thesis
      using "1.IH" [OF refl refl False, of j] False by (simp add: convertHex_loop.simps [of i] Let_def)
  qed
qed

section \<open>The stream appends\<close>

fun log_spec :: "nat \<Rightarrow> log_op \<Rightarrow> string \<Rightarrow> (unit \<times> string) res" where
  "log_spec N (PutBool v) s = Inr ((), if length s + 1 < N then s @ (if v then ''1'' else ''0'') else s)"
| "log_spec N (PutLong w) s = Inr ((), if length s + 32 \<le> N then s @ dec_int (sint w) else s)"
| "log_spec N (PutULong w) s = Inr ((), if length s + 32 \<le> N then s @ dec_int (uint w) else s)"
| "log_spec N (PutPointer p) s =
     Inr ((), if length s + 32 \<le> N then s @ ''0x'' @ rev (convertHex_loop (unat p)) else s)"
| "log_spec N (PutChar c) s = Inr ((), if length s + 1 < N then s @ [c] else s)"
| "log_spec N (PutCString t) s =
     (let t' = (case t of Some t' \<Rightarrow> t' | None \<Rightarrow> ''(null)'') in
      Inr ((), if length s + length t' < N then s @ t' else s))"
| "log_spec N (PutString t) s = Inr ((), if length s + length t < N then s @ t else s)"
| "log_spec N ResetBuffer s = Inr ((), [])"

definition fb_rel :: "nat \<Rightarrow> FixedBuffer \<Rightarrow> string \<Rightarrow> bool" where
  "fb_rel N b s \<longleftrightarrow> length (fb_data b) = N \<and> fb_cur b \<le> N \<and> fb_toString b = s"

lemma fb_rel_len: "fb_rel N b s \<Longrightarrow> length s = fb_cur b"
  by (auto simp: fb_rel_def fb_toString_def fb_length_def)

lemma fb_append_rel:
  "fb_rel N b s \<Longrightarrow> fb_rel N (fb_append b t) (if length s + length t < N then s @ t else s)"
  by (frule fb_rel_len)
    (auto simp: fb_rel_def fb_append_def fb_avail_def fb_toString_def fb_length_def overwrite_def)

text \<open>Writing text and a NUL at the cursor and advancing over the text.\<close>

lemma poke_add_rel:
  assumes "fb_rel N b s" "length s + length t < N"
  shows "okE (bindE (fb_poke b (fb_cur b) (t @ [c])) (\<lambda>b. Inr (fb_add b (length t)))) (\<lambda>b'. fb_rel N b' (s @ t))"
proof -
  have "length s = fb_cur b" using assms(1) by (rule fb_rel_len)
  with assms show ?thesis
    by (auto simp: fb_rel_def fb_poke_def fb_add_def fb_toString_def fb_length_def overwrite_def)
qed

lemma avail_rel: "fb_rel N b s \<Longrightarrow> kMaxNumericSize \<le> fb_avail b \<longleftrightarrow> length s + 32 \<le> N"
  using fb_rel_len [of N b s] by (auto simp: fb_rel_def fb_avail_def kMaxNumericSize_def)

lemma formatInteger_rel:
  assumes "fb_rel N b s" "length (dec_int v) < 32"
  shows "okE (formatInteger b v) (\<lambda>b'. fb_rel N b' (if length s + 32 \<le> N then s @ dec_int v else s))"
proof (cases "length s + 32 \<le> N")
  case True
  with assms poke_add_rel [OF assms(1), of "dec_int v" "CHR 0x00"] show ?thesis
    by (simp add: formatInteger_def avail_rel [OF assms(1)] convert_dec)
next
  case False
  with assms show ?thesis by (simp add: formatInteger_def avail_rel [OF assms(1)])
qed

lemma put_pointer_rel:
  assumes "fb_rel N b s"
  shows "okE (put_pointer b p)
    (\<lambda>b'. fb_rel N b' (if length s + 32 \<le> N then s @ ''0x'' @ rev (convertHex_loop (unat p)) else s))"
proof -
  let ?h = "rev (convertHex_loop (unat p))"
  have len: "length s = fb_cur b" "length (fb_data b) = N" "fb_cur b \<le> N"
    using assms(1) fb_rel_len by (auto simp: fb_rel_def)
  have "unat p < 16 ^ 16" using unsigned_less [of p] by simp
  then have h: "length ?h \<le> 16" using length_convertHex [of "unat p" 16] by simp
  show ?thesis
  proof (cases "length s + 32 \<le> N")
    case True
    with assms h len show ?thesis
      by (auto simp: put_pointer_def avail_rel [OF assms] convertHex_def Let_def fb_poke_def
          fb_add_def fb_rel_def fb_toString_def fb_length_def overwrite_def)
  next
    case False
    with assms show ?thesis by (simp add: put_pointer_def avail_rel [OF assms])
  qed
qed

lemma log_step_sim:
  assumes "fb_rel N b s"
  shows "simulates (fb_rel N) (log_step op b) (log_spec N op s)"
proof (cases op)
  case (PutLong w)
  with formatInteger_rel [OF assms, of "sint w"] length_dec_int_signed [of w] show ?thesis
    by (auto intro!: simulates_okE)
next
  case (PutULong w)
  with formatInteger_rel [OF assms, of "uint w"] length_dec_int_unsigned [of w] show ?thesis
    by (auto intro!: simulates_okE)
next
  case (PutPointer p)
  with put_pointer_rel [OF assms, of p] show ?thesis by (auto intro!: simulates_okE)
next
  case ResetBuffer
  with assms show ?thesis
    by (simp add: fb_rel_def fb_reset_def fb_toString_def fb_length_def)
next
  case (PutBool v)
  with fb_append_rel [OF assms, of "if v then ''1'' else ''0''"] show ?thesis
    by (auto simp: put_bool_def split: if_splits)
next
  case (PutChar c)
  with fb_append_rel [OF assms, of "[c]"] show ?thesis by (simp add: put_char_def)
next
  case (PutString t)
  with fb_append_rel [OF assms, of t] show ?thesis by (simp add: put_string_def)
next
  case (PutCString t)
  with fb_append_rel [OF assms, of "''(null)''"] fb_append_rel [OF assms, of "the t"] show ?thesis
    by (cases t) (auto simp: put_cstring_def Let_def split: if_splits)
qed

interpretation ls: data_refinement log_step "log_spec N" "fb_rel N"
  by standard (rule log_step_sim)

lemma log_spec_ok: "okE (run_ops (log_spec N) ops s) (\<lambda>_. True)"
proof (induction ops arbitrary: s)
  case (Cons op ops)
  obtain t where t: "log_spec N op s = Inr ((), t)" by (cases op) (auto simp: Let_def)
  obtain outs u where "run_ops (log_spec N) ops t = Inr (outs, u)" using Cons [of t] by (auto simp: okE_iff)
  with t show ?case by simp
qed simp

section \<open>Properties\<close>

text \<open>
  C25: A log stream only ever appends whole items. Any sequence of insertions into a fresh buffer of
  any size stays inside the array, never raises an error, and leaves exactly the text of the items
  that fitted when they came: the decimal text of an integer (all of the 64-bit range, including the
  most negative number), the \<^verbatim>\<open>0x\<close> text of a pointer, strings and characters unchanged,
  \<^verbatim>\<open>(null)\<close> for a null string. An item that does not fit is dropped whole, an integer when fewer than 32
  bytes are left.
\<close>

theorem log_stream_appends:
  "okE (run_ops log_step ops (mkFixedBuffer N)) (\<lambda>_. True)
    \<and> simulates (fb_rel N) (run_ops log_step ops (mkFixedBuffer N)) (run_ops (log_spec N) ops [])"
proof -
  have "fb_rel N (mkFixedBuffer N) []"
    by (simp add: fb_rel_def mkFixedBuffer_def fb_toString_def fb_length_def)
  then have s: "simulates (fb_rel N) (run_ops log_step ops (mkFixedBuffer N)) (run_ops (log_spec N) ops [])"
    by (rule ls.run_sim)
  with log_spec_ok [of N ops "[]"] have "okE (run_ops log_step ops (mkFixedBuffer N)) (\<lambda>_. True)"
    by (auto simp: simulates_def okE_iff split: sum.splits)
  with s show ?thesis by simp
qed

text \<open>
  The two conversion routines are right for every value: \<^verbatim>\<open>convert\<close> stores the decimal text of a
  signed value and a NUL and returns the length of the text, \<^verbatim>\<open>convertHex\<close> stores hexadecimal digits
  whose value is the argument, and for any 64-bit argument both texts with their NUL fit in the
  \<^verbatim>\<open>kMaxNumericSize\<close> bytes that the callers check for.
\<close>

theorem conversions_correct:
  "convert (sint (w :: 64 word)) = (dec_int (sint w) @ [CHR 0x00], length (dec_int (sint w)))
    \<and> convert (uint w) = (dec_int (uint w) @ [CHR 0x00], length (dec_int (uint w)))
    \<and> unhex (take (snd (convertHex (unat w))) (fst (convertHex (unat w)))) = unat w
    \<and> length (fst (convert (sint w))) \<le> kMaxNumericSize
    \<and> length (fst (convert (uint w))) \<le> kMaxNumericSize
    \<and> 2 + length (fst (convertHex (unat w))) \<le> kMaxNumericSize"
proof -
  have "unat w < 16 ^ 16" using unsigned_less [of w] by simp
  then have h: "length (convertHex_loop (unat w)) \<le> 16" using length_convertHex [of "unat w" 16] by simp
  have x: "unhex (take (snd (convertHex (unat w))) (fst (convertHex (unat w)))) = unat w"
    by (simp add: convertHex_def Let_def unhex_convert)
  show ?thesis
    using h x length_dec_int_signed [of w] length_dec_int_unsigned [of w]
    by (simp add: convert_dec kMaxNumericSize_def convertHex_def Let_def)
qed

end
