(* ===== verification/Doubles.thy ===== *)
theory Doubles
  imports Prelude Complex_Main
begin

text \<open>
  A \<^verbatim>\<open>double\<close> is the rational number it stands for; \<open>rnd53\<close> rounds a positive rational to the
  nearest number with 53 significant bits, ties to even. Exponents never come near their bounds here.
\<close>

fun bitlen :: "nat \<Rightarrow> nat" where
  "bitlen n = (if n = 0 then 0 else Suc (bitlen (n div 2)))"

declare bitlen.simps [simp del]

definition pow2 :: "int \<Rightarrow> rat" where
  "pow2 e = power_int 2 e"

definition round_even :: "rat \<Rightarrow> int" where
  "round_even x =
    (let f = \<lfloor>x\<rfloor>; d = x - of_int f in
     if d < 1 / 2 then f else if d > 1 / 2 then f + 1 else if even f then f else f + 1)"

definition exponent :: "rat \<Rightarrow> int" where
  "exponent x = (if 1 \<le> x then int (bitlen (nat \<lfloor>x\<rfloor>)) - 53 else - int (bitlen (nat \<lfloor>1 / x\<rfloor>)) - 52)"

definition rnd53 :: "rat \<Rightarrow> rat" where
  "rnd53 x = (if x \<le> 0 then 0 else of_int (round_even (x / pow2 (exponent x))) * pow2 (exponent x))"

text \<open>\<^verbatim>\<open>%.kf\<close> for a non-negative value.\<close>

definition fmt_fixed :: "nat \<Rightarrow> rat \<Rightarrow> string" where
  "fmt_fixed k v =
    (let m = nat (round_even (v * 10 ^ k)) in
     if k = 0 then dec_nat m
     else dec_nat (m div 10 ^ k) @ ''.'' @ pad_left (CHR ''0'') k (dec_nat (m mod 10 ^ k)))"

lemma bitlen_bounds: "0 < n \<Longrightarrow> 2 ^ (bitlen n - 1) \<le> n \<and> n < 2 ^ bitlen n \<and> 0 < bitlen n"
proof (induction n rule: bitlen.induct)
  case (1 n)
  show ?case
  proof (cases "n div 2 = 0")
    case True
    with 1 have "n = 1" by auto
    then show ?thesis by (simp add: bitlen.simps)
  next
    case False
    with 1 have IH: "2 ^ (bitlen (n div 2) - 1) \<le> n div 2" "n div 2 < 2 ^ bitlen (n div 2)" "0 < bitlen (n div 2)"
      by auto
    have b: "bitlen n = Suc (bitlen (n div 2))" using 1 by (simp add: bitlen.simps [of n])
    have "(2 :: nat) ^ bitlen (n div 2) = 2 * 2 ^ (bitlen (n div 2) - 1)"
      using IH(3) by (cases "bitlen (n div 2)") simp_all
    moreover have "n = 2 * (n div 2) + n mod 2" "n mod 2 < 2" by simp_all
    ultimately show ?thesis using IH unfolding b by (simp only: diff_Suc_1 power_Suc) linarith
  qed
qed

lemma pow2_pos [simp]: "0 < pow2 e"
  by (simp add: pow2_def)

lemma pow2_add: "pow2 (a + b) = pow2 a * pow2 b"
  by (simp add: pow2_def power_int_add)

lemma pow2_nat [simp]: "pow2 (int k) = 2 ^ k"
  by (simp add: pow2_def)

lemma pow2_lessD: "pow2 a < pow2 b \<Longrightarrow> a < b"
  unfolding pow2_def using power_int_increasing [of b a "2 :: rat"] by (cases "a < b") auto

text \<open>The significand of a number of at least one has 53 bits.\<close>

lemma exponent_bounds:
  assumes "1 \<le> x"
  shows "pow2 (exponent x + 52) \<le> x" and "x < pow2 (exponent x + 53)"
proof -
  define n where "n = nat \<lfloor>x\<rfloor>"
  have n: "0 < n" "of_nat n \<le> x" "x < of_nat n + 1"
    using assms by (simp_all add: n_def le_floor_iff) linarith+
  note b = bitlen_bounds [OF n(1)]
  have e: "exponent x = int (bitlen n) - 53" using assms by (simp add: exponent_def n_def)
  have low: "exponent x + 52 = int (bitlen n - 1)" and high: "exponent x + 53 = int (bitlen n)"
    using b e by auto
  have "(2 :: rat) ^ (bitlen n - 1) \<le> of_nat n" using b by (metis of_nat_le_iff of_nat_numeral of_nat_power)
  then show "pow2 (exponent x + 52) \<le> x" unfolding low pow2_nat using n by linarith
  have "n + 1 \<le> 2 ^ bitlen n" using b by simp
  then have "of_nat (n + 1) \<le> (2 :: rat) ^ bitlen n" by (metis of_nat_le_iff of_nat_numeral of_nat_power)
  then show "x < pow2 (exponent x + 53)" unfolding high pow2_nat using n by simp
qed

lemma exponent_low:
  assumes "0 < x"
  shows "pow2 (exponent x + 52) \<le> x"
proof (cases "1 \<le> x")
  case True
  then show ?thesis by (rule exponent_bounds)
next
  case False
  define n where "n = nat \<lfloor>1 / x\<rfloor>"
  have "1 \<le> 1 / x" using False assms by simp
  then have n: "0 < n" "1 / x < of_nat n + 1" by (simp_all add: n_def le_floor_iff) linarith
  have "n + 1 \<le> 2 ^ bitlen n" using bitlen_bounds [OF n(1)] by simp
  then have "of_nat (n + 1) \<le> (2 :: rat) ^ bitlen n" by (metis of_nat_le_iff of_nat_numeral of_nat_power)
  then have "1 / x \<le> 2 ^ bitlen n" using n(2) by simp
  then have "1 \<le> 2 ^ bitlen n * x" using assms by (simp only: pos_divide_le_eq)
  then have "1 / 2 ^ bitlen n \<le> x" by (simp add: pos_divide_le_eq mult.commute)
  moreover have "exponent x + 52 = - int (bitlen n)" using False by (simp add: exponent_def n_def)
  ultimately show ?thesis by (simp add: pow2_def power_int_minus divide_inverse)
qed

lemma round_even_error: "\<bar>of_int (round_even x) - x\<bar> \<le> 1 / 2"
proof -
  have "of_int \<lfloor>x\<rfloor> \<le> x" "x < of_int \<lfloor>x\<rfloor> + 1" by linarith+
  then show ?thesis by (auto simp: round_even_def Let_def)
qed

lemma round_even_eq: "\<bar>x - of_int k\<bar> < 1 / 2 \<Longrightarrow> round_even x = k"
  using round_even_error [of x] by linarith

lemma round_even_less: "x < of_int k + 1 / 2 \<Longrightarrow> round_even x \<le> k"
  using round_even_error [of x] by linarith

lemma round_even_nonneg: "0 \<le> x \<Longrightarrow> 0 \<le> round_even x"
  using round_even_error [of x] by linarith

lemma rnd53_error:
  assumes "0 < x"
  shows "\<bar>rnd53 x - x\<bar> \<le> x / 2 ^ 53"
proof -
  define p where "p = pow2 (exponent x)"
  have p: "0 < p" "p * 2 ^ 52 \<le> x"
    using exponent_low [OF assms] pow2_add [of "exponent x" 52] pow2_nat [of 52] by (simp_all add: p_def)
  have "rnd53 x - x = (of_int (round_even (x / p)) - x / p) * p"
    using assms p(1) by (simp add: rnd53_def p_def [symmetric] left_diff_distrib)
  then have "\<bar>rnd53 x - x\<bar> = \<bar>of_int (round_even (x / p)) - x / p\<bar> * p"
    using p(1) by (simp add: abs_mult)
  also have "\<dots> \<le> 1 / 2 * p" using p(1) round_even_error by (intro mult_right_mono) auto
  also have "\<dots> \<le> x / 2 ^ 53" using p(2) by simp
  finally show ?thesis .
qed

lemma round_even_int [simp]: "round_even (of_int k) = k"
  by (rule round_even_eq) simp

lemma rnd53_int:
  assumes "0 < s" "s < 2 ^ 53"
  shows "rnd53 (of_int s) = of_int s"
proof -
  define x where "x = (of_int s :: rat)"
  have x: "1 \<le> x" "x < 2 ^ 53" using assms by (simp_all add: x_def)
  have "exponent x \<le> 0"
  proof (rule ccontr)
    assume "\<not> exponent x \<le> 0"
    then have "exponent x + 52 = int (53 + nat (exponent x - 1))" by simp
    then have "pow2 (exponent x + 52) = 2 ^ (53 + nat (exponent x - 1))" by (simp only: pow2_nat)
    moreover have "(2 :: rat) ^ 53 \<le> 2 ^ (53 + nat (exponent x - 1))" by (rule power_increasing) simp_all
    ultimately show False using exponent_bounds(1) [OF x(1)] x(2) by linarith
  qed
  then have k: "exponent x = - int (nat (- exponent x))" by simp
  define k where "k = nat (- exponent x)"
  note k = k [folded k_def]
  have p: "pow2 (- int k) = 1 / 2 ^ k" by (simp add: pow2_def power_int_minus divide_inverse)
  have "x / pow2 (exponent x) = of_int (s * 2 ^ k)"
    unfolding k p by (simp add: x_def)
  then have "rnd53 x = of_int (s * 2 ^ k) * pow2 (exponent x)"
    using x(1) by (simp only: rnd53_def round_even_int) simp
  also have "\<dots> = x" unfolding k p by (simp add: x_def)
  finally show ?thesis by (simp add: x_def)
qed

lemma rnd53_eq:
  assumes "1 \<le> x" "2 ^ 52 \<le> x / pow2 e" "x / pow2 e < 2 ^ 53"
  shows "rnd53 x = of_int (round_even (x / pow2 e)) * pow2 e"
proof -
  have lo: "pow2 (e + 52) \<le> x" and hi: "x < pow2 (e + 53)"
    using assms(2,3) pow2_pos [of e] pow2_nat [of 52] pow2_nat [of 53]
    by (simp_all add: pow2_add pos_le_divide_eq pos_divide_less_eq mult.commute)
  have "pow2 (e + 52) < pow2 (exponent x + 53)" "pow2 (exponent x + 52) < pow2 (e + 53)"
    using le_less_trans [OF lo exponent_bounds(2) [OF assms(1)]] le_less_trans [OF exponent_bounds(1) [OF assms(1)] hi] .
  then have "e + 52 < exponent x + 53" "exponent x + 52 < e + 53" by (simp_all add: pow2_lessD)
  then have "exponent x = e" by simp
  with assms(1) show ?thesis by (simp add: rnd53_def)
qed

text \<open>The length of a fixed-point text whose digits are below 1000.\<close>

lemma length_pad_left: "length s \<le> w \<Longrightarrow> length (pad_left c w s) = w"
  by (simp add: pad_left_def)

lemma fmt_fixed_length:
  assumes "0 \<le> v"
  shows "v * 100 < 1999 / 2 \<Longrightarrow> length (fmt_fixed 2 v) \<le> 4"
    and "v * 10 < 1999 / 2 \<Longrightarrow> length (fmt_fixed 1 v) \<le> 4"
    and "v < 19999 / 2 \<Longrightarrow> length (fmt_fixed 0 v) \<le> 4"
    and "v < 1999 / 2 \<Longrightarrow> length (fmt_fixed 0 v) \<le> 3"
proof -
  have m: "nat (round_even (v * 10 ^ k)) \<le> nat n" if "v * 10 ^ k < of_int n + 1 / 2" for k n
    using round_even_less [OF that] by simp
  have two: "length (dec_nat j) \<le> 2" if "j < 100" for j using that by (intro length_dec_nat) auto
  have one: "length (dec_nat j) \<le> 1" if "j < 10" for j using that by (intro length_dec_nat) auto
  { assume "v * 100 < 1999 / 2"
    then have "nat (round_even (v * 100)) \<le> 999" using m [of 2 999] by simp
    then show "length (fmt_fixed 2 v) \<le> 4"
      using one [of "nat (round_even (v * 100)) div 100"] two [of "nat (round_even (v * 100)) mod 100"]
      by (simp add: fmt_fixed_def Let_def length_pad_left) }
  { assume "v * 10 < 1999 / 2"
    then have "nat (round_even (v * 10)) \<le> 999" using m [of 1 999] by simp
    then show "length (fmt_fixed 1 v) \<le> 4"
      using two [of "nat (round_even (v * 10)) div 10"] one [of "nat (round_even (v * 10)) mod 10"]
      by (simp add: fmt_fixed_def Let_def length_pad_left) }
  { assume "v < 19999 / 2"
    then have "nat (round_even v) \<le> 9999" using m [of 0 9999] by simp
    then show "length (fmt_fixed 0 v) \<le> 4"
      using length_dec_nat [of "nat (round_even v)" 4] by (simp add: fmt_fixed_def) }
  { assume "v < 1999 / 2"
    then have "nat (round_even v) \<le> 999" using m [of 0 999] by simp
    then show "length (fmt_fixed 0 v) \<le> 3"
      using length_dec_nat [of "nat (round_even v)" 3] by (simp add: fmt_fixed_def) }
qed

text \<open>The rounded quotient of a quantity by its unit stays below the bound of its tier.\<close>

lemma rnd53_bound:
  assumes "0 < s" "0 < u" "s \<le> K" "K * (1 + 1 / 2 ^ 53) < B * u"
  shows "0 \<le> rnd53 (s / u) \<and> rnd53 (s / u) < B"
proof -
  have q: "0 < s / u" using assms by simp
  have e: "\<bar>rnd53 (s / u) - s / u\<bar> \<le> s / u / 2 ^ 53" by (rule rnd53_error [OF q])
  have "rnd53 (s / u) \<le> s / u * (1 + 1 / 2 ^ 53)" using e by (simp add: distrib_left)
  also have "\<dots> \<le> K / u * (1 + 1 / 2 ^ 53)"
    using assms(2,3) by (intro mult_right_mono divide_right_mono) auto
  also have "\<dots> < B" using assms(2,4) by (simp add: pos_divide_less_eq mult.commute)
  finally have "rnd53 (s / u) < B" .
  moreover have "s / u / 2 ^ 53 \<le> s / u" using q by simp
  with e have "0 \<le> rnd53 (s / u)" by linarith
  ultimately show ?thesis by simp
qed

end
