(* ===== verification/NumberFormat.thy ===== *)
theory NumberFormat
  imports Doubles
begin

text \<open>
  \<^verbatim>\<open>formatSI\<close> and \<^verbatim>\<open>formatIEC\<close> of \<^verbatim>\<open>muduo/base/LogStream.cc\<close>: a quantity with a unit prefix. The
  header file promises at most five and six characters; that holds for every quantity below \<open>2\<^sup>5\<^sup>3\<close>, where a
  \<^verbatim>\<open>double\<close> is exact, and fails above it for \<^verbatim>\<open>formatSI\<close>.
\<close>

definition formatSI :: "int \<Rightarrow> string" where
  "formatSI s =
    (let n = rnd53 (of_int s) in
     if s < 1000 then dec_int s
     else if s < 9995 then fmt_fixed 2 (rnd53 (n / 10 ^ 3)) @ ''k''
     else if s < 99950 then fmt_fixed 1 (rnd53 (n / 10 ^ 3)) @ ''k''
     else if s < 999500 then fmt_fixed 0 (rnd53 (n / 10 ^ 3)) @ ''k''
     else if s < 9995000 then fmt_fixed 2 (rnd53 (n / 10 ^ 6)) @ ''M''
     else if s < 99950000 then fmt_fixed 1 (rnd53 (n / 10 ^ 6)) @ ''M''
     else if s < 999500000 then fmt_fixed 0 (rnd53 (n / 10 ^ 6)) @ ''M''
     else if s < 9995000000 then fmt_fixed 2 (rnd53 (n / 10 ^ 9)) @ ''G''
     else if s < 99950000000 then fmt_fixed 1 (rnd53 (n / 10 ^ 9)) @ ''G''
     else if s < 999500000000 then fmt_fixed 0 (rnd53 (n / 10 ^ 9)) @ ''G''
     else if s < 9995000000000 then fmt_fixed 2 (rnd53 (n / 10 ^ 12)) @ ''T''
     else if s < 99950000000000 then fmt_fixed 1 (rnd53 (n / 10 ^ 12)) @ ''T''
     else if s < 999500000000000 then fmt_fixed 0 (rnd53 (n / 10 ^ 12)) @ ''T''
     else if s < 9995000000000000 then fmt_fixed 2 (rnd53 (n / 10 ^ 15)) @ ''P''
     else if s < 99950000000000000 then fmt_fixed 1 (rnd53 (n / 10 ^ 15)) @ ''P''
     else if s < 999500000000000000 then fmt_fixed 0 (rnd53 (n / 10 ^ 15)) @ ''P''
     else fmt_fixed 2 (rnd53 (n / 10 ^ 18)) @ ''E'')"

text \<open>The constants 9.995 and 99.95 are doubles themselves, and so are the products with the unit.\<close>

definition formatIEC :: "int \<Rightarrow> string" where
  "formatIEC s =
    (let n = rnd53 (of_int s);
         c3 = rnd53 (9995 / 1000); c2 = rnd53 (9995 / 100); c1 = rnd53 (10235 / 10);
         Ki = 2 ^ 10; Mi = 2 ^ 20; Gi = 2 ^ 30; Ti = 2 ^ 40; Pi = 2 ^ 50; Ei = 2 ^ 60 in
     if n < Ki then dec_int s
     else if n < rnd53 (Ki * c3) then fmt_fixed 2 (rnd53 (n / Ki)) @ ''Ki''
     else if n < rnd53 (Ki * c2) then fmt_fixed 1 (rnd53 (n / Ki)) @ ''Ki''
     else if n < rnd53 (Ki * c1) then fmt_fixed 0 (rnd53 (n / Ki)) @ ''Ki''
     else if n < rnd53 (Mi * c3) then fmt_fixed 2 (rnd53 (n / Mi)) @ ''Mi''
     else if n < rnd53 (Mi * c2) then fmt_fixed 1 (rnd53 (n / Mi)) @ ''Mi''
     else if n < rnd53 (Mi * c1) then fmt_fixed 0 (rnd53 (n / Mi)) @ ''Mi''
     else if n < rnd53 (Gi * c3) then fmt_fixed 2 (rnd53 (n / Gi)) @ ''Gi''
     else if n < rnd53 (Gi * c2) then fmt_fixed 1 (rnd53 (n / Gi)) @ ''Gi''
     else if n < rnd53 (Gi * c1) then fmt_fixed 0 (rnd53 (n / Gi)) @ ''Gi''
     else if n < rnd53 (Ti * c3) then fmt_fixed 2 (rnd53 (n / Ti)) @ ''Ti''
     else if n < rnd53 (Ti * c2) then fmt_fixed 1 (rnd53 (n / Ti)) @ ''Ti''
     else if n < rnd53 (Ti * c1) then fmt_fixed 0 (rnd53 (n / Ti)) @ ''Ti''
     else if n < rnd53 (Pi * c3) then fmt_fixed 2 (rnd53 (n / Pi)) @ ''Pi''
     else if n < rnd53 (Pi * c2) then fmt_fixed 1 (rnd53 (n / Pi)) @ ''Pi''
     else if n < rnd53 (Pi * c1) then fmt_fixed 0 (rnd53 (n / Pi)) @ ''Pi''
     else if n < rnd53 (Ei * c3) then fmt_fixed 2 (rnd53 (n / Ei)) @ ''Ei''
     else fmt_fixed 1 (rnd53 (n / Ei)) @ ''Ei'')"

section \<open>Tiers\<close>

text \<open>Quantities below \<open>c\<close>, printed in units of \<open>u\<close> with two, one or no decimals.\<close>

lemma tier2:
  assumes "s < c" "0 < s" "0 < u" "of_int (c - 1) * (1 + 1 / 2 ^ 53) * 200 < 1999 * u"
  shows "length (fmt_fixed 2 (rnd53 (of_int s / u))) \<le> 4"
  using rnd53_bound [of "of_int s" u "of_int (c - 1)" "1999 / 200"] assms
    fmt_fixed_length(1) [of "rnd53 (of_int s / u)"] by simp

lemma tier1:
  assumes "s < c" "0 < s" "0 < u" "of_int (c - 1) * (1 + 1 / 2 ^ 53) * 20 < 1999 * u"
  shows "length (fmt_fixed 1 (rnd53 (of_int s / u))) \<le> 4"
  using rnd53_bound [of "of_int s" u "of_int (c - 1)" "1999 / 20"] assms
    fmt_fixed_length(2) [of "rnd53 (of_int s / u)"] by simp

lemma tier0:
  assumes "s < c" "0 < s" "0 < u" "of_int (c - 1) * (1 + 1 / 2 ^ 53) * 2 < 19999 * u"
  shows "length (fmt_fixed 0 (rnd53 (of_int s / u))) \<le> 4"
  using rnd53_bound [of "of_int s" u "of_int (c - 1)" "19999 / 2"] assms
    fmt_fixed_length(3) [of "rnd53 (of_int s / u)"] by simp

lemmas tiers = tier2 tier1 tier0

text \<open>One branch of the chain of conditions.\<close>

lemma SI_branch:
  assumes "0 < s" "0 < u" "\<not> s < c \<Longrightarrow> length rest \<le> 5"
  shows "of_int (c - 1) * (1 + 1 / 2 ^ 53) * 200 < 1999 * u \<Longrightarrow>
      length (if s < c then fmt_fixed 2 (rnd53 (of_int s / u)) @ [x] else rest) \<le> 5"
    and "of_int (c - 1) * (1 + 1 / 2 ^ 53) * 20 < 1999 * u \<Longrightarrow>
      length (if s < c then fmt_fixed 1 (rnd53 (of_int s / u)) @ [x] else rest) \<le> 5"
    and "of_int (c - 1) * (1 + 1 / 2 ^ 53) * 2 < 19999 * u \<Longrightarrow>
      length (if s < c then fmt_fixed 0 (rnd53 (of_int s / u)) @ [x] else rest) \<le> 5"
  using assms tiers [of s c u] by (cases "s < c"; simp)+

lemma formatSI_length:
  assumes "0 \<le> s" "s < 2 ^ 53"
  shows "length (formatSI s) \<le> 5"
proof (cases "s < 1000")
  case True
  then have "length (dec_nat (nat s)) \<le> 3" by (intro length_dec_nat) (simp_all add: nat_less_iff)
  with True assms show ?thesis by (simp add: formatSI_def dec_int_def Let_def)
next
  case False
  then have pos: "0 < s" by simp
  have n: "rnd53 (of_int s) = of_int s" using pos assms by (simp add: rnd53_int)
  have last: "length ((fmt_fixed 2 (rnd53 (of_int s / 10 ^ 15))) @ [x]) \<le> 5" for x
    using tier2 [OF assms(2) pos, of "10 ^ 15"] by simp
  have dead: "s < 9995000000000000" using assms(2) by simp
  show ?thesis
    unfolding formatSI_def n Let_def if_not_P [OF False]
    by (rule SI_branch [OF pos], simp, rule SI_branch [OF pos], simp, rule SI_branch [OF pos], simp,
        rule SI_branch [OF pos], simp, rule SI_branch [OF pos], simp, rule SI_branch [OF pos], simp,
        rule SI_branch [OF pos], simp, rule SI_branch [OF pos], simp, rule SI_branch [OF pos], simp,
        rule SI_branch [OF pos], simp, rule SI_branch [OF pos], simp, rule SI_branch [OF pos], simp,
        unfold if_P [OF dead], rule last, simp_all)
qed

text \<open>A threshold of \<^verbatim>\<open>formatIEC\<close> is a rounded product of the unit and a rounded constant.\<close>

lemma threshold_bounds:
  assumes "0 < u" "0 < d"
  shows "rnd53 (u * rnd53 d) \<le> u * d * (1 + 1 / 2 ^ 53) ^ 2" and "u * d * (1 - 1 / 2 ^ 53) ^ 2 \<le> rnd53 (u * rnd53 d)"
proof -
  have r: "x * (1 - 1 / 2 ^ 53) \<le> rnd53 x \<and> rnd53 x \<le> x * (1 + 1 / 2 ^ 53)" if "0 < x" for x
    unfolding right_diff_distrib distrib_left using rnd53_error [OF that] unfolding abs_le_iff by simp
  define lo hi :: rat where "lo = 1 - 1 / 2 ^ 53" and "hi = 1 + 1 / 2 ^ 53"
  have c: "0 < lo" "0 < hi" by (simp_all add: lo_def hi_def)
  note r = r [folded lo_def hi_def]
  have d: "d * lo \<le> rnd53 d" "rnd53 d \<le> d * hi" "0 < rnd53 d"
    using r [OF assms(2)] mult_pos_pos [OF assms(2) c(1)] by linarith+
  have "0 < u * rnd53 d" using assms d by simp
  note p = r [OF this]
  have "u * rnd53 d * hi \<le> u * (d * hi) * hi" using d(2) assms c by (intro mult_right_mono mult_left_mono) auto
  then show "rnd53 (u * rnd53 d) \<le> u * d * (1 + 1 / 2 ^ 53) ^ 2"
    using p unfolding hi_def [symmetric] by (simp add: power2_eq_square mult.assoc)
  have "u * (d * lo) * lo \<le> u * rnd53 d * lo" using d(1) assms c by (intro mult_right_mono mult_left_mono) auto
  then show "u * d * (1 - 1 / 2 ^ 53) ^ 2 \<le> rnd53 (u * rnd53 d)"
    using p unfolding lo_def [symmetric] by (simp add: power2_eq_square mult.assoc)
qed

lemma IEC_branch:
  assumes "0 < s" "0 < u" "0 < d" "u * d * (1 + 1 / 2 ^ 53) ^ 2 < of_int c"
    and "\<not> of_int s < rnd53 (u * rnd53 d) \<Longrightarrow> length rest \<le> 6"
  shows "of_int (c - 1) * (1 + 1 / 2 ^ 53) * 200 < 1999 * u \<Longrightarrow>
      length (if of_int s < rnd53 (u * rnd53 d) then fmt_fixed 2 (rnd53 (of_int s / u)) @ [x, y] else rest) \<le> 6"
    and "of_int (c - 1) * (1 + 1 / 2 ^ 53) * 20 < 1999 * u \<Longrightarrow>
      length (if of_int s < rnd53 (u * rnd53 d) then fmt_fixed 1 (rnd53 (of_int s / u)) @ [x, y] else rest) \<le> 6"
    and "of_int (c - 1) * (1 + 1 / 2 ^ 53) * 2 < 19999 * u \<Longrightarrow>
      length (if of_int s < rnd53 (u * rnd53 d) then fmt_fixed 0 (rnd53 (of_int s / u)) @ [x, y] else rest) \<le> 6"
proof -
  have lt: "s < c" if "of_int s < rnd53 (u * rnd53 d)"
    using that threshold_bounds(1) [OF assms(2,3)] assms(4) by linarith
  show "of_int (c - 1) * (1 + 1 / 2 ^ 53) * 200 < 1999 * u \<Longrightarrow>
      length (if of_int s < rnd53 (u * rnd53 d) then fmt_fixed 2 (rnd53 (of_int s / u)) @ [x, y] else rest) \<le> 6"
    using assms(5) tier2 [OF lt assms(1,2)] by simp
  show "of_int (c - 1) * (1 + 1 / 2 ^ 53) * 20 < 1999 * u \<Longrightarrow>
      length (if of_int s < rnd53 (u * rnd53 d) then fmt_fixed 1 (rnd53 (of_int s / u)) @ [x, y] else rest) \<le> 6"
    using assms(5) tier1 [OF lt assms(1,2)] by simp
  show "of_int (c - 1) * (1 + 1 / 2 ^ 53) * 2 < 19999 * u \<Longrightarrow>
      length (if of_int s < rnd53 (u * rnd53 d) then fmt_fixed 0 (rnd53 (of_int s / u)) @ [x, y] else rest) \<le> 6"
    using assms(5) tier0 [OF lt assms(1,2)] by simp
qed

lemma formatIEC_length:
  assumes "0 \<le> s" "s < 2 ^ 53"
  shows "length (formatIEC s) \<le> 6"
proof (cases "s < 1024")
  case True
  then have "length (dec_nat (nat s)) \<le> 4" by (intro length_dec_nat) (simp_all add: nat_less_iff)
  moreover have "rnd53 (of_int s) < 2 ^ 10"
    using True assms rnd53_int [of s] by (cases "s = 0") (simp_all add: rnd53_def)
  ultimately show ?thesis using assms by (simp add: formatIEC_def dec_int_def Let_def)
next
  case False
  then have pos: "0 < s" by simp
  have n: "rnd53 (of_int s) = of_int s" using pos assms by (simp add: rnd53_int)
  have ki: "\<not> (of_int s :: rat) < 2 ^ 10" using False by simp
  have "(of_int s :: rat) < 2 ^ 53" using assms(2) by simp
  also have "\<dots> \<le> 2 ^ 50 * (9995 / 1000) * (1 - 1 / 2 ^ 53) ^ 2" by (simp add: power2_eq_square)
  also have "\<dots> \<le> rnd53 (2 ^ 50 * rnd53 (9995 / 1000))" by (rule threshold_bounds) simp_all
  finally have dead: "of_int s < rnd53 (2 ^ 50 * rnd53 (9995 / 1000))" .
  have last: "length ((fmt_fixed 2 (rnd53 (of_int s / 2 ^ 50))) @ [x, y]) \<le> 6" for x y
    using tier2 [OF assms(2) pos, of "2 ^ 50"] by simp
  note b2 = IEC_branch(1) [OF pos] and b1 = IEC_branch(2) [OF pos] and b0 = IEC_branch(3) [OF pos]
  show ?thesis
    unfolding formatIEC_def n Let_def if_not_P [OF ki]
    apply (rule b2 [where c = 10235], simp, simp, simp add: power2_eq_square)
     apply (rule b1 [where c = 102349], simp, simp, simp add: power2_eq_square)
      apply (rule b0 [where c = 1048065], simp, simp, simp add: power2_eq_square)
       apply (rule b2 [where c = 10480518], simp, simp, simp add: power2_eq_square)
        apply (rule b1 [where c = 104805172], simp, simp, simp add: power2_eq_square)
         apply (rule b0 [where c = 1073217537], simp, simp, simp add: power2_eq_square)
          apply (rule b2 [where c = 10732049531], simp, simp, simp add: power2_eq_square)
           apply (rule b1 [where c = 107320495309], simp, simp, simp add: power2_eq_square)
            apply (rule b0 [where c = 1098974756865], simp, simp, simp add: power2_eq_square)
             apply (rule b2 [where c = 10989618719622], simp, simp, simp add: power2_eq_square)
              apply (rule b1 [where c = 109896187196212], simp, simp, simp add: power2_eq_square)
               apply (rule b0 [where c = 1125350151028737], simp, simp, simp add: power2_eq_square)
                apply (unfold if_P [OF dead], rule last)
    by simp_all
qed

text \<open>Above \<open>2\<^sup>5\<^sup>3\<close> the conversion to \<^verbatim>\<open>double\<close> rounds up, across the boundary of the tier.\<close>

lemma formatSI_long: "formatSI 99949999999999999 = ''100.0P''"
proof -
  have p4: "pow2 4 = 16" unfolding pow2_def power_int_numeral by simp
  have p46: "pow2 (- 46) = 1 / 2 ^ 46"
    unfolding pow2_def power_int_minus power_int_numeral inverse_eq_divide ..
  have "round_even (99949999999999999 / 16) = 6246875000000000" by (rule round_even_eq) simp
  then have n: "rnd53 99949999999999999 = 99950000000000000"
    using rnd53_eq [of 99949999999999999 4] unfolding p4 by simp
  have "round_even (9995 / 100 / (1 / 2 ^ 46)) = 7033355980557517" by (rule round_even_eq) simp
  then have q: "rnd53 (9995 / 100) = 7033355980557517 / 2 ^ 46"
    using rnd53_eq [of "9995 / 100" "- 46"] unfolding p46 by simp
  have "round_even (7033355980557517 / 2 ^ 46 * 10 ^ 1) = 1000"
    by (rule round_even_eq) simp
  moreover have "dec_nat 100 = ''100''" "dec_nat 0 = ''0''" by code_simp+
  ultimately have f: "fmt_fixed 1 (7033355980557517 / 2 ^ 46) = ''100.0''"
    unfolding fmt_fixed_def by (simp add: pad_left_def)
  have d: "(99950000000000000 :: rat) / 10 ^ 15 = 9995 / 100" by simp
  have "formatSI 99949999999999999 = fmt_fixed 1 (rnd53 (rnd53 (of_int 99949999999999999) / 10 ^ 15)) @ ''P''"
    by (simp add: formatSI_def Let_def)
  then show ?thesis unfolding of_int_numeral n d q f by simp
qed

section \<open>Properties\<close>

text \<open>
  C26: The promise of the header file holds for every quantity that a \<^verbatim>\<open>double\<close> represents exactly:
  \<^verbatim>\<open>formatSI\<close> returns at most five characters and \<^verbatim>\<open>formatIEC\<close> at most six, whatever
  the rounding of the division and of the printed decimals does at the edges of the tiers.
\<close>

theorem format_length_bounds:
  assumes "0 \<le> s" "s < 2 ^ 53"
  shows "length (formatSI s) \<le> 5 \<and> length (formatIEC s) \<le> 6"
  using assms by (simp add: formatSI_length formatIEC_length)

theorem format_length_bounds_witness:
  "length (formatSI 9007199254740991) \<le> 5 \<and> length (formatIEC 9007199254740991) \<le> 6"
  using format_length_bounds [of 9007199254740991] by simp

text \<open>
  The promise fails beyond that range: 99949999999999999 is below the threshold of its tier, but its
  conversion to \<^verbatim>\<open>double\<close> is not, and \<^verbatim>\<open>formatSI\<close> returns the six characters \<^verbatim>\<open>100.0P\<close>.
\<close>

theorem formatSI_exceeds_five: "length (formatSI 99949999999999999) = 6"
  by (simp add: formatSI_long)

end
