(* ===== verification/Timestamp.thy ===== *)
theory Timestamp
  imports Doubles UtcTime
begin

text \<open>
  \<^verbatim>\<open>muduo/base/Timestamp\<close>: a time stamp is a number of microseconds since 1970. Its arithmetic goes through
  \<^verbatim>\<open>double\<close> seconds; what that loses is bounded here.
\<close>

section \<open>Time stamps\<close>

record Timestamp =
  microSecondsSinceEpoch :: int

definition kMicroSecondsPerSecond :: int where
  "kMicroSecondsPerSecond = 1000 * 1000"

definition mkTimestamp :: "int \<Rightarrow> Timestamp" where
  "mkTimestamp us = \<lparr>microSecondsSinceEpoch = us\<rparr>"

definition invalid :: Timestamp where
  "invalid = mkTimestamp 0"

definition ts_valid :: "Timestamp \<Rightarrow> bool" where
  "ts_valid t \<longleftrightarrow> microSecondsSinceEpoch t > 0"

definition secondsSinceEpoch :: "Timestamp \<Rightarrow> int" where
  "secondsSinceEpoch t = cdiv (microSecondsSinceEpoch t) kMicroSecondsPerSecond"

definition fromUnixTime :: "int \<Rightarrow> int \<Rightarrow> Timestamp" where
  "fromUnixTime t microseconds = mkTimestamp (t * kMicroSecondsPerSecond + microseconds)"

definition ts_less :: "Timestamp \<Rightarrow> Timestamp \<Rightarrow> bool" where
  "ts_less lhs rhs \<longleftrightarrow> microSecondsSinceEpoch lhs < microSecondsSinceEpoch rhs"

text \<open>What \<^verbatim>\<open>gettimeofday\<close> reports is an argument.\<close>

definition ts_now :: "int \<Rightarrow> int \<Rightarrow> Timestamp" where
  "ts_now tv_sec tv_usec = mkTimestamp (tv_sec * kMicroSecondsPerSecond + tv_usec)"

text \<open>Rounding to \<^verbatim>\<open>double\<close> for both signs, and the conversion of a \<^verbatim>\<open>double\<close> to an integer.\<close>

definition to_double :: "rat \<Rightarrow> rat" where
  "to_double x = (if x < 0 then - rnd53 (- x) else rnd53 x)"

definition trunc :: "rat \<Rightarrow> int" where
  "trunc x = (if x < 0 then - \<lfloor>- x\<rfloor> else \<lfloor>x\<rfloor>)"

definition timeDifference :: "Timestamp \<Rightarrow> Timestamp \<Rightarrow> rat" where
  "timeDifference high low =
    (let diff = microSecondsSinceEpoch high - microSecondsSinceEpoch low
     in to_double (to_double (of_int diff) / of_int kMicroSecondsPerSecond))"

definition addTime :: "Timestamp \<Rightarrow> rat \<Rightarrow> Timestamp" where
  "addTime timestamp seconds =
    (let delta = trunc (to_double (seconds * of_int kMicroSecondsPerSecond))
     in mkTimestamp (microSecondsSinceEpoch timestamp + delta))"

section \<open>Texts\<close>

definition ts_toString :: "Timestamp \<Rightarrow> string" where
  "ts_toString t =
    (let seconds = cdiv (microSecondsSinceEpoch t) kMicroSecondsPerSecond;
         microseconds = Prelude.cmod (microSecondsSinceEpoch t) kMicroSecondsPerSecond
     in snprintf 31 (dec_int seconds @ ''.'' @ fmt_zero 6 microseconds))"

definition ts_toFormattedString :: "bool \<Rightarrow> Timestamp \<Rightarrow> string" where
  "ts_toFormattedString showMicroseconds t =
    (let tm_time = gmtime_r (cdiv (microSecondsSinceEpoch t) kMicroSecondsPerSecond);
         date = fmt_blank 4 (tm_year tm_time + 1900) @ fmt_zero 2 (tm_mon tm_time + 1) @ fmt_zero 2 (tm_mday tm_time) @ '' '' @
           fmt_zero 2 (tm_hour tm_time) @ '':'' @ fmt_zero 2 (tm_min tm_time) @ '':'' @ fmt_zero 2 (tm_sec tm_time)
     in snprintf 64
       (if showMicroseconds
        then date @ ''.'' @ fmt_zero 6 (to_int32 (Prelude.cmod (microSecondsSinceEpoch t) kMicroSecondsPerSecond))
        else date))"

section \<open>Rounding errors\<close>

lemma floor_near:
  assumes "\<bar>y - of_int d\<bar> < (1 :: rat)"
  shows "d - 1 \<le> \<lfloor>y\<rfloor> \<and> \<lfloor>y\<rfloor> \<le> d"
proof -
  from assms have "of_int (d - 1) \<le> y" "y < of_int (d + 1)" by (simp_all add: abs_less_iff)
  then have "d - 1 \<le> \<lfloor>y\<rfloor>" "\<lfloor>y\<rfloor> < d + 1" by (simp_all only: le_floor_iff floor_less_iff)
  then show ?thesis by simp
qed

lemma rnd53_nonneg: "0 \<le> rnd53 x"
proof -
  have "0 \<le> x / pow2 (exponent x)" if "0 < x"
    using that pow2_pos [of "exponent x"] by (intro divide_nonneg_pos) simp_all
  then have "0 \<le> round_even (x / pow2 (exponent x))" if "0 < x" using that round_even_nonneg by blast
  then have "0 \<le> of_int (round_even (x / pow2 (exponent x))) * pow2 (exponent x)" if "0 < x"
    using that less_imp_le [OF pow2_pos] by (intro mult_nonneg_nonneg) simp_all
  then show ?thesis by (simp add: rnd53_def)
qed

lemma seconds_round_trip_error:
  assumes "0 < d" "d < (2 :: rat) ^ 50"
  shows "0 < rnd53 (d / 1000000) \<and> \<bar>rnd53 (rnd53 (d / 1000000) * 1000000) - d\<bar> < 1"
proof -
  define x where "x = d / 1000000"
  define y where "y = rnd53 x * 1000000"
  have x: "0 < x" "x < 2 ^ 50 / 1000000" using assms by (simp_all add: x_def)
  have e: "\<bar>rnd53 x - x\<bar> \<le> x / 2 ^ 53" by (rule rnd53_error [OF x(1)])
  have "x / 2 ^ 53 < x" using x(1) by simp
  with e have r: "0 < rnd53 x" by linarith
  then have y: "0 < y" by (simp add: y_def)
  have f: "\<bar>rnd53 y - y\<bar> \<le> y / 2 ^ 53" by (rule rnd53_error [OF y])
  have d: "d = x * 1000000" by (simp add: x_def)
  have "\<bar>y - d\<bar> = \<bar>(rnd53 x - x) * 1000000\<bar>" unfolding y_def d left_diff_distrib ..
  also have "\<dots> = \<bar>rnd53 x - x\<bar> * 1000000" by (simp only: abs_mult abs_numeral)
  also have "\<dots> \<le> x / 2 ^ 53 * 1000000" using e by (intro mult_right_mono) simp_all
  also have "\<dots> = d / 2 ^ 53" by (simp add: d)
  finally have g: "\<bar>y - d\<bar> \<le> d / 2 ^ 53" .
  from assms(2) have h: "d / 2 ^ 53 < 1 / 8" by simp
  with abs_le_D1 [OF g] assms(2) have "y \<le> 2 ^ 51" by simp
  then have "y / 2 ^ 53 \<le> 1 / 4" by simp
  with f g h have "\<bar>rnd53 y - d\<bar> < 1" by linarith
  with r show ?thesis by (simp only: y_def x_def simp_thms)
qed

lemma seconds_round_trip:
  assumes "0 < d" "d < 2 ^ 50"
  shows "d - 1 \<le> trunc (to_double (to_double (of_int d / 1000000) * 1000000))
    \<and> trunc (to_double (to_double (of_int d / 1000000) * 1000000)) \<le> d"
proof -
  have "(0 :: rat) < of_int d" "of_int d < (2 :: rat) ^ 50"
    using assms of_int_less_iff [of d "2 ^ 50"] by simp_all
  note e = seconds_round_trip_error [OF this]
  have z: "0 < rnd53 (of_int d / 1000000) * 1000000" using e by simp
  have "0 \<le> rnd53 (rnd53 (of_int d / 1000000) * 1000000)"
    by (rule rnd53_nonneg)
  with e z have "trunc (to_double (to_double (of_int d / 1000000) * 1000000)) = \<lfloor>rnd53 (rnd53 (of_int d / 1000000) * 1000000)\<rfloor>"
    using assms by (simp add: trunc_def to_double_def)
  with floor_near [of _ d] e show ?thesis by simp
qed

text \<open>One second and one microsecond does not survive the way through \<^verbatim>\<open>double\<close>.\<close>

lemma lost_microsecond: "trunc (to_double (to_double (1000001 / 1000000) * 1000000)) = 1000000"
proof -
  have p52: "pow2 (- 52) = 1 / 2 ^ 52" and p33: "pow2 (- 33) = 1 / 2 ^ 33"
    unfolding pow2_def power_int_minus power_int_numeral inverse_eq_divide by (rule refl)+
  have "round_even (1000001 / 1000000 / (1 / 2 ^ 52)) = 4503604130970123" by (rule round_even_eq) simp
  then have q: "rnd53 (1000001 / 1000000) = 4503604130970123 / 2 ^ 52"
    using rnd53_eq [of "1000001 / 1000000" "- 52"] unfolding p52 by simp
  have "round_even (4503604130970123 / 2 ^ 52 * 1000000 / (1 / 2 ^ 33)) = 8589943181934591" by (rule round_even_eq) simp
  then have "rnd53 (4503604130970123 / 2 ^ 52 * 1000000) = 8589943181934591 / 2 ^ 33"
    using rnd53_eq [of "4503604130970123 / 2 ^ 52 * 1000000" "- 33"] unfolding p33 by simp
  moreover have "rnd53 (rnd53 (1000001 / 1000000) * 1000000) = rnd53 (4503604130970123 / 2 ^ 52 * 1000000)"
    by (simp only: q)
  ultimately have "rnd53 (rnd53 (1000001 / 1000000) * 1000000) = 8589943181934591 / 2 ^ 33" by (simp only:)
  moreover have "\<lfloor>8589943181934591 / 2 ^ 33 :: rat\<rfloor> = 1000000" by (simp add: floor_eq_iff)
  ultimately have "\<lfloor>rnd53 (rnd53 (1000001 / 1000000) * 1000000)\<rfloor> = 1000000" by (simp only:)
  moreover have "\<not> rnd53 x < 0" "\<not> rnd53 x * 1000000 < 0" for x using rnd53_nonneg [of x] by simp_all
  ultimately show ?thesis by (simp add: trunc_def to_double_def)
qed

lemma addTime_difference:
  assumes "0 < d" "d < 2 ^ 50"
  shows "addTime low (timeDifference (mkTimestamp (microSecondsSinceEpoch low + d)) low)
    = mkTimestamp (microSecondsSinceEpoch low + trunc (to_double (to_double (of_int d / 1000000) * 1000000)))"
proof -
  have "to_double (of_int d) = of_int d" using rnd53_int [of d] assms by (simp add: to_double_def)
  then show ?thesis by (simp add: addTime_def timeDifference_def kMicroSecondsPerSecond_def mkTimestamp_def)
qed

section \<open>Property\<close>

text \<open>
  C34: Going through \<^verbatim>\<open>double\<close> seconds loses at most one microsecond and never gains any: for stamps less than
  \<open>2\<^sup>5\<^sup>0\<close> microseconds (35 years) apart, \<^verbatim>\<open>addTime(low, timeDifference(high, low))\<close> is \<^verbatim>\<open>high\<close> or one microsecond
  before it. It is not always \<^verbatim>\<open>high\<close>: one second and one microsecond comes back as one second, since
  \<^verbatim>\<open>addTime\<close> truncates.
\<close>

theorem addTime_timeDifference:
  assumes "ts_less low high" "microSecondsSinceEpoch high - microSecondsSinceEpoch low < 2 ^ 50"
  shows "addTime low (timeDifference high low) \<in> {high, mkTimestamp (microSecondsSinceEpoch high - 1)}
    \<and> addTime low (timeDifference (mkTimestamp (microSecondsSinceEpoch low + 1000001)) low)
      = mkTimestamp (microSecondsSinceEpoch low + 1000000)"
proof -
  define d where "d = microSecondsSinceEpoch high - microSecondsSinceEpoch low"
  have d: "0 < d" "d < 2 ^ 50" using assms by (simp_all add: d_def ts_less_def)
  have h: "high = mkTimestamp (microSecondsSinceEpoch low + d)" by (simp add: d_def mkTimestamp_def)
  note * = addTime_difference [of _ low]
  have "trunc (to_double (to_double (of_int d / 1000000) * 1000000)) = d
      \<or> trunc (to_double (to_double (of_int d / 1000000) * 1000000)) = d - 1"
    using seconds_round_trip [OF d] by linarith
  with * [OF d] have "addTime low (timeDifference high low)
      \<in> {mkTimestamp (microSecondsSinceEpoch low + d), mkTimestamp (microSecondsSinceEpoch low + d - 1)}"
    unfolding h by (auto simp: mkTimestamp_def)
  then show ?thesis using * [of 1000001] lost_microsecond unfolding h by (simp add: mkTimestamp_def)
qed

theorem addTime_timeDifference_witness:
  "ts_less (mkTimestamp 5) (mkTimestamp 1000006)
    \<and> addTime (mkTimestamp 5) (timeDifference (mkTimestamp 1000006) (mkTimestamp 5))
      \<in> {mkTimestamp 1000006, mkTimestamp 1000005}"
  using addTime_timeDifference [of "mkTimestamp 5" "mkTimestamp 1000006"] by (simp add: ts_less_def mkTimestamp_def)

end
