(* ===== verification/TimerQueue.thy ===== *)
theory TimerQueue
  imports Timestamp "HOL-Library.Product_Lexorder"
begin

text \<open>
  \<^verbatim>\<open>muduo/net/Timer\<close> and \<^verbatim>\<open>TimerQueue\<close>: the timers of an event loop, kept in a set ordered by expiration
  (\<^verbatim>\<open>timers_\<close>) and in one ordered by address (\<^verbatim>\<open>activeTimers_\<close>), with a single timer descriptor armed for the
  earliest. Timers are raw pointers into a heap, so that use after \<^verbatim>\<open>delete\<close> and the reuse of addresses show.
  Callbacks may add and cancel timers, themselves included.
\<close>

section \<open>Timers\<close>

text \<open>What a callback does to the timer queue it is called from, in order. A \<^verbatim>\<open>TimerId\<close> is a pointer and a sequence number.\<close>

type_synonym timer_ptr = nat
type_synonym TimerId = "timer_ptr \<times> int"

datatype timer_call =
    AddTimer Timestamp rat "timer_call list"
  | CancelTimer TimerId

record Timer =
  tm_callback :: "timer_call list"
  expiration :: Timestamp
  interval :: rat
  tm_repeat :: bool
  tm_sequence :: int

definition mkTimer :: "timer_call list \<Rightarrow> Timestamp \<Rightarrow> rat \<Rightarrow> int \<Rightarrow> Timer" where
  "mkTimer cb when itv sequence =
    \<lparr>tm_callback = cb, expiration = when, interval = itv, tm_repeat = (itv > 0), tm_sequence = sequence\<rparr>"

definition restart :: "Timestamp \<Rightarrow> Timer \<Rightarrow> Timer" where
  "restart now tm =
    (if tm_repeat tm then tm\<lparr>expiration := addTime now (interval tm)\<rparr> else tm\<lparr>expiration := invalid\<rparr>)"

section \<open>The queue\<close>

text \<open>
  \<open>timers\<close> and \<open>activeTimers\<close> are the two ordered sets (the first as the sorted list its iterators walk); \<open>heap\<close> the
  timers allocated and not deleted, \<open>numCreated\<close> the counter of sequence numbers, \<open>clock\<close> what the next calls of
  \<^verbatim>\<open>Timestamp::now()\<close> will return. \<open>armed\<close> is the time at which the timer descriptor was last set and the seconds and
  nanoseconds it was set to, as long as it has not been read. \<open>posted\<close> are the calls that other threads have queued in
  the loop, \<open>returning\<close> the timers of the calls of \<^verbatim>\<open>addTimer\<close> in other threads that have yet to read the sequence
  number for the \<^verbatim>\<open>TimerId\<close> they return, and \<open>fired\<close> the timers whose callback has been called.
\<close>

type_synonym entry = "int \<times> timer_ptr"

datatype posted_call = AddInLoop timer_ptr | CancelInLoop TimerId

record TimerQueue =
  timers :: "entry list"
  activeTimers :: "TimerId set"
  callingExpiredTimers :: bool
  cancelingTimers :: "TimerId set"
  heap :: "timer_ptr \<rightharpoonup> Timer"
  numCreated :: int
  clock :: "nat \<Rightarrow> Timestamp"
  armed :: "(Timestamp \<times> int \<times> int) option"
  posted :: "posted_call list"
  returning :: "timer_ptr list"
  fired :: "entry list"

definition mkTimerQueue :: "(nat \<Rightarrow> Timestamp) \<Rightarrow> TimerQueue" where
  "mkTimerQueue clk = \<lparr>timers = [], activeTimers = {}, callingExpiredTimers = False, cancelingTimers = {},
     heap = Map.empty, numCreated = 0, clock = clk, armed = None, posted = [], returning = [], fired = []\<rparr>"

definition ts_now :: "TimerQueue \<Rightarrow> Timestamp \<times> TimerQueue" where
  "ts_now q = (clock q 0, q\<lparr>clock := (\<lambda>n. clock q (Suc n))\<rparr>)"

text \<open>Reading a timer that has been deleted is an error.\<close>

definition deref :: "TimerQueue \<Rightarrow> timer_ptr \<Rightarrow> Timer res" where
  "deref q timer = (case heap q timer of None \<Rightarrow> Inl OutOfBounds | Some tm \<Rightarrow> Inr tm)"

definition delete_timer :: "timer_ptr \<Rightarrow> TimerQueue \<Rightarrow> TimerQueue" where
  "delete_timer timer q = q\<lparr>heap := (heap q)(timer := None)\<rparr>"

definition same_sizes :: "TimerQueue \<Rightarrow> unit res" where
  "same_sizes q = assertE (length (timers q) = card (activeTimers q))"

text \<open>Seconds and nanoseconds until \<open>when\<close>, at least 100 microseconds.\<close>

definition howMuchTimeFromNow :: "Timestamp \<Rightarrow> Timestamp \<Rightarrow> int \<times> int" where
  "howMuchTimeFromNow now when =
    (let microseconds = microSecondsSinceEpoch when - microSecondsSinceEpoch now;
         microseconds = (if microseconds < 100 then 100 else microseconds)
     in (cdiv microseconds kMicroSecondsPerSecond, Prelude.cmod microseconds kMicroSecondsPerSecond * 1000))"

definition readTimerfd :: "TimerQueue \<Rightarrow> TimerQueue" where
  "readTimerfd q = q\<lparr>armed := None\<rparr>"

definition resetTimerfd :: "Timestamp \<Rightarrow> TimerQueue \<Rightarrow> TimerQueue" where
  "resetTimerfd when q =
    (let (now, q) = ts_now q; newValue = howMuchTimeFromNow now when in q\<lparr>armed := Some (now, newValue)\<rparr>)"

definition tq_insert :: "timer_ptr \<Rightarrow> TimerQueue \<Rightarrow> (bool \<times> TimerQueue) res" where
  "tq_insert timer q =
    bindE (same_sizes q) (\<lambda>_.
    bindE (deref q timer) (\<lambda>tm.
    let when = microSecondsSinceEpoch (expiration tm);
        earliestChanged = (timers q = [] \<or> when < fst (hd (timers q))) in
    bindE (assertE ((when, timer) \<notin> set (timers q))) (\<lambda>_.
    bindE (assertE ((timer, tm_sequence tm) \<notin> activeTimers q)) (\<lambda>_.
    let q' = q\<lparr>timers := insort (when, timer) (timers q), activeTimers := insert (timer, tm_sequence tm) (activeTimers q)\<rparr> in
    bindE (same_sizes q') (\<lambda>_. Inr (earliestChanged, q'))))))"

definition addTimerInLoop :: "timer_ptr \<Rightarrow> TimerQueue \<Rightarrow> TimerQueue res" where
  "addTimerInLoop timer q =
    bindE (tq_insert timer q) (\<lambda>(earliestChanged, q).
    if earliestChanged then bindE (deref q timer) (\<lambda>tm. Inr (resetTimerfd (expiration tm) q)) else Inr q)"

definition cancelInLoop :: "TimerId \<Rightarrow> TimerQueue \<Rightarrow> TimerQueue res" where
  "cancelInLoop timerId q =
    bindE (same_sizes q) (\<lambda>_.
    bindE
      (if timerId \<in> activeTimers q
       then
         bindE (deref q (fst timerId)) (\<lambda>tm.
         let e = (microSecondsSinceEpoch (expiration tm), fst timerId) in
         bindE (assertE (e \<in> set (timers q))) (\<lambda>_.
         Inr ((delete_timer (fst timerId) (q\<lparr>timers := remove1 e (timers q)\<rparr>))\<lparr>activeTimers := activeTimers q - {timerId}\<rparr>)))
       else if callingExpiredTimers q then Inr (q\<lparr>cancelingTimers := insert timerId (cancelingTimers q)\<rparr>)
       else Inr q) (\<lambda>q.
    bindE (same_sizes q) (\<lambda>_. Inr q)))"

text \<open>
  The two calls of the interface. \<open>alloc\<close> is the address \<^verbatim>\<open>new\<close> returns; in the loop's thread \<^verbatim>\<open>runInLoop\<close> calls
  at once, from another thread it queues the call. \<open>addTimer_post\<close> is \<^verbatim>\<open>addTimer\<close> up to and with \<^verbatim>\<open>runInLoop\<close>; the
  sequence number of the result is read from the timer after that.
\<close>

definition addTimer_post :: "((timer_ptr \<rightharpoonup> Timer) \<Rightarrow> timer_ptr) \<Rightarrow> bool \<Rightarrow> timer_call list \<Rightarrow> Timestamp \<Rightarrow> rat
    \<Rightarrow> TimerQueue \<Rightarrow> (timer_ptr \<times> TimerQueue) res" where
  "addTimer_post alloc inLoop cb when itv q =
    (let timer = alloc (heap q);
         sequence = numCreated q + 1;
         q = q\<lparr>heap := (heap q)(timer \<mapsto> mkTimer cb when itv sequence), numCreated := sequence\<rparr> in
     bindE (if inLoop then addTimerInLoop timer q else Inr (q\<lparr>posted := posted q @ [AddInLoop timer]\<rparr>))
       (\<lambda>q. Inr (timer, q)))"

definition addTimer_id :: "timer_ptr \<Rightarrow> TimerQueue \<Rightarrow> TimerId res" where
  "addTimer_id timer q = bindE (deref q timer) (\<lambda>tm. Inr (timer, tm_sequence tm))"

definition addTimer :: "((timer_ptr \<rightharpoonup> Timer) \<Rightarrow> timer_ptr) \<Rightarrow> bool \<Rightarrow> timer_call list \<Rightarrow> Timestamp \<Rightarrow> rat
    \<Rightarrow> TimerQueue \<Rightarrow> (TimerId \<times> TimerQueue) res" where
  "addTimer alloc inLoop cb when itv q =
    bindE (addTimer_post alloc inLoop cb when itv q) (\<lambda>(timer, q).
    bindE (addTimer_id timer q) (\<lambda>timerId. Inr (timerId, q)))"

definition cancel :: "bool \<Rightarrow> TimerId \<Rightarrow> TimerQueue \<Rightarrow> TimerQueue res" where
  "cancel inLoop timerId q =
    (if inLoop then cancelInLoop timerId q else Inr (q\<lparr>posted := posted q @ [CancelInLoop timerId]\<rparr>))"

text \<open>The queued calls run one by one in the loop.\<close>

definition run_posted :: "TimerQueue \<Rightarrow> TimerQueue res" where
  "run_posted q = (case posted q of
       [] \<Rightarrow> Inr q
     | AddInLoop timer # rest \<Rightarrow> addTimerInLoop timer (q\<lparr>posted := rest\<rparr>)
     | CancelInLoop timerId # rest \<Rightarrow> cancelInLoop timerId (q\<lparr>posted := rest\<rparr>))"

section \<open>Expiry\<close>

fun erase_active :: "entry list \<Rightarrow> TimerQueue \<Rightarrow> TimerQueue res" where
  "erase_active [] q = Inr q"
| "erase_active (it # expired) q =
    bindE (deref q (snd it)) (\<lambda>tm.
    bindE (assertE ((snd it, tm_sequence tm) \<in> activeTimers q)) (\<lambda>_.
    erase_active expired (q\<lparr>activeTimers := activeTimers q - {(snd it, tm_sequence tm)}\<rparr>)))"

text \<open>The sentry has the greatest address, so it comes after every timer that expires at \<open>now\<close>.\<close>

definition getExpired :: "Timestamp \<Rightarrow> TimerQueue \<Rightarrow> (entry list \<times> TimerQueue) res" where
  "getExpired now q =
    bindE (same_sizes q) (\<lambda>_.
    let before_sentry = (\<lambda>e :: entry. fst e \<le> microSecondsSinceEpoch now);
        expired = takeWhile before_sentry (timers q);
        rest = dropWhile before_sentry (timers q) in
    bindE (assertE (rest = [] \<or> microSecondsSinceEpoch now < fst (hd rest))) (\<lambda>_.
    bindE (erase_active expired (q\<lparr>timers := rest\<rparr>)) (\<lambda>q.
    bindE (same_sizes q) (\<lambda>_. Inr (expired, q)))))"

text \<open>\<^verbatim>\<open>Timer::run\<close> calls the callback, whose calls come from the loop's thread.\<close>

definition timer_call :: "((timer_ptr \<rightharpoonup> Timer) \<Rightarrow> timer_ptr) \<Rightarrow> TimerQueue \<Rightarrow> timer_call \<Rightarrow> TimerQueue res" where
  "timer_call alloc q c = (case c of
       AddTimer when itv cb \<Rightarrow> bindE (addTimer alloc True cb when itv q) (\<lambda>(tid, q). Inr q)
     | CancelTimer timerId \<Rightarrow> cancel True timerId q)"

definition timer_run :: "((timer_ptr \<rightharpoonup> Timer) \<Rightarrow> timer_ptr) \<Rightarrow> TimerQueue \<Rightarrow> entry \<Rightarrow> TimerQueue res" where
  "timer_run alloc q it =
    bindE (deref q (snd it)) (\<lambda>tm.
    foldE (timer_call alloc) (q\<lparr>fired := fired q @ [it]\<rparr>) (tm_callback tm))"

definition reset_one :: "Timestamp \<Rightarrow> TimerQueue \<Rightarrow> entry \<Rightarrow> TimerQueue res" where
  "reset_one now q it =
    bindE (deref q (snd it)) (\<lambda>tm.
    if tm_repeat tm \<and> (snd it, tm_sequence tm) \<notin> cancelingTimers q
    then bindE (tq_insert (snd it) (q\<lparr>heap := (heap q)(snd it \<mapsto> restart now tm)\<rparr>)) (\<lambda>(_, q). Inr q)
    else Inr (delete_timer (snd it) q))"

definition reset :: "entry list \<Rightarrow> Timestamp \<Rightarrow> TimerQueue \<Rightarrow> TimerQueue res" where
  "reset expired now q =
    bindE (foldE (reset_one now) q expired) (\<lambda>q.
    bindE (if timers q \<noteq> [] then bindE (deref q (snd (hd (timers q)))) (\<lambda>tm. Inr (expiration tm)) else Inr invalid)
      (\<lambda>nextExpire. if ts_valid nextExpire then Inr (resetTimerfd nextExpire q) else Inr q))"

definition tq_handleRead :: "((timer_ptr \<rightharpoonup> Timer) \<Rightarrow> timer_ptr) \<Rightarrow> TimerQueue \<Rightarrow> TimerQueue res" where
  "tq_handleRead alloc q =
    (let (now, q) = ts_now q in
    bindE (getExpired now (readTimerfd q)) (\<lambda>(expired, q).
    bindE (foldE (timer_run alloc) (q\<lparr>callingExpiredTimers := True, cancelingTimers := {}\<rparr>) expired) (\<lambda>q.
    reset expired now (q\<lparr>callingExpiredTimers := False\<rparr>))))"

text \<open>The destructor deletes the timers that are left.\<close>

definition destroy :: "TimerQueue \<Rightarrow> TimerQueue" where
  "destroy q = foldl (\<lambda>q e. delete_timer (snd e) q) q (timers q)"

section \<open>The life of a queue\<close>

text \<open>
  A call of \<^verbatim>\<open>addTimer\<close> in the loop's thread is one step. In another thread it is two, since the loop may run the queued
  insertion, and fire and delete the timer, before the caller reads the sequence number.
\<close>

datatype timer_event =
    Add "timer_call list" Timestamp rat
  | AddPost "timer_call list" Timestamp rat
  | AddReturn timer_ptr
  | Cancel bool TimerId
  | RunPosted
  | Expire

definition timer_event :: "((timer_ptr \<rightharpoonup> Timer) \<Rightarrow> timer_ptr) \<Rightarrow> TimerQueue \<Rightarrow> timer_event \<Rightarrow> TimerQueue res" where
  "timer_event alloc q e = (case e of
       Add cb when itv \<Rightarrow> bindE (addTimer alloc True cb when itv q) (\<lambda>(tid, q). Inr q)
     | AddPost cb when itv \<Rightarrow> bindE (addTimer_post alloc False cb when itv q)
         (\<lambda>(timer, q). Inr (q\<lparr>returning := returning q @ [timer]\<rparr>))
     | AddReturn timer \<Rightarrow> bindE (addTimer_id timer q) (\<lambda>tid. Inr (q\<lparr>returning := remove1 timer (returning q)\<rparr>))
     | Cancel inLoop timerId \<Rightarrow> cancel inLoop timerId q
     | RunPosted \<Rightarrow> run_posted q
     | Expire \<Rightarrow> tq_handleRead alloc q)"

text \<open>
  The contract of \<^verbatim>\<open>addTimer\<close> in another thread: when it reads the sequence number, its timer has not been deleted.
\<close>

definition timer_allowed :: "TimerQueue \<Rightarrow> timer_event \<Rightarrow> bool" where
  "timer_allowed q e = (case e of AddReturn timer \<Rightarrow> timer \<in> set (returning q) \<and> heap q timer \<noteq> None | _ \<Rightarrow> True)"

fun timer_events_allowed :: "((timer_ptr \<rightharpoonup> Timer) \<Rightarrow> timer_ptr) \<Rightarrow> TimerQueue \<Rightarrow> timer_event list \<Rightarrow> bool" where
  "timer_events_allowed alloc q [] \<longleftrightarrow> True"
| "timer_events_allowed alloc q (e # es) \<longleftrightarrow> timer_allowed q e
    \<and> (case timer_event alloc q e of Inl _ \<Rightarrow> True | Inr q' \<Rightarrow> timer_events_allowed alloc q' es)"

section \<open>Invariant\<close>

text \<open>
  The two sets hold the same timers, each once and under its expiration; every timer in them is allocated, and so are the
  timers of \<open>X\<close>, which are not in the sets: those whose insertion is queued and those whose callbacks are being called.
\<close>

definition key :: "(timer_ptr \<rightharpoonup> Timer) \<Rightarrow> entry \<Rightarrow> TimerId" where
  "key h e = (snd e, tm_sequence (the (h (snd e))))"

definition timer_ok :: "Timer \<Rightarrow> bool" where
  "timer_ok tm \<longleftrightarrow> tm_repeat tm = (0 < interval tm)"

definition tq_inv :: "timer_ptr set \<Rightarrow> TimerQueue \<Rightarrow> bool" where
  "tq_inv X q \<longleftrightarrow> sorted (timers q) \<and> distinct (map snd (timers q)) \<and> finite X
    \<and> activeTimers q = key (heap q) ` set (timers q)
    \<and> (\<forall>e \<in> set (timers q). \<exists>tm. heap q (snd e) = Some tm \<and> microSecondsSinceEpoch (expiration tm) = fst e)
    \<and> dom (heap q) = X \<union> snd ` set (timers q) \<and> X \<inter> snd ` set (timers q) = {} \<and> (\<forall>t tm. heap q t = Some tm \<longrightarrow> timer_ok tm)"

text \<open>
  The descriptor is armed, so that it fires by \<open>when\<close>, or 100 microseconds after it was set if that is later: the
  shortest time span it is set to. It is never set to zero, which would disarm it. \<open>armed_ok\<close>: it is armed for the
  earliest timer, unless that timer satisfies \<open>P\<close>.
\<close>

definition armed_for :: "int \<Rightarrow> (Timestamp \<times> int \<times> int) option \<Rightarrow> bool" where
  "armed_for when a = (case a of None \<Rightarrow> False
     | Some (now, sec, nsec) \<Rightarrow> 0 < sec * 10 ^ 9 + nsec
         \<and> 1000 * microSecondsSinceEpoch now + sec * 10 ^ 9 + nsec \<le> 1000 * max when (microSecondsSinceEpoch now + 100))"

definition armed_ok :: "(int \<Rightarrow> bool) \<Rightarrow> TimerQueue \<Rightarrow> bool" where
  "armed_ok P q \<longleftrightarrow> timers q = [] \<or> P (fst (hd (timers q))) \<or> armed_for (fst (hd (timers q))) (armed q)"

text \<open>The clock never shows a time before 1970.\<close>

definition clock_ok :: "TimerQueue \<Rightarrow> bool" where
  "clock_ok q \<longleftrightarrow> (\<forall>n. ts_valid (clock q n))"

text \<open>What \<^verbatim>\<open>new\<close> promises: the address of no live timer.\<close>

definition fresh_alloc :: "((timer_ptr \<rightharpoonup> Timer) \<Rightarrow> timer_ptr) \<Rightarrow> bool" where
  "fresh_alloc alloc \<longleftrightarrow> (\<forall>h. finite (dom h) \<longrightarrow> h (alloc h) = None)"

text \<open>The parts of the state that only the loop itself changes.\<close>

definition frame :: "timer_ptr set \<Rightarrow> TimerQueue \<Rightarrow> TimerQueue \<Rightarrow> bool" where
  "frame X q q' \<longleftrightarrow> posted q' = posted q \<and> returning q' = returning q \<and> fired q' = fired q \<and> (clock_ok q \<longrightarrow> clock_ok q') \<and> callingExpiredTimers q' = callingExpiredTimers q
    \<and> cancelingTimers q \<subseteq> cancelingTimers q' \<and> (\<forall>t \<in> X. heap q' t = heap q t)"

lemma frame_refl [simp]: "frame X q q"
  by (simp add: frame_def)

lemma frame_trans: "frame X q q' \<Longrightarrow> frame X q' q'' \<Longrightarrow> frame X q q''"
  by (auto simp: frame_def)

lemma tq_inv_upd [simp]:
  "tq_inv X (q\<lparr>fired := f\<rparr>) = tq_inv X q" "tq_inv X (q\<lparr>posted := ps\<rparr>) = tq_inv X q"
  "tq_inv X (q\<lparr>armed := a\<rparr>) = tq_inv X q" "tq_inv X (q\<lparr>callingExpiredTimers := b\<rparr>) = tq_inv X q"
  "tq_inv X (q\<lparr>cancelingTimers := c\<rparr>) = tq_inv X q" "tq_inv X (q\<lparr>clock := k\<rparr>) = tq_inv X q"
  "tq_inv X (q\<lparr>returning := r\<rparr>) = tq_inv X q"
  by (simp_all add: tq_inv_def)

lemma armed_ok_upd [simp]:
  "armed_ok P (q\<lparr>fired := f\<rparr>) = armed_ok P q" "armed_ok P (q\<lparr>posted := ps\<rparr>) = armed_ok P q"
  "armed_ok P (q\<lparr>callingExpiredTimers := b\<rparr>) = armed_ok P q" "armed_ok P (q\<lparr>cancelingTimers := c\<rparr>) = armed_ok P q"
  "armed_ok P (q\<lparr>clock := k\<rparr>) = armed_ok P q" "armed_ok P (q\<lparr>returning := r\<rparr>) = armed_ok P q"
  by (simp_all add: armed_ok_def)

lemma clock_ok_upd [simp]:
  "clock_ok (q\<lparr>fired := f\<rparr>) = clock_ok q" "clock_ok (q\<lparr>posted := ps\<rparr>) = clock_ok q" "clock_ok (q\<lparr>armed := a\<rparr>) = clock_ok q"
  "clock_ok (q\<lparr>callingExpiredTimers := b\<rparr>) = clock_ok q" "clock_ok (q\<lparr>cancelingTimers := c\<rparr>) = clock_ok q"
  "clock_ok (q\<lparr>timers := ts\<rparr>) = clock_ok q" "clock_ok (q\<lparr>activeTimers := ts'\<rparr>) = clock_ok q" "clock_ok (q\<lparr>heap := h\<rparr>) = clock_ok q"
  "clock_ok (q\<lparr>numCreated := n\<rparr>) = clock_ok q" "clock_ok (q\<lparr>returning := r\<rparr>) = clock_ok q"
  by (simp_all add: clock_ok_def)

lemma clock_ok_tl [simp]: "clock_ok q \<Longrightarrow> clock_ok (q\<lparr>clock := (\<lambda>n. clock q (Suc n))\<rparr>)"
  by (simp add: clock_ok_def)

lemma armed_for_mono: "armed_for w a \<Longrightarrow> w \<le> w' \<Longrightarrow> armed_for w' a"
  by (auto simp: armed_for_def max_def split: option.splits if_splits)

lemma tq_inv_finite: "tq_inv X q \<Longrightarrow> finite (dom (heap q))"
  by (simp add: tq_inv_def)

lemma tq_inv_empty: "tq_inv {} (mkTimerQueue clk)"
  by (simp add: tq_inv_def mkTimerQueue_def)

lemma tq_inv_sizes:
  assumes "tq_inv X q"
  shows "same_sizes q = Inr ()"
proof -
  have "inj_on (key (heap q)) (set (timers q))"
    using assms by (auto simp: tq_inv_def inj_on_def key_def distinct_map)
  moreover have "distinct (timers q)" using assms by (simp add: tq_inv_def distinct_map)
  ultimately show ?thesis using assms by (simp add: same_sizes_def tq_inv_def card_image distinct_card)
qed

lemma tq_inv_live: "tq_inv X q \<Longrightarrow> t \<in> X \<Longrightarrow> \<exists>tm. heap q t = Some tm"
  by (auto simp: tq_inv_def)

lemma tq_inv_apart:
  assumes "tq_inv X q" "t \<in> X"
  shows "(e, t) \<notin> set (timers q) \<and> (t, s) \<notin> activeTimers q"
proof -
  have "t \<notin> snd ` set (timers q)" "activeTimers q = key (heap q) ` set (timers q)"
    using assms by (auto simp: tq_inv_def)
  then show ?thesis by (auto simp: key_def rev_image_eqI)
qed

lemma tq_inv_entry:
  assumes "tq_inv X q" "e \<in> set (timers q)"
  shows "\<exists>tm. heap q (snd e) = Some tm \<and> microSecondsSinceEpoch (expiration tm) = fst e"
  using assms by (simp add: tq_inv_def)

section \<open>The operations keep the invariant\<close>

text \<open>What \<^verbatim>\<open>timerfd_settime\<close> is given is a proper positive time span, rounded to nothing.\<close>

lemma howMuchTimeFromNow_span:
  "case howMuchTimeFromNow now w of (sec, nsec) \<Rightarrow> 0 \<le> sec \<and> 0 \<le> nsec \<and> nsec < 10 ^ 9
    \<and> sec * 10 ^ 9 + nsec = 1000 * max 100 (microSecondsSinceEpoch w - microSecondsSinceEpoch now)"
proof -
  define m where "m = max 100 (microSecondsSinceEpoch w - microSecondsSinceEpoch now)"
  have h: "howMuchTimeFromNow now w = (m div 1000000, m mod 1000000 * 1000)" "0 \<le> m"
    by (auto simp: howMuchTimeFromNow_def Let_def m_def max_def kMicroSecondsPerSecond_def)
  have "m div 1000000 * 1000000 + m mod 1000000 = m" by simp
  moreover have "a * 10 ^ 9 + b * 1000 = 1000 * m" if "a * 1000000 + b = m" for a b using that by simp
  ultimately have "m div 1000000 * 10 ^ 9 + m mod 1000000 * 1000 = 1000 * m" by blast
  moreover have "m mod 1000000 * 1000 < 10 ^ 9" using pos_mod_bound [of 1000000 m] by simp
  ultimately show ?thesis using h unfolding m_def [symmetric] by (simp add: pos_imp_zdiv_nonneg_iff)
qed

lemma resetTimerfd_armed:
  "armed_for (microSecondsSinceEpoch w) (armed (resetTimerfd w q))"
  using howMuchTimeFromNow_span [where now = "clock q 0" and w = w]
  by (auto simp: armed_for_def resetTimerfd_def ts_now_def max_def split: if_splits)

lemma resetTimerfd_upd:
  "\<exists>a. resetTimerfd w q = q\<lparr>clock := (\<lambda>n. clock q (Suc n)), armed := a\<rparr>"
  by (auto simp: resetTimerfd_def ts_now_def)

lemma tq_inv_insert:
  assumes "tq_inv X q" "t \<in> X" "heap q t = Some tm"
  shows "tq_inv (X - {t}) (q\<lparr>timers := insort (microSecondsSinceEpoch (expiration tm), t) (timers q),
    activeTimers := insert (t, tm_sequence tm) (activeTimers q)\<rparr>)"
proof -
  let ?e = "(microSecondsSinceEpoch (expiration tm), t)"
  have n: "t \<notin> snd ` set (timers q)" using assms(1,2) by (auto simp: tq_inv_def)
  then have "?e \<notin> set (timers q)" by force
  with n have "distinct (map snd (insort ?e (timers q)))"
    using assms(1) by (simp add: tq_inv_def distinct_map distinct_insort set_insort_key)
  with n show ?thesis using assms by (auto simp: tq_inv_def sorted_insort set_insort_key key_def)
qed

lemma tq_insert_ok:
  assumes "tq_inv X q" "t \<in> X" "heap q t = Some tm"
  shows "tq_insert t q =
    Inr (timers q = [] \<or> microSecondsSinceEpoch (expiration tm) < fst (hd (timers q)),
      q\<lparr>timers := insort (microSecondsSinceEpoch (expiration tm), t) (timers q),
        activeTimers := insert (t, tm_sequence tm) (activeTimers q)\<rparr>)"
  using tq_inv_sizes [OF assms(1)] tq_inv_sizes [OF tq_inv_insert [OF assms]] tq_inv_apart [OF assms(1,2)] assms(3)
  by (simp add: tq_insert_def deref_def Let_def)

lemma hd_insort_entry:
  assumes "xs \<noteq> []" "fst (hd xs) \<le> e"
  shows "fst (hd (insort (e, t) xs)) = fst (hd (xs :: entry list))"
  using assms by (cases xs) (auto simp: less_eq_prod_def)

lemma hd_insort_first: "xs = [] \<or> e < fst (hd xs) \<Longrightarrow> hd (insort (e, t) xs) = (e, t :: timer_ptr)"
  by (cases xs) (auto simp: less_eq_prod_def)

lemma insort_not_Nil [simp]: "insort x xs \<noteq> []"
  by (cases xs) auto

lemma addTimerInLoop_ok:
  assumes "tq_inv X q" "t \<in> X" "armed_ok P q"
  shows "\<exists>q'. addTimerInLoop t q = Inr q' \<and> tq_inv (X - {t}) q' \<and> armed_ok P q' \<and> frame UNIV q q'
    \<and> cancelingTimers q' = cancelingTimers q"
proof -
  obtain tm where tm: "heap q t = Some tm" using tq_inv_live [OF assms(1,2)] by blast
  note i = tq_insert_ok [OF assms(1,2) tm] and inv = tq_inv_insert [OF assms(1,2) tm]
  show ?thesis
  proof (cases "timers q = [] \<or> microSecondsSinceEpoch (expiration tm) < fst (hd (timers q))")
    case True
    let ?q = "q\<lparr>timers := insort (microSecondsSinceEpoch (expiration tm), t) (timers q),
        activeTimers := insert (t, tm_sequence tm) (activeTimers q)\<rparr>"
    obtain a where a: "resetTimerfd (expiration tm) ?q = ?q\<lparr>clock := (\<lambda>n. clock q (Suc n)), armed := a\<rparr>"
      using resetTimerfd_upd [of "expiration tm" ?q] by auto
    have "armed_for (microSecondsSinceEpoch (expiration tm)) a" using resetTimerfd_armed [of "expiration tm" ?q] a by simp
    then show ?thesis using True i inv tm a hd_insort_first [OF True, of t]
      by (simp add: addTimerInLoop_def deref_def armed_ok_def frame_def clock_ok_def)
  next
    case False
    then show ?thesis using i inv assms(3) hd_insort_entry [of "timers q" "microSecondsSinceEpoch (expiration tm)" t]
      by (simp add: addTimerInLoop_def armed_ok_def frame_def)
  qed
qed

lemma distinct_sndD: "distinct (map snd xs) \<Longrightarrow> e \<in> set xs \<Longrightarrow> e' \<in> set xs \<Longrightarrow> snd e' = snd e \<Longrightarrow> e' = e"
  by (auto simp: distinct_map inj_on_def)

lemma tq_inv_remove:
  assumes "tq_inv X q" "e \<in> set (timers q)"
  shows "tq_inv X (q\<lparr>timers := remove1 e (timers q), heap := (heap q)(snd e := None),
    activeTimers := activeTimers q - {key (heap q) e}\<rparr>)"
proof -
  have d: "distinct (map snd (timers q))" "distinct (timers q)" using assms(1) by (simp_all add: tq_inv_def distinct_map)
  have s: "set (remove1 e (timers q)) = set (timers q) - {e}" using d(2) by simp
  have o: "snd e' \<noteq> snd e" if "e' \<in> set (timers q) - {e}" for e' using distinct_sndD [OF d(1) assms(2)] that by blast
  have "activeTimers q - {key (heap q) e} = key (heap q) ` (set (timers q) - {e})"
    using assms o by (auto simp: tq_inv_def key_def)
  also have "\<dots> = key ((heap q)(snd e := None)) ` (set (timers q) - {e})"
    using o by (intro image_cong) (simp_all add: key_def)
  finally have a: "activeTimers q - {key (heap q) e} = key ((heap q)(snd e := None)) ` (set (timers q) - {e})" .
  have m: "distinct (map snd (remove1 e (timers q)))" using d s by (auto simp: distinct_map inj_on_def)
  have x: "snd e \<notin> X" using assms by (auto simp: tq_inv_def)
  have i: "snd ` set (remove1 e (timers q)) = snd ` set (timers q) - {snd e}"
    using inj_on_image_set_diff [of snd "set (timers q)" "set (timers q)" "{e}"] d(1) assms(2) by (simp add: s distinct_map)
  have h: "\<exists>tm. ((heap q)(snd e := None)) (snd e') = Some tm \<and> microSecondsSinceEpoch (expiration tm) = fst e'"
    if "e' \<in> set (timers q) - {e}" for e'
    using tq_inv_entry [OF assms(1), of e'] o [OF that] that by simp
  have g: "timer_ok tm" if "((heap q)(snd e := None)) t = Some tm" for t tm
    using assms(1) that by (auto simp: tq_inv_def split: if_splits)
  have j: "dom ((heap q)(snd e := None)) = X \<union> (snd ` set (timers q) - {snd e})" "X \<inter> (snd ` set (timers q) - {snd e}) = {}"
    using assms(1) x by (auto simp: tq_inv_def)
  have "sorted (remove1 e (timers q))" "finite X" using assms(1) sorted_remove1 [of "timers q" e] by (simp_all add: tq_inv_def)
  with a m s i h g j show ?thesis unfolding tq_inv_def by simp
qed

lemma sorted_hd_le: "sorted xs \<Longrightarrow> y \<in> set xs \<Longrightarrow> hd xs \<le> y"
  by (cases xs) auto

lemma armed_ok_sub:
  assumes "armed_ok P q" "sorted (timers q)" "set (timers q') \<subseteq> set (timers q)" "armed q' = armed q" "mono P"
  shows "armed_ok P q'"
proof (cases "timers q' = []")
  case False
  then have "hd (timers q') \<in> set (timers q)" using assms(3) by auto
  with assms(2) have "hd (timers q) \<le> hd (timers q')" "timers q \<noteq> []" by (auto intro: sorted_hd_le)
  moreover from this have "fst (hd (timers q)) \<le> fst (hd (timers q'))" by (auto simp: less_eq_prod_def)
  ultimately show ?thesis using assms(1,4) monoD [OF assms(5)] armed_for_mono [of "fst (hd (timers q))"] by (force simp: armed_ok_def)
qed (simp add: armed_ok_def)

lemma cancelInLoop_ok:
  assumes "tq_inv X q" "armed_ok P q" "mono P"
  shows "\<exists>q'. cancelInLoop i q = Inr q' \<and> tq_inv X q' \<and> armed_ok P q' \<and> frame X q q'
    \<and> set (timers q') \<subseteq> set (timers q) \<and> i \<notin> activeTimers q'
    \<and> (callingExpiredTimers q \<longrightarrow> (\<forall>k. fst k \<in> X \<longrightarrow> (k \<in> cancelingTimers q' \<longleftrightarrow> k \<in> cancelingTimers q \<or> k = i)))"
proof (cases "i \<in> activeTimers q")
  case True
  then obtain e where e: "e \<in> set (timers q)" "i = key (heap q) e" using assms(1) by (auto simp: tq_inv_def)
  then obtain tm where tm: "heap q (snd e) = Some tm" "microSecondsSinceEpoch (expiration tm) = fst e"
    using tq_inv_entry [OF assms(1)] by blast
  let ?q = "q\<lparr>timers := remove1 e (timers q), heap := (heap q)(snd e := None), activeTimers := activeTimers q - {i}\<rparr>"
  have inv: "tq_inv X ?q" using tq_inv_remove [OF assms(1) e(1)] e(2) by simp
  have x: "fst i = snd e" "snd e \<notin> X" using assms(1) e by (auto simp: tq_inv_def key_def)
  have ee: "(fst e, snd e) \<in> set (timers q)" using e(1) by simp
  have c: "cancelInLoop i q = Inr ?q"
    using True tq_inv_sizes [OF assms(1)] tq_inv_sizes [OF inv] tm ee x(1)
    by (simp add: cancelInLoop_def deref_def delete_timer_def Let_def)
  have "armed_ok P ?q"
    by (rule armed_ok_sub [OF assms(2)]) (use assms(1,3) in \<open>auto simp: tq_inv_def dest: set_remove1_subset [THEN subsetD]\<close>)
  with c inv x show ?thesis by (auto simp: frame_def dest: set_remove1_subset [THEN subsetD])
next
  case False
  then show ?thesis using assms(1,2) tq_inv_sizes [OF assms(1)]
    by (auto simp: cancelInLoop_def frame_def same_sizes_def)
qed

lemma tq_inv_alloc:
  assumes "tq_inv X q" "heap q t = None" "timer_ok tm"
  shows "tq_inv (insert t X) (q\<lparr>heap := (heap q)(t \<mapsto> tm), numCreated := n\<rparr>)"
proof -
  have n: "snd e \<noteq> t" if "e \<in> set (timers q)" for e using tq_inv_entry [OF assms(1) that] assms(2) by auto
  have "key (heap q) ` set (timers q) = key ((heap q)(t \<mapsto> tm)) ` set (timers q)"
    using n by (intro image_cong) (simp_all add: key_def)
  with assms(1,3) n show ?thesis by (auto simp: tq_inv_def)
qed

lemma mkTimer_ok: "timer_ok (mkTimer cb w itv n)" "timer_ok tm \<Longrightarrow> timer_ok (restart now tm)"
  by (simp_all add: timer_ok_def mkTimer_def restart_def)

lemma addTimer_ok:
  assumes "tq_inv X q" "armed_ok P q" "fresh_alloc alloc"
  shows "\<exists>q'. addTimer alloc True cb when itv q = Inr ((alloc (heap q), numCreated q + 1), q') \<and> tq_inv X q' \<and> armed_ok P q'
    \<and> frame X q q' \<and> cancelingTimers q' = cancelingTimers q"
proof -
  let ?t = "alloc (heap q)"
  let ?tm = "mkTimer cb when itv (numCreated q + 1)"
  let ?q = "q\<lparr>heap := (heap q)(?t \<mapsto> ?tm), numCreated := numCreated q + 1\<rparr>"
  have f: "heap q ?t = None" using tq_inv_finite [OF assms(1)] assms(3) by (simp add: fresh_alloc_def)
  then have x: "?t \<notin> X" using tq_inv_live [OF assms(1)] by fastforce
  have a: "armed_ok P ?q" using assms(2) by (simp add: armed_ok_def)
  obtain q' where q': "addTimerInLoop ?t ?q = Inr q'" "tq_inv (insert ?t X - {?t}) q'" "armed_ok P q'" "frame UNIV ?q q'"
    "cancelingTimers q' = cancelingTimers ?q"
    using addTimerInLoop_ok [OF tq_inv_alloc [OF assms(1) f mkTimer_ok(1)] insertI1 a] by blast
  have "frame X ?q q'" "frame X q ?q" using q'(4) x by (auto simp: frame_def)
  then have "frame X q q'" using frame_trans by blast
  moreover have "heap q' ?t = Some ?tm" using q'(4) by (simp add: frame_def)
  ultimately show ?thesis using q' x
    by (simp add: addTimer_def addTimer_post_def addTimer_id_def deref_def Let_def mkTimer_def)
qed

text \<open>A callback: its cancellations of timers that are being called are remembered.\<close>

lemma timer_call_ok:
  assumes "tq_inv X q" "armed_ok P q" "fresh_alloc alloc" "mono P"
  shows "\<exists>q'. timer_call alloc q c = Inr q' \<and> tq_inv X q' \<and> armed_ok P q' \<and> frame X q q'
    \<and> (callingExpiredTimers q \<longrightarrow> (\<forall>k. fst k \<in> X \<longrightarrow> (k \<in> cancelingTimers q' \<longleftrightarrow> k \<in> cancelingTimers q \<or> c = CancelTimer k)))"
proof (cases c)
  case (AddTimer w itv cb)
  with addTimer_ok [OF assms(1-3), of cb w itv] show ?thesis by (auto simp: timer_call_def)
next
  case (CancelTimer i)
  with cancelInLoop_ok [OF assms(1,2,4), of i] show ?thesis by (auto simp: timer_call_def cancel_def)
qed

lemma callback_ok:
  assumes "tq_inv X q" "armed_ok P q" "fresh_alloc alloc" "mono P"
  shows "\<exists>q'. foldE (timer_call alloc) q cs = Inr q' \<and> tq_inv X q' \<and> armed_ok P q' \<and> frame X q q'
    \<and> (callingExpiredTimers q \<longrightarrow> (\<forall>k. fst k \<in> X \<longrightarrow> (k \<in> cancelingTimers q' \<longleftrightarrow> k \<in> cancelingTimers q \<or> CancelTimer k \<in> set cs)))"
  using assms(1,2)
proof (induction cs arbitrary: q)
  case (Cons c cs)
  obtain q1 where q1: "timer_call alloc q c = Inr q1" "tq_inv X q1" "armed_ok P q1" "frame X q q1"
    "callingExpiredTimers q \<longrightarrow> (\<forall>k. fst k \<in> X \<longrightarrow> (k \<in> cancelingTimers q1 \<longleftrightarrow> k \<in> cancelingTimers q \<or> c = CancelTimer k))"
    using timer_call_ok [OF Cons.prems assms(3,4), of c] by blast
  obtain q2 where q2: "foldE (timer_call alloc) q1 cs = Inr q2" "tq_inv X q2" "armed_ok P q2" "frame X q1 q2"
    "callingExpiredTimers q1 \<longrightarrow> (\<forall>k. fst k \<in> X \<longrightarrow> (k \<in> cancelingTimers q2 \<longleftrightarrow> k \<in> cancelingTimers q1 \<or> CancelTimer k \<in> set cs))"
    using Cons.IH [OF q1(2,3)] by blast
  have c: "callingExpiredTimers q1 = callingExpiredTimers q" using q1(4) by (simp add: frame_def)
  have "callingExpiredTimers q \<longrightarrow> (\<forall>k. fst k \<in> X \<longrightarrow> (k \<in> cancelingTimers q2 \<longleftrightarrow> k \<in> cancelingTimers q \<or> CancelTimer k \<in> set (c # cs)))"
    using q1(5) q2(5) c by auto
  with q1(1) q2(1-3) frame_trans [OF q1(4) q2(4)] show ?case by auto
qed simp

lemma timer_run_ok:
  assumes "tq_inv X q" "armed_ok P q" "fresh_alloc alloc" "mono P" "heap q (snd e) = Some tm"
  shows "\<exists>q'. timer_run alloc q e = Inr q' \<and> tq_inv X q' \<and> armed_ok P q' \<and> frame X (q\<lparr>fired := fired q @ [e]\<rparr>) q'
    \<and> (callingExpiredTimers q \<longrightarrow> (\<forall>k. fst k \<in> X \<longrightarrow> (k \<in> cancelingTimers q' \<longleftrightarrow> k \<in> cancelingTimers q \<or> CancelTimer k \<in> set (tm_callback tm))))"
proof -
  have "tq_inv X (q\<lparr>fired := fired q @ [e]\<rparr>)" "armed_ok P (q\<lparr>fired := fired q @ [e]\<rparr>)"
    using assms(1,2) by simp_all
  from callback_ok [OF this assms(3,4), of "tm_callback tm"] show ?thesis
    using assms(5) by (simp add: timer_run_def deref_def)
qed

text \<open>The calls that the callbacks of the timers \<open>es\<close> make.\<close>

definition round_calls :: "(timer_ptr \<rightharpoonup> Timer) \<Rightarrow> entry list \<Rightarrow> timer_call list" where
  "round_calls h es = concat (map (\<lambda>e. tm_callback (the (h (snd e)))) es)"

lemma timer_runs_ok:
  assumes "tq_inv X q" "armed_ok P q" "fresh_alloc alloc" "mono P" "snd ` set es \<subseteq> X"
  shows "\<exists>q'. foldE (timer_run alloc) q es = Inr q' \<and> tq_inv X q' \<and> armed_ok P q' \<and> frame X (q\<lparr>fired := fired q @ es\<rparr>) q'
    \<and> (callingExpiredTimers q \<longrightarrow> (\<forall>k. fst k \<in> X \<longrightarrow> (k \<in> cancelingTimers q' \<longleftrightarrow> k \<in> cancelingTimers q \<or> CancelTimer k \<in> set (round_calls (heap q) es))))"
  using assms(1,2,5)
proof (induction es arbitrary: q)
  case (Cons e es)
  have "snd e \<in> X" using Cons.prems(3) by simp
  then obtain tm where tm: "heap q (snd e) = Some tm" using tq_inv_live [OF Cons.prems(1)] by blast
  obtain q1 where q1: "timer_run alloc q e = Inr q1" "tq_inv X q1" "armed_ok P q1" "frame X (q\<lparr>fired := fired q @ [e]\<rparr>) q1"
    "callingExpiredTimers q \<longrightarrow> (\<forall>k. fst k \<in> X \<longrightarrow> (k \<in> cancelingTimers q1 \<longleftrightarrow> k \<in> cancelingTimers q \<or> CancelTimer k \<in> set (tm_callback tm)))"
    using timer_run_ok [OF Cons.prems(1,2) assms(3,4) tm] by blast
  have es: "snd ` set es \<subseteq> X" using Cons.prems(3) by simp
  obtain q2 where q2: "foldE (timer_run alloc) q1 es = Inr q2" "tq_inv X q2" "armed_ok P q2"
    "frame X (q1\<lparr>fired := fired q1 @ es\<rparr>) q2"
    "callingExpiredTimers q1 \<longrightarrow> (\<forall>k. fst k \<in> X \<longrightarrow> (k \<in> cancelingTimers q2 \<longleftrightarrow> k \<in> cancelingTimers q1 \<or> CancelTimer k \<in> set (round_calls (heap q1) es)))"
    using Cons.IH [OF q1(2,3) es] by blast
  have f: "frame X (q\<lparr>fired := fired q @ e # es\<rparr>) q2" using q1(4) q2(4) by (auto simp: frame_def)
  have c: "callingExpiredTimers q1 = callingExpiredTimers q" "\<forall>t \<in> X. heap q1 t = heap q t"
    using q1(4) by (simp_all add: frame_def)
  have "map (\<lambda>e. tm_callback (the (heap q1 (snd e)))) es = map (\<lambda>e. tm_callback (the (heap q (snd e)))) es"
    using es c(2) by (intro map_cong) auto
  then have r: "round_calls (heap q) (e # es) = tm_callback tm @ round_calls (heap q1) es"
    unfolding round_calls_def by (simp only: list.map concat.simps tm option.sel)
  have "callingExpiredTimers q \<longrightarrow> (\<forall>k. fst k \<in> X \<longrightarrow> (k \<in> cancelingTimers q2 \<longleftrightarrow> k \<in> cancelingTimers q \<or> CancelTimer k \<in> set (round_calls (heap q) (e # es))))"
    using q1(5) q2(5) c(1) unfolding r by auto
  then show ?case using q1(1) q2(1-3) f by simp
qed (simp add: round_calls_def)

text \<open>\<^verbatim>\<open>getExpired\<close> takes out exactly the timers due.\<close>

lemma erase_active_ok:
  assumes "\<forall>e \<in> set es. heap q (snd e) \<noteq> None \<and> key (heap q) e \<in> activeTimers q" "distinct (map snd es)"
  shows "erase_active es q = Inr (q\<lparr>activeTimers := activeTimers q - key (heap q) ` set es\<rparr>)"
  using assms
proof (induction es arbitrary: q)
  case (Cons e es)
  let ?q = "q\<lparr>activeTimers := activeTimers q - {key (heap q) e}\<rparr>"
  have "\<forall>e' \<in> set es. heap ?q (snd e') \<noteq> None \<and> key (heap ?q) e' \<in> activeTimers ?q"
  proof
    fix e' assume e': "e' \<in> set es"
    have "snd e \<notin> snd ` set es" using Cons.prems(2) by simp
    then have "snd e' \<noteq> snd e" using e' by (metis imageI)
    then show "heap ?q (snd e') \<noteq> None \<and> key (heap ?q) e' \<in> activeTimers ?q"
      using Cons.prems(1) e' by (simp add: key_def)
  qed
  note * = Cons.IH [OF this]
  have s: "activeTimers q - {key (heap q) e} - key (heap q) ` set es = activeTimers q - insert (key (heap q) e) (key (heap q) ` set es)"
    by blast
  show ?case using * Cons.prems s by (auto simp: deref_def key_def)
qed simp

lemma tq_inv_split:
  assumes "tq_inv X q" "timers q = es @ rest"
  shows "tq_inv (X \<union> snd ` set es) (q\<lparr>timers := rest, activeTimers := activeTimers q - key (heap q) ` set es\<rparr>)"
proof -
  have d: "distinct (map snd (es @ rest))" using assms by (simp add: tq_inv_def)
  then have "key (heap q) ` set (es @ rest) - key (heap q) ` set es = key (heap q) ` set rest"
    by (force simp: key_def)
  moreover have "snd ` set es \<inter> snd ` set rest = {}" using d by auto
  moreover have "snd ` set es \<subseteq> dom (heap q)" using assms by (auto simp: tq_inv_def)
  ultimately show ?thesis using assms d by (auto simp: tq_inv_def sorted_append)
qed

lemma getExpired_ok:
  assumes "tq_inv X q"
  shows "\<exists>es q'. getExpired now q = Inr (es, q') \<and> es = takeWhile (\<lambda>e. fst e \<le> microSecondsSinceEpoch now) (timers q)
    \<and> q' = q\<lparr>timers := dropWhile (\<lambda>e. fst e \<le> microSecondsSinceEpoch now) (timers q),
            activeTimers := activeTimers q - key (heap q) ` set es\<rparr>
    \<and> tq_inv (X \<union> snd ` set es) q' \<and> armed_ok (\<lambda>e. microSecondsSinceEpoch now < e) q'"
proof -
  let ?p = "\<lambda>e :: entry. fst e \<le> microSecondsSinceEpoch now"
  define es where "es = takeWhile ?p (timers q)"
  define rest where "rest = dropWhile ?p (timers q)"
  have t: "timers q = es @ rest" by (simp add: es_def rest_def)
  have r: "rest = [] \<or> microSecondsSinceEpoch now < fst (hd rest)"
    using hd_dropWhile [of ?p "timers q"] unfolding rest_def not_le by blast
  note inv = tq_inv_split [OF assms t]
  let ?q = "q\<lparr>timers := rest, activeTimers := activeTimers q - key (heap q) ` set es\<rparr>"
  have "\<forall>e \<in> set es. heap q (snd e) \<noteq> None \<and> key (heap q) e \<in> activeTimers q" "distinct (map snd es)"
    using assms t by (auto simp: tq_inv_def)
  then have "erase_active es (q\<lparr>timers := rest\<rparr>) = Inr ?q"
    using erase_active_ok [of es "q\<lparr>timers := rest\<rparr>"] by simp
  then have "getExpired now q = Inr (es, ?q)"
    using tq_inv_sizes [OF assms] tq_inv_sizes [OF inv] r
    unfolding getExpired_def Let_def es_def [symmetric] rest_def [symmetric] by simp
  moreover have "armed_ok (\<lambda>e. microSecondsSinceEpoch now < e) ?q" using r by (auto simp: armed_ok_def)
  ultimately show ?thesis using inv by (auto simp: es_def rest_def)
qed

text \<open>\<^verbatim>\<open>reset\<close> puts back the repeating timers that were not cancelled and deletes the others.\<close>

lemma tq_inv_heap_upd:
  assumes "tq_inv X q" "t \<in> X" "timer_ok tm"
  shows "tq_inv X (q\<lparr>heap := (heap q)(t \<mapsto> tm)\<rparr>)" "tq_inv (X - {t}) (delete_timer t q)"
proof -
  have n: "snd e \<noteq> t" if "e \<in> set (timers q)" for e using assms that by (auto simp: tq_inv_def)
  then have k: "key (heap q) ` set (timers q) = key ((heap q)(t := v)) ` set (timers q)" for v
    by (intro image_cong) (simp_all add: key_def)
  show "tq_inv X (q\<lparr>heap := (heap q)(t \<mapsto> tm)\<rparr>)" using assms n k [of "Some tm"] by (auto simp: tq_inv_def)
  show "tq_inv (X - {t}) (delete_timer t q)" using assms n k [of None] by (auto simp: tq_inv_def delete_timer_def)
qed

lemma addTime_later: "0 < itv \<Longrightarrow> microSecondsSinceEpoch now \<le> microSecondsSinceEpoch (addTime now itv)"
  using rnd53_nonneg [of "itv * 1000000"]
  by (simp add: addTime_def mkTimestamp_def trunc_def to_double_def kMicroSecondsPerSecond_def not_less)

definition renewed :: "Timestamp \<Rightarrow> TimerQueue \<Rightarrow> entry list \<Rightarrow> entry set" where
  "renewed now q es = {(microSecondsSinceEpoch (addTime now (interval tm)), snd e) | e tm.
     e \<in> set es \<and> heap q (snd e) = Some tm \<and> tm_repeat tm \<and> (snd e, tm_sequence tm) \<notin> cancelingTimers q}"

lemma reset_one_ok:
  assumes "tq_inv X q" "snd e \<in> X" "armed_ok (\<lambda>e. 0 < e) q" "ts_valid now"
  shows "\<exists>q'. reset_one now q e = Inr q' \<and> tq_inv (X - {snd e}) q' \<and> armed_ok (\<lambda>e. 0 < e) q'
    \<and> frame (- {snd e}) q q' \<and> cancelingTimers q' = cancelingTimers q \<and> set (timers q') = set (timers q) \<union> renewed now q [e]"
proof -
  obtain tm where tm: "heap q (snd e) = Some tm" using tq_inv_live [OF assms(1,2)] by blast
  show ?thesis
  proof (cases "tm_repeat tm \<and> (snd e, tm_sequence tm) \<notin> cancelingTimers q")
    case True
    let ?q = "q\<lparr>heap := (heap q)(snd e \<mapsto> restart now tm)\<rparr>"
    let ?w = "microSecondsSinceEpoch (addTime now (interval tm))"
    have r: "restart now tm = tm\<lparr>expiration := addTime now (interval tm)\<rparr>" using True by (simp add: restart_def)
    have ok: "timer_ok tm" using assms(1) tm by (auto simp: tq_inv_def)
    note inv = tq_inv_heap_upd(1) [OF assms(1,2) mkTimer_ok(2) [OF ok]]
    have h: "heap ?q (snd e) = Some (restart now tm)" by simp
    note i = tq_insert_ok [OF inv assms(2) h] and inv' = tq_inv_insert [OF inv assms(2) h]
    have n: "renewed now q [e] = {(?w, snd e)}" using True tm by (cases e) (auto simp: renewed_def)
    have "0 < ?w" using ok addTime_later [of "interval tm" now] assms(4) True by (simp add: ts_valid_def timer_ok_def)
    then have "armed_ok (\<lambda>e. 0 < e) (?q\<lparr>timers := insort (?w, snd e) (timers q), activeTimers := A\<rparr>)" for A
      using assms(3) hd_insort_first [of "timers q" ?w "snd e"] hd_insort_entry [of "timers q" ?w "snd e"]
      by (cases "timers q = [] \<or> ?w < fst (hd (timers q))") (auto simp: armed_ok_def)
    then show ?thesis using True tm i inv' r n by (simp add: reset_one_def deref_def frame_def set_insort_key)
  next
    case False
    have ok: "timer_ok tm" using assms(1) tm by (auto simp: tq_inv_def)
    with False show ?thesis using tm tq_inv_heap_upd(2) [OF assms(1,2) ok] assms(3)
      by (auto simp: reset_one_def deref_def frame_def renewed_def delete_timer_def armed_ok_def)
  qed
qed

lemma renewed_Cons:
  assumes "snd e \<notin> snd ` set es" "frame (- {snd e}) q q'" "cancelingTimers q' = cancelingTimers q"
  shows "renewed now q [e] \<union> renewed now q' es = renewed now q (e # es)"
proof -
  have "heap q' (snd e') = heap q (snd e')" if "e' \<in> set es" for e'
  proof -
    have "snd e' \<noteq> snd e" using assms(1) imageI [OF that, of snd] by metis
    then show ?thesis using assms(2) by (simp add: frame_def)
  qed
  then have "renewed now q' es = renewed now q es" using assms(3) unfolding renewed_def by (metis (no_types, lifting))
  then show ?thesis by (auto simp: renewed_def)
qed

lemma reset_fold_ok:
  assumes "tq_inv X q" "snd ` set es \<subseteq> X" "distinct (map snd es)" "armed_ok (\<lambda>e. 0 < e) q" "ts_valid now"
  shows "\<exists>q'. foldE (reset_one now) q es = Inr q' \<and> tq_inv (X - snd ` set es) q' \<and> armed_ok (\<lambda>e. 0 < e) q'
    \<and> frame {} q q' \<and> cancelingTimers q' = cancelingTimers q \<and> set (timers q') = set (timers q) \<union> renewed now q es"
  using assms(1-4)
proof (induction es arbitrary: X q)
  case (Cons e es)
  then have e: "snd e \<in> X" "snd e \<notin> snd ` set es" by simp_all
  obtain q1 where q1: "reset_one now q e = Inr q1" "tq_inv (X - {snd e}) q1" "armed_ok (\<lambda>e. 0 < e) q1"
    "frame (- {snd e}) q q1" "cancelingTimers q1 = cancelingTimers q" "set (timers q1) = set (timers q) \<union> renewed now q [e]"
    using reset_one_ok [OF Cons.prems(1) e(1) Cons.prems(4) assms(5)] by blast
  have es: "snd ` set es \<subseteq> X - {snd e}" "distinct (map snd es)" using Cons.prems(2,3) e(2) by (simp_all add: subset_Diff_insert)
  obtain q2 where q2: "foldE (reset_one now) q1 es = Inr q2" "tq_inv (X - {snd e} - snd ` set es) q2"
    "armed_ok (\<lambda>e. 0 < e) q2" "frame {} q1 q2" "cancelingTimers q2 = cancelingTimers q1"
    "set (timers q2) = set (timers q1) \<union> renewed now q1 es"
    using Cons.IH [OF q1(2) es q1(3)] by blast
  have x: "X - {snd e} - snd ` set es = X - snd ` set (e # es)" by auto
  have f: "frame {} q q2" using q1(4) q2(4) by (auto simp: frame_def)
  have "set (timers q2) = set (timers q) \<union> renewed now q (e # es)"
    using q2(6) q1(6) renewed_Cons [OF e(2) q1(4,5)] by blast
  with q1(1,5) q2(1,2,3,5) x f show ?case by simp
qed (simp_all add: renewed_def)

lemma reset_ok:
  assumes "tq_inv X q" "snd ` set es \<subseteq> X" "distinct (map snd es)" "armed_ok (\<lambda>e. 0 < e) q" "ts_valid now"
  shows "\<exists>q'. reset es now q = Inr q' \<and> tq_inv (X - snd ` set es) q' \<and> armed_ok (\<lambda>_. False) q'
    \<and> frame {} q q' \<and> cancelingTimers q' = cancelingTimers q \<and> set (timers q') = set (timers q) \<union> renewed now q es"
proof -
  obtain q1 where q1: "foldE (reset_one now) q es = Inr q1" "tq_inv (X - snd ` set es) q1" "armed_ok (\<lambda>e. 0 < e) q1"
    "frame {} q q1" "cancelingTimers q1 = cancelingTimers q" "set (timers q1) = set (timers q) \<union> renewed now q es"
    using reset_fold_ok [OF assms] by blast
  show ?thesis
  proof (cases "timers q1")
    case Nil
    then show ?thesis using q1 by (simp add: reset_def ts_valid_def invalid_def mkTimestamp_def armed_ok_def)
  next
    case (Cons e rest)
    then have "e \<in> set (timers q1)" by simp
    from tq_inv_entry [OF q1(2) this] obtain tm
      where tm: "heap q1 (snd e) = Some tm" "microSecondsSinceEpoch (expiration tm) = fst e" by blast
    show ?thesis
    proof (cases "0 < fst e")
      case True
      obtain a where a: "resetTimerfd (expiration tm) q1 = q1\<lparr>clock := (\<lambda>n. clock q1 (Suc n)), armed := a\<rparr>"
        using resetTimerfd_upd by blast
      let ?q = "q1\<lparr>clock := (\<lambda>n. clock q1 (Suc n)), armed := a\<rparr>"
      have "reset es now q = Inr ?q"
        using q1(1) Cons tm True a by (simp add: reset_def deref_def ts_valid_def)
      moreover have "armed_ok (\<lambda>_. False) ?q"
        using Cons tm resetTimerfd_armed [of "expiration tm" q1] a by (simp add: armed_ok_def)
      moreover have "frame {} q ?q" using q1(4) by (simp add: frame_def clock_ok_def)
      ultimately show ?thesis using q1(2,5,6) by simp
    next
      case False
      then have "reset es now q = Inr q1" using q1(1) Cons tm by (simp add: reset_def deref_def ts_valid_def)
      moreover have "armed_ok (\<lambda>_. False) q1" using q1(3) Cons False by (simp add: armed_ok_def)
      ultimately show ?thesis using q1 by simp
    qed
  qed
qed

text \<open>The handler of the timer descriptor as a whole.\<close>

definition due :: "Timestamp \<Rightarrow> TimerQueue \<Rightarrow> entry list" where
  "due now q = takeWhile (\<lambda>e. fst e \<le> microSecondsSinceEpoch now) (timers q)"

lemma due_filter:
  assumes "sorted (timers q)"
  shows "due now q = filter (\<lambda>e. fst e \<le> microSecondsSinceEpoch now) (timers q)"
proof -
  have "sorted es \<Longrightarrow> takeWhile (\<lambda>e. fst e \<le> k) es = filter (\<lambda>e. fst e \<le> k) es" for es :: "entry list" and k
  proof (induction es)
    case (Cons e es)
    have "\<not> fst e' \<le> k" if "\<not> fst e \<le> k" "e' \<in> set es" for e' using Cons.prems that by (force simp: less_eq_prod_def)
    then have "filter (\<lambda>e. fst e \<le> k) es = []" if "\<not> fst e \<le> k" using that by (simp add: filter_empty_conv)
    with Cons show ?case by simp
  qed simp
  with assms show ?thesis by (simp add: due_def)
qed

lemma handleRead_ok:
  assumes "tq_inv X q" "fresh_alloc alloc" "clock_ok q"
  shows "\<exists>q'. tq_handleRead alloc q = Inr q' \<and> tq_inv X q' \<and> armed_ok (\<lambda>_. False) q' \<and> clock_ok q'
    \<and> posted q' = posted q \<and> returning q' = returning q \<and> fired q' = fired q @ due (clock q 0) q \<and> \<not> callingExpiredTimers q'
    \<and> (\<forall>e \<in> set (due (clock q 0) q). \<forall>tm. heap q (snd e) = Some tm \<longrightarrow>
        (\<forall>w. (w, snd e) \<in> set (timers q') \<longleftrightarrow> tm_repeat tm
          \<and> CancelTimer (snd e, tm_sequence tm) \<notin> set (round_calls (heap q) (due (clock q 0) q))
          \<and> w = microSecondsSinceEpoch (addTime (clock q 0) (interval tm))))"
proof -
  define now where "now = clock q 0"
  define es where "es = due now q"
  have v: "ts_valid now" using assms(3) by (simp add: clock_ok_def now_def)
  let ?q0 = "readTimerfd (q\<lparr>clock := (\<lambda>n. clock q (Suc n))\<rparr>)"
  have inv: "tq_inv X ?q0" using assms(1) by (simp add: readTimerfd_def)
  obtain q1 where q1: "getExpired now ?q0 = Inr (es, q1)" "tq_inv (X \<union> snd ` set es) q1"
    "armed_ok (\<lambda>e. microSecondsSinceEpoch now < e) q1" "heap q1 = heap q" "posted q1 = posted q" "fired q1 = fired q"
    "returning q1 = returning q" "clock_ok q1"
    using getExpired_ok [OF inv, of now] assms(3) by (auto simp: readTimerfd_def es_def due_def)
  let ?q1 = "q1\<lparr>callingExpiredTimers := True, cancelingTimers := {}\<rparr>"
  let ?X = "X \<union> snd ` set es"
  have m: "mono (\<lambda>e. microSecondsSinceEpoch now < e)" by (auto simp: mono_def)
  obtain q2 where q2: "foldE (timer_run alloc) ?q1 es = Inr q2" "tq_inv ?X q2" "armed_ok (\<lambda>e. microSecondsSinceEpoch now < e) q2"
    "frame ?X (?q1\<lparr>fired := fired q1 @ es\<rparr>) q2"
    "\<forall>k. fst k \<in> ?X \<longrightarrow> (k \<in> cancelingTimers q2 \<longleftrightarrow> CancelTimer k \<in> set (round_calls (heap q) es))"
    using timer_runs_ok [of ?X ?q1 "\<lambda>e. microSecondsSinceEpoch now < e" alloc es] q1 assms(2) m by auto
  have d: "distinct (map snd es)" using assms(1) unfolding es_def due_def tq_inv_def
    by (auto simp: distinct_map distinct_takeWhile inj_on_def dest: set_takeWhileD)
  have a: "armed_ok (\<lambda>e. 0 < e) q2" using q2(3) v by (auto simp: armed_ok_def ts_valid_def)
  obtain q' where q': "reset es now (q2\<lparr>callingExpiredTimers := False\<rparr>) = Inr q'" "tq_inv (?X - snd ` set es) q'"
    "armed_ok (\<lambda>_. False) q'" "frame {} (q2\<lparr>callingExpiredTimers := False\<rparr>) q'"
    "set (timers q') = set (timers q2) \<union> renewed now q2 es"
    using reset_ok [of ?X "q2\<lparr>callingExpiredTimers := False\<rparr>" es now] q2(2) d a v
    by (auto simp: renewed_def)
  have h: "heap q2 (snd e) = heap q (snd e)" if "e \<in> set es" for e using q2(4) q1(4) that by (simp add: frame_def)
  have n: "(w, snd e) \<in> set (timers q') \<longleftrightarrow> tm_repeat tm \<and> CancelTimer (snd e, tm_sequence tm) \<notin> set (round_calls (heap q) es)
      \<and> w = microSecondsSinceEpoch (addTime now (interval tm))" if e: "e \<in> set es" "heap q (snd e) = Some tm" for e tm w
  proof -
    have x: "snd e \<in> ?X" using e(1) by simp
    then have "(w, snd e) \<notin> set (timers q2)" using tq_inv_apart [OF q2(2)] by blast
    moreover have "(w, snd e) \<in> renewed now q2 es \<longleftrightarrow> tm_repeat tm \<and> (snd e, tm_sequence tm) \<notin> cancelingTimers q2
      \<and> w = microSecondsSinceEpoch (addTime now (interval tm))"
      using e h [OF e(1)] by (auto simp: renewed_def intro: exI [of _ "fst e"])
    ultimately show ?thesis using q'(5) q2(5) x by auto
  qed
  have "set es \<subseteq> set (timers q)" by (auto simp: es_def due_def dest: set_takeWhileD)
  then have "snd ` set es \<inter> X = {}" using assms(1) unfolding tq_inv_def by blast
  then have x: "?X - snd ` set es = X" by blast
  have f: "clock_ok q'" "posted q' = posted q" "returning q' = returning q" "fired q' = fired q @ es" "\<not> callingExpiredTimers q'"
    using q'(4) q2(4) q1(5-8) by (simp_all add: frame_def)
  have r: "tq_handleRead alloc q = Inr q'" using q1(1) q2(1) q'(1) by (simp add: tq_handleRead_def ts_now_def now_def)
  have i: "tq_inv X q'" using q'(2) unfolding x .
  show ?thesis unfolding now_def [symmetric] es_def [symmetric]
    by (intro exI [of _ q'] conjI ballI allI impI r i q'(3) f n)
qed

section \<open>Sequences of events\<close>

fun adds :: "posted_call list \<Rightarrow> timer_ptr list" where
  "adds [] = []"
| "adds (AddInLoop t # ps) = t # adds ps"
| "adds (CancelInLoop i # ps) = adds ps"

lemma adds_append [simp]: "adds (ps @ rs) = adds ps @ adds rs"
  by (induction ps rule: adds.induct) simp_all

definition queue_ok :: "TimerQueue \<Rightarrow> bool" where
  "queue_ok q \<longleftrightarrow> tq_inv (set (adds (posted q))) q \<and> distinct (adds (posted q)) \<and> armed_ok (\<lambda>_. False) q \<and> clock_ok q"

lemma mono_False: "mono (\<lambda>_ :: int. False)"
  by (simp add: mono_def)

lemma add_event_ok:
  assumes "queue_ok q" "fresh_alloc alloc"
  shows "\<exists>i q'. addTimer alloc True cb w itv q = Inr (i, q') \<and> queue_ok q'"
proof -
  have "frame X q q' \<Longrightarrow> posted q' = posted q \<and> (clock_ok q \<longrightarrow> clock_ok q')" for X q' by (simp add: frame_def)
  then show ?thesis using addTimer_ok [of _ q "\<lambda>_. False" alloc cb w itv] assms unfolding queue_ok_def by (metis (full_types))
qed

lemma post_event_ok:
  assumes "queue_ok q" "fresh_alloc alloc"
  shows "\<exists>t q'. addTimer_post alloc False cb w itv q = Inr (t, q') \<and> queue_ok q'"
proof -
  let ?t = "alloc (heap q)"
  have inv: "tq_inv (set (adds (posted q))) q" using assms(1) by (simp add: queue_ok_def)
  have f: "heap q ?t = None" using tq_inv_finite [OF inv] assms(2) by (simp add: fresh_alloc_def)
  have x: "?t \<notin> set (adds (posted q))"
  proof
    assume "?t \<in> set (adds (posted q))"
    from tq_inv_live [OF inv this] f show False by simp
  qed
  have "armed_ok P (q\<lparr>heap := h, numCreated := n\<rparr>) = armed_ok P q" for P h n by (simp add: armed_ok_def)
  then show ?thesis using assms(1) x
      tq_inv_alloc [OF inv f mkTimer_ok(1) [of cb w itv "numCreated q + 1"], of "numCreated q + 1"]
    by (simp add: addTimer_post_def Let_def queue_ok_def)
qed

lemma queue_ok_returning [simp]: "queue_ok (q\<lparr>returning := r\<rparr>) = queue_ok q"
  by (simp add: queue_ok_def)

lemma cancel_event_ok: "queue_ok q \<Longrightarrow> \<exists>q'. cancel inLoop i q = Inr q' \<and> queue_ok q'"
  using cancelInLoop_ok [of "set (adds (posted q))" q "\<lambda>_. False" i] mono_False
  by (cases inLoop) (auto simp: queue_ok_def cancel_def frame_def)

lemma posted_event_ok:
  assumes "queue_ok q"
  shows "\<exists>q'. run_posted q = Inr q' \<and> queue_ok q'"
proof (cases "posted q")
  case Nil
  with assms show ?thesis by (simp add: run_posted_def)
next
  case (Cons c ps)
  show ?thesis
  proof (cases c)
    case (AddInLoop t)
    have q: "tq_inv (insert t (set (adds ps))) (q\<lparr>posted := ps\<rparr>)" "armed_ok (\<lambda>_. False) (q\<lparr>posted := ps\<rparr>)" "distinct (t # adds ps)"
      "clock_ok q"
      using assms Cons AddInLoop by (simp_all add: queue_ok_def)
    from addTimerInLoop_ok [OF q(1) insertI1 q(2)] q(3,4) Cons AddInLoop show ?thesis
      by (auto simp: run_posted_def queue_ok_def frame_def)
  next
    case (CancelInLoop i)
    with assms Cons have q: "tq_inv (set (adds ps)) (q\<lparr>posted := ps\<rparr>)" "armed_ok (\<lambda>_. False) (q\<lparr>posted := ps\<rparr>)" "distinct (adds ps)"
      "clock_ok q"
      by (simp_all add: queue_ok_def)
    from cancelInLoop_ok [OF q(1,2) mono_False, of i] q(3,4) Cons CancelInLoop show ?thesis
      by (auto simp: run_posted_def queue_ok_def frame_def)
  qed
qed

lemma timer_event_ok:
  assumes "queue_ok q" "fresh_alloc alloc" "timer_allowed q e"
  shows "\<exists>q'. timer_event alloc q e = Inr q' \<and> queue_ok q'"
proof (cases e)
  case (Add cb w itv)
  then show ?thesis using add_event_ok [OF assms(1,2), of cb w itv] by (auto simp: timer_event_def)
next
  case (AddPost cb w itv)
  then show ?thesis using post_event_ok [OF assms(1,2), of cb w itv] by (auto simp: timer_event_def)
next
  case (AddReturn t)
  then show ?thesis using assms(1,3) by (auto simp: timer_event_def timer_allowed_def addTimer_id_def deref_def)
next
  case (Cancel inLoop i)
  then show ?thesis using cancel_event_ok [OF assms(1)] by (simp add: timer_event_def)
next
  case RunPosted
  then show ?thesis using posted_event_ok [OF assms(1)] by (simp add: timer_event_def)
next
  case Expire
  have v: "clock_ok q" "tq_inv (set (adds (posted q))) q" using assms by (simp_all add: queue_ok_def)
  from handleRead_ok [OF v(2) assms(2) v(1)] obtain q' where "tq_handleRead alloc q = Inr q'"
    "tq_inv (set (adds (posted q))) q'" "armed_ok (\<lambda>_. False) q'" "posted q' = posted q" "clock_ok q'" by blast
  with Expire assms(1) show ?thesis by (simp add: timer_event_def queue_ok_def)
qed

lemma timer_events_ok:
  assumes "queue_ok q" "fresh_alloc alloc" "timer_events_allowed alloc q es"
  shows "\<exists>q'. foldE (timer_event alloc) q es = Inr q' \<and> queue_ok q'"
  using assms(1,3)
proof (induction es arbitrary: q)
  case (Cons e es)
  then obtain q1 where "timer_event alloc q e = Inr q1" "queue_ok q1" using timer_event_ok [OF Cons.prems(1) assms(2)] by auto
  with Cons show ?case by auto
qed simp

lemma queue_ok_empty: "(\<And>n. ts_valid (clk n)) \<Longrightarrow> queue_ok (mkTimerQueue clk)"
  using tq_inv_empty by (simp add: queue_ok_def mkTimerQueue_def armed_ok_def clock_ok_def)

text \<open>An allocator that always reuses the lowest free address, and a clock that advances by a microsecond per reading.\<close>

definition lowest_free :: "(timer_ptr \<rightharpoonup> Timer) \<Rightarrow> timer_ptr" where
  "lowest_free h = (LEAST t. h t = None)"

lemma lowest_free_fresh: "fresh_alloc lowest_free"
  unfolding fresh_alloc_def lowest_free_def
proof (intro allI impI)
  fix h :: "timer_ptr \<rightharpoonup> Timer" assume "finite (dom h)"
  then obtain t where "t \<notin> dom h" using ex_new_if_finite infinite_UNIV_nat by blast
  then have "h t = None" by auto
  then show "h (LEAST t. h t = None) = None" by (rule LeastI)
qed

lemma lowest_free_empty: "lowest_free Map.empty = 0"
  by (simp add: lowest_free_def)

definition ticks :: "nat \<Rightarrow> Timestamp" where
  "ticks n = mkTimestamp (int n + 6)"

lemma ticks_valid: "ts_valid (ticks n)"
  by (simp add: ticks_def ts_valid_def mkTimestamp_def)

lemmas timer_defs = timer_event_def addTimer_def addTimer_post_def addTimer_id_def addTimerInLoop_def tq_insert_def
  run_posted_def same_sizes_def deref_def resetTimerfd_def ts_now_def howMuchTimeFromNow_def kMicroSecondsPerSecond_def
  mkTimer_def mkTimestamp_def mkTimerQueue_def ticks_def Let_def

text \<open>
  Without the contract of \<open>timer_allowed\<close>: a timer added from another thread fires and is deleted before the caller reads
  its sequence number for the \<^verbatim>\<open>TimerId\<close> to return.
\<close>

definition fast_timer :: "timer_event list" where
  "fast_timer = [AddPost [] (mkTimestamp 5) 0, RunPosted, Expire]"

lemma addTimer_use_after_free:
  "foldE (timer_event lowest_free) (mkTimerQueue ticks) (fast_timer @ [AddReturn 0]) = Inl OutOfBounds"
proof -
  have "\<exists>q. foldE (timer_event lowest_free) (mkTimerQueue ticks) fast_timer = Inr q \<and> heap q = Map.empty"
    by (simp add: fast_timer_def timer_defs lowest_free_empty tq_handleRead_def getExpired_def readTimerfd_def timer_run_def
        reset_def reset_one_def delete_timer_def invalid_def ts_valid_def)
  then obtain q where q: "foldE (timer_event lowest_free) (mkTimerQueue ticks) fast_timer = Inr q" "heap q = Map.empty" by blast
  have "timer_event lowest_free q (AddReturn 0) = Inl OutOfBounds" using q(2) by (simp add: timer_event_def addTimer_id_def deref_def)
  with q(1) show ?thesis by (simp add: foldE_append)
qed

section \<open>Properties\<close>

text \<open>
  C5: Take any sequence of calls from any thread, expiries and callbacks that add or cancel timers (themselves
  included), an allocator that may reuse the address of a deleted timer, and a clock that never shows a time before 1970.
  Provided that a call of \<^verbatim>\<open>addTimer\<close> in another thread reads the sequence number for its result before its timer has
  been deleted, no assertion of \<^verbatim>\<open>TimerQueue\<close> fails and no deleted timer is used. The two sets always hold the same
  timers, every allocated timer is in them or waits to be added, so none is lost or leaked, and the descriptor is armed
  with a positive time span, to fire by the earliest expiration or 100 microseconds after it was set, if that is later.
\<close>

theorem timer_queue_invariant:
  assumes "fresh_alloc alloc" "\<And>n. ts_valid (clk n)" "timer_events_allowed alloc (mkTimerQueue clk) es"
  shows "\<exists>q. foldE (timer_event alloc) (mkTimerQueue clk) es = Inr q
    \<and> sorted (timers q) \<and> activeTimers q = key (heap q) ` set (timers q) \<and> card (activeTimers q) = length (timers q)
    \<and> dom (heap q) = set (adds (posted q)) \<union> snd ` set (timers q)
    \<and> (timers q = [] \<or> armed_for (fst (hd (timers q))) (armed q))"
proof -
  obtain q where q: "foldE (timer_event alloc) (mkTimerQueue clk) es = Inr q" "queue_ok q"
    using timer_events_ok [OF queue_ok_empty [OF assms(2)] assms(1,3)] by blast
  then have inv: "tq_inv (set (adds (posted q))) q" by (simp add: queue_ok_def)
  have "card (activeTimers q) = length (timers q)" using tq_inv_sizes [OF inv] by (simp add: same_sizes_def)
  with q inv show ?thesis by (auto simp: tq_inv_def queue_ok_def armed_ok_def)
qed

text \<open>A timer that cancels itself, and one added from another thread that reads its sequence number after the insertion.\<close>

definition sample_events :: "timer_event list" where
  "sample_events = [AddPost [] (mkTimestamp 9) 0, RunPosted, AddReturn 0, Cancel False (0, 1), RunPosted]"

lemma sample_allowed: "timer_events_allowed lowest_free (mkTimerQueue ticks) sample_events"
  by (simp add: sample_events_def timer_allowed_def timer_defs lowest_free_empty cancel_def split: sum.split)

theorem timer_queue_invariant_witness:
  "\<exists>q. foldE (timer_event lowest_free) (mkTimerQueue ticks) sample_events = Inr q
    \<and> card (activeTimers q) = length (timers q)"
  using timer_queue_invariant [OF lowest_free_fresh ticks_valid sample_allowed] by blast

text \<open>
  C15: When the descriptor fires at \<open>now\<close>, in any state reached as in the previous property, the
  callbacks of exactly the timers due are called, in the order of their expiration. Afterwards a due timer is in the queue
  again iff it repeats and no callback of this round cancelled it, at \<^verbatim>\<open>addTime(now, interval)\<close>; the cancellation by any
  callback of the round counts, the timer's own included, and even if the timer's callback has already been called.
\<close>

theorem handleRead_fires_due:
  assumes "fresh_alloc alloc" "\<And>n. ts_valid (clk n)" "timer_events_allowed alloc (mkTimerQueue clk) es"
    and "foldE (timer_event alloc) (mkTimerQueue clk) es = Inr q" "now = clock q 0"
  shows "\<exists>q'. tq_handleRead alloc q = Inr q' \<and> fired q' = fired q @ due now q
    \<and> set (due now q) = {e \<in> set (timers q). fst e \<le> microSecondsSinceEpoch now} \<and> sorted (due now q)
    \<and> (\<forall>e \<in> set (due now q). \<forall>tm. heap q (snd e) = Some tm \<longrightarrow>
        (\<forall>w. (w, snd e) \<in> set (timers q') \<longleftrightarrow>
          tm_repeat tm \<and> CancelTimer (snd e, tm_sequence tm) \<notin> set (round_calls (heap q) (due now q))
          \<and> w = microSecondsSinceEpoch (addTime now (interval tm))))"
proof -
  have q: "tq_inv (set (adds (posted q))) q" "clock_ok q"
    using timer_events_ok [OF queue_ok_empty [OF assms(2)] assms(1,3)] assms(4) by (auto simp: queue_ok_def)
  then have "sorted (timers q)" by (simp add: tq_inv_def)
  then have "set (due now q) = {e \<in> set (timers q). fst e \<le> microSecondsSinceEpoch now}" "sorted (due now q)"
    using due_filter [of q now] sorted_filter [of "\<lambda>e. e" "timers q"] by simp_all
  with handleRead_ok [OF q(1) assms(1) q(2)] assms(5) show ?thesis by blast
qed

text \<open>A repeating timer that cancels itself.\<close>

definition self_cancel :: "timer_event list" where
  "self_cancel = [Add [CancelTimer (0, 1)] (mkTimestamp 5) 2]"

definition one_timer :: TimerQueue where
  "one_timer = \<lparr>timers = [(5, 0)], activeTimers = {(0, 1)}, callingExpiredTimers = False, cancelingTimers = {},
     heap = [0 \<mapsto> mkTimer [CancelTimer (0, 1)] (mkTimestamp 5) 2 1], numCreated = 1, clock = (\<lambda>n. ticks (Suc n)),
     armed = Some (mkTimestamp 6, 0, 100000), posted = [], returning = [], fired = []\<rparr>"

lemma one_timer_run: "foldE (timer_event lowest_free) (mkTimerQueue ticks) self_cancel = Inr one_timer"
  by (simp add: self_cancel_def timer_defs lowest_free_empty one_timer_def)

theorem handleRead_fires_due_witness:
  "\<exists>q'. tq_handleRead lowest_free one_timer = Inr q' \<and> fired q' = [(5, 0)] \<and> {w. (w, 0) \<in> set (timers q')} = {}"
proof -
  have d: "due (ticks 1) one_timer = [(5, 0)]" "fired one_timer = []" "ticks 1 = clock one_timer 0"
    "heap one_timer 0 = Some (mkTimer [CancelTimer (0, 1)] (mkTimestamp 5) 2 1)"
    by (simp_all add: due_def one_timer_def mkTimestamp_def ticks_def)
  have a: "timer_events_allowed lowest_free (mkTimerQueue ticks) self_cancel"
    by (simp add: self_cancel_def timer_allowed_def split: sum.split)
  from handleRead_fires_due [OF lowest_free_fresh ticks_valid a one_timer_run d(3)] d show ?thesis
    by (auto simp: mkTimer_def round_calls_def)
qed

end
