(* ===== verification/Monitor.thy ===== *)
theory Monitor
  imports Prelude "HOL-Library.Extended_Nat"
begin

text \<open>
  Mutexes and condition variables (\<^verbatim>\<open>muduo/base/Mutex.h\<close>, \<^verbatim>\<open>Condition.h\<close>) and the interleavings of
  threads that call operations guarded by them. An operation of a class is the code between the
  \<^verbatim>\<open>MutexLockGuard\<close> and the end of its scope: the test of its wait loop (\<open>blocked\<close>), and what follows the
  loop (\<open>body\<close>), with the notifications it sends. Any number of threads run such operations; they are
  preempted between any two steps, \<^verbatim>\<open>pthread_cond_wait\<close> may return without a notification, and a
  notification wakes an arbitrary waiting thread. The classes of \<^verbatim>\<open>muduo/base\<close> that follow this pattern are
  instances of the two interfaces \<open>monitor_client\<close> and \<open>wakeup_client\<close> proved here once: every interleaving is
  equivalent to a sequential execution of the completed operations, and no wakeup is lost.
\<close>

section \<open>MutexLock\<close>

text \<open>
  \<open>pthread_owner\<close> is the thread that owns the \<^verbatim>\<open>pthread_mutex_t\<close>, 0 when it is free; thread ids are
  positive.
\<close>

record MutexLock =
  pthread_owner :: nat
  holder :: nat

definition mkMutexLock :: MutexLock where
  "mkMutexLock = \<lparr>pthread_owner = 0, holder = 0\<rparr>"

definition isLockedByThisThread :: "nat \<Rightarrow> MutexLock \<Rightarrow> bool" where
  "isLockedByThisThread tid m \<longleftrightarrow> holder m = tid"

definition assertLocked :: "nat \<Rightarrow> MutexLock \<Rightarrow> unit res" where
  "assertLocked tid m = assertE (isLockedByThisThread tid m)"

definition unassignHolder :: "MutexLock \<Rightarrow> MutexLock" where
  "unassignHolder m = m\<lparr>holder := 0\<rparr>"

definition assignHolder :: "nat \<Rightarrow> MutexLock \<Rightarrow> MutexLock" where
  "assignHolder tid m = m\<lparr>holder := tid\<rparr>"

text \<open>\<open>None\<close>: the calling thread cannot proceed yet.\<close>

definition pthread_mutex_lock :: "nat \<Rightarrow> MutexLock \<Rightarrow> MutexLock option" where
  "pthread_mutex_lock tid m = (if pthread_owner m = 0 then Some (m\<lparr>pthread_owner := tid\<rparr>) else None)"

definition pthread_mutex_unlock :: "MutexLock \<Rightarrow> MutexLock" where
  "pthread_mutex_unlock m = m\<lparr>pthread_owner := 0\<rparr>"

definition mutex_lock :: "nat \<Rightarrow> MutexLock \<Rightarrow> MutexLock option" where
  "mutex_lock tid m = map_option (assignHolder tid) (pthread_mutex_lock tid m)"

definition mutex_unlock :: "MutexLock \<Rightarrow> MutexLock" where
  "mutex_unlock m = pthread_mutex_unlock (unassignHolder m)"

definition mutex_destroy :: "MutexLock \<Rightarrow> unit res" where
  "mutex_destroy m = assertE (holder m = 0)"

section \<open>Condition\<close>

text \<open>
  \<^verbatim>\<open>Condition::wait\<close> in two steps: \<^verbatim>\<open>UnassignGuard\<close> and the entry of \<^verbatim>\<open>pthread_cond_wait\<close>, which releases
  the mutex; its return, which owns the mutex again, and the destructor of the guard.
\<close>

definition cond_wait_begin :: "MutexLock \<Rightarrow> MutexLock" where
  "cond_wait_begin m = pthread_mutex_unlock (unassignHolder m)"

definition cond_wait_end :: "nat \<Rightarrow> MutexLock \<Rightarrow> MutexLock option" where
  "cond_wait_end tid m = map_option (assignHolder tid) (pthread_mutex_lock tid m)"

datatype 'c signal = Notify 'c | NotifyAll 'c

section \<open>Interleavings\<close>

text \<open>
  A thread is outside (\<open>Idle\<close>, or \<open>Returned\<close> with a result it has not used yet), at the guard's constructor
  (\<open>Entering\<close>), at the test of the loop (\<open>Testing\<close>), asleep on a condition (\<open>Waiting\<close>), woken and in need of the
  mutex (\<open>Woken\<close>), behind the loop (\<open>Running\<close>), or at the guard's destructor (\<open>Leaving\<close>).
\<close>

datatype ('op, 'c, 'r) pc =
    Idle
  | Entering 'op
  | Testing 'op
  | Waiting 'op 'c
  | Woken 'op
  | Running 'op
  | Leaving 'op 'r
  | Returned 'op 'r

text \<open>
  \<open>loops op\<close> tells whether the wait is the body of a \<^verbatim>\<open>while\<close> (the condition is tested again) or of an
  \<^verbatim>\<open>if\<close>.
\<close>

record ('op, 's, 'c, 'r) prog =
  loops :: "'op \<Rightarrow> bool"
  blocked :: "'op \<Rightarrow> nat \<Rightarrow> MutexLock \<Rightarrow> 's \<Rightarrow> 'c option res"
  body :: "'op \<Rightarrow> nat \<Rightarrow> MutexLock \<Rightarrow> 's \<Rightarrow> ('r \<times> 's \<times> 'c signal list) res"

record ('op, 's, 'c, 'r) monitor =
  mutex :: MutexLock
  pcs :: "nat \<Rightarrow> ('op, 'c, 'r) pc"
  shared :: 's
  history :: "('op \<times> 'r) list"
  failed :: bool

definition mkMonitor :: "'s \<Rightarrow> ('op, 's, 'c, 'r) monitor" where
  "mkMonitor s = \<lparr>mutex = mkMutexLock, pcs = (\<lambda>_. Idle), shared = s, history = [], failed = False\<rparr>"

definition is_waiting :: "'c \<Rightarrow> ('op, 'c, 'r) pc \<Rightarrow> bool" where
  "is_waiting c p \<longleftrightarrow> (case p of Waiting op c' \<Rightarrow> c' = c | _ \<Rightarrow> False)"

definition wake :: "('op, 'c, 'r) pc \<Rightarrow> ('op, 'c, 'r) pc" where
  "wake p = (case p of Waiting op c \<Rightarrow> Woken op | _ \<Rightarrow> p)"

text \<open>
  What a notification does to the sleeping threads: \<^verbatim>\<open>pthread_cond_signal\<close> wakes one of the threads
  that wait on the condition, if there is any; \<^verbatim>\<open>pthread_cond_broadcast\<close> wakes all of them.
\<close>

inductive signalled :: "'c signal \<Rightarrow> (nat \<Rightarrow> ('op, 'c, 'r) pc) \<Rightarrow> (nat \<Rightarrow> ('op, 'c, 'r) pc) \<Rightarrow> bool" where
  notify_one: "is_waiting c (p t) \<Longrightarrow> signalled (Notify c) p (p(t := wake (p t)))"
| notify_none: "(\<And>t. \<not> is_waiting c (p t)) \<Longrightarrow> signalled (Notify c) p p"
| notify_all: "signalled (NotifyAll c) p (\<lambda>t. if is_waiting c (p t) then wake (p t) else p t)"

inductive signals :: "'c signal list \<Rightarrow> (nat \<Rightarrow> ('op, 'c, 'r) pc) \<Rightarrow> (nat \<Rightarrow> ('op, 'c, 'r) pc) \<Rightarrow> bool" where
  signals_nil: "signals [] p p"
| signals_cons: "signalled sg p q \<Longrightarrow> signals sgs q r \<Longrightarrow> signals (sg # sgs) p r"

text \<open>
  One step of thread \<open>t\<close>, out of the threads \<open>1, \<dots>, n\<close>. The operations a thread may call next are given by
  \<open>may\<close>. An assertion that fails stops the process.
\<close>

inductive mstep :: "('op, 's, 'c, 'r) prog \<Rightarrow> nat \<Rightarrow> (nat \<Rightarrow> 'op \<Rightarrow> bool)
    \<Rightarrow> nat \<Rightarrow> ('op, 's, 'c, 'r) monitor \<Rightarrow> ('op, 's, 'c, 'r) monitor \<Rightarrow> bool"
  for P :: "('op, 's, 'c, 'r) prog" and n :: nat and may :: "nat \<Rightarrow> 'op \<Rightarrow> bool" where
  call: "\<lbrakk>1 \<le> t; t \<le> n; pcs m t = Idle \<or> (\<exists>op' r. pcs m t = Returned op' r); may t op; \<not> failed m\<rbrakk>
    \<Longrightarrow> mstep P n may t m (m\<lparr>pcs := (pcs m)(t := Entering op)\<rparr>)"
| enter: "\<lbrakk>pcs m t = Entering op; mutex_lock t (mutex m) = Some mx; \<not> failed m\<rbrakk>
    \<Longrightarrow> mstep P n may t m (m\<lparr>mutex := mx, pcs := (pcs m)(t := Testing op)\<rparr>)"
| wait: "\<lbrakk>pcs m t = Testing op; blocked P op t (mutex m) (shared m) = Inr (Some c); \<not> failed m\<rbrakk>
    \<Longrightarrow> mstep P n may t m (m\<lparr>mutex := cond_wait_begin (mutex m), pcs := (pcs m)(t := Waiting op c)\<rparr>)"
| proceed: "\<lbrakk>pcs m t = Testing op; blocked P op t (mutex m) (shared m) = Inr None; \<not> failed m\<rbrakk>
    \<Longrightarrow> mstep P n may t m (m\<lparr>pcs := (pcs m)(t := Running op)\<rparr>)"
| spurious: "\<lbrakk>pcs m t = Waiting op c; \<not> failed m\<rbrakk>
    \<Longrightarrow> mstep P n may t m (m\<lparr>pcs := (pcs m)(t := Woken op)\<rparr>)"
| reacquire: "\<lbrakk>pcs m t = Woken op; cond_wait_end t (mutex m) = Some mx; \<not> failed m\<rbrakk>
    \<Longrightarrow> mstep P n may t m
      (m\<lparr>mutex := mx, pcs := (pcs m)(t := if loops P op then Testing op else Running op)\<rparr>)"
| run_body: "\<lbrakk>pcs m t = Running op; body P op t (mutex m) (shared m) = Inr (r, s, sgs); \<not> failed m;
      signals sgs ((pcs m)(t := Leaving op r)) p\<rbrakk>
    \<Longrightarrow> mstep P n may t m (m\<lparr>pcs := p, shared := s, history := history m @ [(op, r)]\<rparr>)"
| leave: "\<lbrakk>pcs m t = Leaving op r; \<not> failed m\<rbrakk>
    \<Longrightarrow> mstep P n may t m (m\<lparr>mutex := mutex_unlock (mutex m), pcs := (pcs m)(t := Returned op r)\<rparr>)"
| fail_test: "\<lbrakk>pcs m t = Testing op; blocked P op t (mutex m) (shared m) = Inl e; \<not> failed m\<rbrakk>
    \<Longrightarrow> mstep P n may t m (m\<lparr>failed := True\<rparr>)"
| fail_body: "\<lbrakk>pcs m t = Running op; body P op t (mutex m) (shared m) = Inl e; \<not> failed m\<rbrakk>
    \<Longrightarrow> mstep P n may t m (m\<lparr>failed := True\<rparr>)"

text \<open>The states that some schedule of \<open>n\<close> threads reaches from the freshly constructed object.\<close>

definition runs :: "('op, 's, 'c, 'r) prog \<Rightarrow> nat \<Rightarrow> (nat \<Rightarrow> 'op \<Rightarrow> bool) \<Rightarrow> 's
    \<Rightarrow> ('op, 's, 'c, 'r) monitor \<Rightarrow> bool" where
  "runs P n may s0 = reach (\<lambda>m. m = mkMonitor s0) (\<lambda>m m'. \<exists>t. mstep P n may t m m')"

lemma runs_init: "runs P n may s0 (mkMonitor s0)"
  unfolding runs_def by (rule reach_init) simp

lemma runs_step: "runs P n may s0 m \<Longrightarrow> mstep P n may t m m' \<Longrightarrow> runs P n may s0 m'"
  unfolding runs_def by (rule reach_step) blast+

lemma signals_Nil_iff [simp]: "signals [] p q = (q = p)"
  by (auto intro: signals_nil elim: signals.cases)

section \<open>Sequential executions\<close>

text \<open>
  \<open>replays P s h s'\<close>: calling the operations of \<open>h\<close> one after the other, by whichever threads, none of
  them ever blocking, leads from \<open>s\<close> to \<open>s'\<close> with the results in \<open>h\<close>.
\<close>

inductive replays :: "('op, 's, 'c, 'r) prog \<Rightarrow> 's \<Rightarrow> ('op \<times> 'r) list \<Rightarrow> 's \<Rightarrow> bool"
  for P :: "('op, 's, 'c, 'r) prog" and s0 :: 's where
  replays_nil: "replays P s0 [] s0"
| replays_snoc: "\<lbrakk>replays P s0 h s; holder mx = t; loops P op \<Longrightarrow> blocked P op t mx s = Inr None;
      body P op t mx s = Inr (r, s', sgs)\<rbrakk> \<Longrightarrow> replays P s0 (h @ [(op, r)]) s'"

section \<open>Invariants of every interleaving\<close>

definition in_section :: "('op, 'c, 'r) pc \<Rightarrow> bool" where
  "in_section p \<longleftrightarrow> (case p of Testing op \<Rightarrow> True | Running op \<Rightarrow> True | Leaving op r \<Rightarrow> True | _ \<Rightarrow> False)"

lemma signalled_cases: "signalled sg p q \<Longrightarrow> q t = p t \<or> (\<exists>op c. p t = Waiting op c \<and> q t = Woken op)"
  by (induction rule: signalled.induct) (auto simp: is_waiting_def wake_def split: pc.splits)

lemma signals_cases: "signals sgs p q \<Longrightarrow> q t = p t \<or> (\<exists>op c. p t = Waiting op c \<and> q t = Woken op)"
proof (induction rule: signals.induct)
  case (signals_cons sg p q sgs r)
  show ?case using signalled_cases [OF signals_cons(1), of t] signals_cons(3) by (elim disjE exE conjE) simp_all
qed simp

lemma signals_section: "signals sgs p q \<Longrightarrow> in_section (q t) = in_section (p t)"
  using signals_cases [of sgs p q t] by (auto simp: in_section_def)

lemma signals_same: "signals sgs p q \<Longrightarrow> p t = Running op \<or> p t = Idle \<or> p t = Leaving op r \<Longrightarrow> q t = p t"
  and signals_running: "signals sgs p q \<Longrightarrow> q t = Running op \<Longrightarrow> p t = Running op"
  using signals_cases [of sgs p q t] by auto

lemmas mutex_simps = mutex_lock_def pthread_mutex_lock_def mutex_unlock_def pthread_mutex_unlock_def
  cond_wait_begin_def cond_wait_end_def assignHolder_def unassignHolder_def mkMutexLock_def

text \<open>The mutex belongs to the one thread that is between its lock and unlock, and \<^verbatim>\<open>holder_\<close> names it.\<close>

definition exclusive :: "nat \<Rightarrow> MutexLock \<Rightarrow> (nat \<Rightarrow> ('op, 'c, 'r) pc) \<Rightarrow> bool" where
  "exclusive n mx p \<longleftrightarrow> holder mx = pthread_owner mx
    \<and> (\<forall>t. in_section (p t) \<longleftrightarrow> 0 < t \<and> pthread_owner mx = t)
    \<and> (\<forall>t. p t \<noteq> Idle \<longrightarrow> 1 \<le> t \<and> t \<le> n)"

lemma in_section_simps [simp]:
  "in_section (Testing op)" "in_section (Running op)" "in_section (Leaving op r)"
  "\<not> in_section Idle" "\<not> in_section (Entering op)" "\<not> in_section (Waiting op c)"
  "\<not> in_section (Woken op)" "\<not> in_section (Returned op r)"
  by (simp_all add: in_section_def)

lemma exclusive_init: "exclusive n mkMutexLock (\<lambda>_. Idle)"
  by (auto simp: exclusive_def mutex_simps)

lemma exclusive_move:
  "exclusive n mx p \<Longrightarrow> 1 \<le> t \<Longrightarrow> t \<le> n \<Longrightarrow> in_section q = in_section (p t) \<Longrightarrow> exclusive n mx (p(t := q))"
  by (auto simp: exclusive_def)

lemma exclusive_lock:
  "exclusive n mx p \<Longrightarrow> pthread_owner mx = 0 \<Longrightarrow> 1 \<le> t \<Longrightarrow> t \<le> n \<Longrightarrow> in_section q
    \<Longrightarrow> exclusive n (mx\<lparr>pthread_owner := t, holder := t\<rparr>) (p(t := q))"
  by (auto simp: exclusive_def)

lemma exclusive_unlock:
  "exclusive n mx p \<Longrightarrow> in_section (p t) \<Longrightarrow> \<not> in_section q \<Longrightarrow> 1 \<le> t \<Longrightarrow> t \<le> n
    \<Longrightarrow> exclusive n (mx\<lparr>holder := 0, pthread_owner := 0\<rparr>) (p(t := q))"
  by (auto simp: exclusive_def)

lemma exclusive_thread: "exclusive n mx p \<Longrightarrow> p t \<noteq> Idle \<Longrightarrow> 1 \<le> t \<and> t \<le> n"
  by (simp add: exclusive_def)

lemma exclusive_holder: "exclusive n mx p \<Longrightarrow> in_section (p t) \<Longrightarrow> holder mx = t \<and> pthread_owner mx = t"
  by (simp add: exclusive_def)

lemma exclusive_signals:
  assumes "exclusive n mx p" "signals sgs p q"
  shows "exclusive n mx q"
proof -
  have "q t = Idle" if "p t = Idle" for t using signals_cases [OF assms(2), of t] that by auto
  then show ?thesis using assms signals_section [OF assms(2)] by (auto simp: exclusive_def)
qed

lemma exclusive_step:
  assumes "mstep P n may t m m'" "exclusive n (mutex m) (pcs m)"
  shows "exclusive n (mutex m') (pcs m')"
  using assms
proof (cases rule: mstep.cases)
  case (run_body op r s sgs p)
  then show ?thesis
    using exclusive_signals [OF exclusive_move [OF assms(2), of t "Leaving op r"]] exclusive_thread [OF assms(2), of t]
    by simp
next
  case (enter op mx)
  then show ?thesis
    using exclusive_lock [OF assms(2), of t "Testing op"] exclusive_thread [OF assms(2), of t]
    by (auto simp: mutex_simps split: if_splits)
next
  case (reacquire op mx)
  then show ?thesis
    using exclusive_lock [OF assms(2), of t] exclusive_thread [OF assms(2), of t]
    by (auto simp: mutex_simps split: if_splits)
next
  case (wait op c)
  then show ?thesis
    using exclusive_unlock [OF assms(2), of t "Waiting op c"] exclusive_thread [OF assms(2), of t]
    by (simp add: mutex_simps)
next
  case (leave op r)
  then show ?thesis
    using exclusive_unlock [OF assms(2), of t "Returned op r"] exclusive_thread [OF assms(2), of t]
    by (simp add: mutex_simps)
next
  case (call op)
  then show ?thesis using exclusive_move [OF assms(2), of t "Entering op"] by auto
next
  case (proceed op)
  then show ?thesis
    using exclusive_move [OF assms(2), of t "Running op"] exclusive_thread [OF assms(2), of t] by simp
next
  case (spurious op c)
  then show ?thesis
    using exclusive_move [OF assms(2), of t "Woken op"] exclusive_thread [OF assms(2), of t] by simp
qed simp_all

text \<open>
  What the threads that are past their wait loop know: the condition of the loop is false, and stays so
  until they run, because the shared state changes only inside the critical section.
\<close>

definition mon_inv :: "('op, 's, 'c, 'r) prog \<Rightarrow> nat \<Rightarrow> 's \<Rightarrow> ('s \<Rightarrow> bool) \<Rightarrow> ('op, 's, 'c, 'r) monitor \<Rightarrow> bool" where
  "mon_inv P n s0 ok m \<longleftrightarrow> exclusive n (mutex m) (pcs m) \<and> \<not> failed m \<and> ok (shared m)
    \<and> (\<forall>t op. pcs m t = Running op \<longrightarrow> loops P op \<longrightarrow> blocked P op t (mutex m) (shared m) = Inr None)
    \<and> replays P s0 (history m) (shared m)"

text \<open>A thread that is inside an operation and not asleep.\<close>

definition active :: "('op, 'c, 'r) pc \<Rightarrow> bool" where
  "active p \<longleftrightarrow> (case p of Idle \<Rightarrow> False | Waiting op c \<Rightarrow> False | Returned op r \<Rightarrow> False | _ \<Rightarrow> True)"

lemma signalled_total: "\<exists>q. signalled sg p q"
proof (cases sg)
  case (Notify c)
  show ?thesis
  proof (cases "\<exists>t. is_waiting c (p t)")
    case True
    then obtain t where "is_waiting c (p t)" by blast
    then show ?thesis unfolding Notify by (blast intro: notify_one)
  next
    case False
    then show ?thesis unfolding Notify by (blast intro: notify_none)
  qed
qed (blast intro: notify_all)

lemma signals_total: "\<exists>q. signals sgs p q"
proof (induction sgs arbitrary: p)
  case (Cons sg sgs)
  obtain q where "signalled sg p q" using signalled_total by blast
  moreover obtain r where "signals sgs q r" using Cons by blast
  ultimately show ?case by (blast intro: signals_cons)
qed (blast intro: signals_nil)

locale monitor_client =
  fixes P :: "('op, 's, 'c, 'r) prog"
    and s0 :: 's
    and ok :: "'s \<Rightarrow> bool"
  assumes inv_init: "ok s0"
    and test_ok: "ok s \<Longrightarrow> holder mx = t \<Longrightarrow> \<exists>c. blocked P op t mx s = Inr c"
    and body_ok: "ok s \<Longrightarrow> holder mx = t \<Longrightarrow> (loops P op \<Longrightarrow> blocked P op t mx s = Inr None)
      \<Longrightarrow> \<exists>r s' sgs. body P op t mx s = Inr (r, s', sgs) \<and> ok s'"
begin

lemma mon_inv_init: "mon_inv P n s0 ok (mkMonitor s0)"
  by (simp add: mon_inv_def mkMonitor_def exclusive_init inv_init replays_nil)

text \<open>A thread other than the one that moves is not past its wait loop while that one is inside.\<close>

lemma only_one_running:
  "exclusive n mx p \<Longrightarrow> in_section (p t) \<Longrightarrow> p u = Running op \<Longrightarrow> u = t"
  using exclusive_holder [of n mx p t] exclusive_holder [of n mx p u] by simp

lemma mon_inv_step:
  assumes "mstep P n may t m m'" "mon_inv P n s0 ok m"
  shows "mon_inv P n s0 ok m'"
proof -
  have e: "exclusive n (mutex m) (pcs m)" and inv: "ok (shared m)" and rp: "replays P s0 (history m) (shared m)"
    and run: "\<And>t op. pcs m t = Running op \<Longrightarrow> loops P op \<Longrightarrow> blocked P op t (mutex m) (shared m) = Inr None"
    using assms(2) by (simp_all add: mon_inv_def)
  have e': "exclusive n (mutex m') (pcs m')" by (rule exclusive_step [OF assms(1) e])
  have free: "pcs m u \<noteq> Running op" if "pthread_owner (mutex m) = 0" for u op
  proof
    assume "pcs m u = Running op"
    then have "in_section (pcs m u)" by simp
    then show False using e that by (auto simp: exclusive_def)
  qed
  show ?thesis
    using assms(1)
  proof (cases rule: mstep.cases)
    case (run_body op r s sgs p)
    then have h: "holder (mutex m) = t" using exclusive_holder [OF e, of t] by simp
    have inv': "ok s"
      using body_ok [OF inv h, of op] run [OF run_body(2)] run_body(3) by auto
    have "pcs m u = Running op' \<Longrightarrow> u = t" for u op'
      using only_one_running [OF e, of t u] run_body(2) by simp
    moreover have "p u = Running op' \<Longrightarrow> u \<noteq> t \<and> pcs m u = Running op'" for u op'
      using signals_running [OF run_body(5), of u op'] by (auto split: if_splits)
    ultimately have none: "p u \<noteq> Running op'" for u op' by blast
    have "replays P s0 (history m @ [(op, r)]) s"
      using replays_snoc [OF rp h run [OF run_body(2)] run_body(3)] by simp
    with none inv' e' run_body show ?thesis by (simp add: mon_inv_def)
  next
    case (proceed op)
    with e' inv rp run show ?thesis by (auto simp: mon_inv_def)
  next
    case (enter op mx)
    with e' inv rp free show ?thesis by (auto simp: mon_inv_def mutex_simps split: if_splits)
  next
    case (reacquire op mx)
    with e' inv rp free show ?thesis by (auto simp: mon_inv_def mutex_simps split: if_splits)
  next
    case (wait op c)
    with e' inv rp only_one_running [OF e, of t] show ?thesis by (auto simp: mon_inv_def)
  next
    case (leave op r)
    with e' inv rp only_one_running [OF e, of t] show ?thesis by (auto simp: mon_inv_def)
  next
    case (fail_test op ex)
    then show ?thesis using test_ok [OF inv, of "mutex m" t op] exclusive_holder [OF e, of t] by simp
  next
    case (fail_body op ex)
    then show ?thesis
      using body_ok [OF inv, of "mutex m" t op] exclusive_holder [OF e, of t] run [OF fail_body(2)] by auto
  qed (use e' inv rp run in \<open>auto simp: mon_inv_def\<close>)
qed

lemma runs_inv: "runs P n may s0 m \<Longrightarrow> mon_inv P n s0 ok m"
  unfolding runs_def
  by (induction rule: reach.induct) (auto simp: mon_inv_init dest: mon_inv_step)

lemma runs_safe: "runs P n may s0 m \<Longrightarrow> \<not> failed m \<and> ok (shared m) \<and> replays P s0 (history m) (shared m)"
  using runs_inv [of n may m] by (simp add: mon_inv_def)

text \<open>A thread between its lock and unlock can always take its next step.\<close>

lemma owner_moves:
  assumes "mon_inv P n s0 ok m" "in_section (pcs m t)"
  shows "\<exists>m'. mstep P n may t m m'"
proof -
  have f: "\<not> failed m" and h: "holder (mutex m) = t" and inv: "ok (shared m)"
    and run: "\<And>op. pcs m t = Running op \<Longrightarrow> loops P op \<Longrightarrow> blocked P op t (mutex m) (shared m) = Inr None"
    using assms exclusive_holder [of n "mutex m" "pcs m" t] by (auto simp: mon_inv_def)
  show ?thesis
  proof (cases "pcs m t")
    case (Testing op)
    obtain c where c: "blocked P op t (mutex m) (shared m) = Inr c" using test_ok [OF inv h] by blast
    show ?thesis
    proof (cases c)
      case None
      with c show ?thesis using mstep.proceed [OF Testing _ f] by blast
    next
      case (Some d)
      with c show ?thesis using mstep.wait [OF Testing _ f] by blast
    qed
  next
    case (Running op)
    obtain r s sgs where b: "body P op t (mutex m) (shared m) = Inr (r, s, sgs)"
      using body_ok [OF inv h run [OF Running]] by blast
    obtain p where "signals sgs ((pcs m)(t := Leaving op r)) p" using signals_total by blast
    then show ?thesis using mstep.run_body [OF Running b f] by blast
  next
    case (Leaving op r)
    then show ?thesis using mstep.leave [OF _ f] by blast
  qed (use assms(2) in auto)
qed

lemma runs_progress:
  assumes "runs P n may s0 m" "active (pcs m u)"
  shows "\<exists>t m'. active (pcs m t) \<and> mstep P n may t m m'"
proof -
  have i: "mon_inv P n s0 ok m" by (rule runs_inv [OF assms(1)])
  then have f: "\<not> failed m" and e: "exclusive n (mutex m) (pcs m)" by (auto simp: mon_inv_def)
  show ?thesis
  proof (cases "pthread_owner (mutex m) = 0")
    case False
    then have "in_section (pcs m (pthread_owner (mutex m)))" using e by (simp add: exclusive_def)
    moreover from this have "active (pcs m (pthread_owner (mutex m)))"
      by (auto simp: active_def in_section_def split: pc.splits)
    ultimately show ?thesis using owner_moves [OF i] by blast
  next
    case True
    then have "\<not> in_section (pcs m u)" using e by (auto simp: exclusive_def)
    with assms(2) consider op where "pcs m u = Entering op" | op where "pcs m u = Woken op"
      by (auto simp: active_def in_section_def split: pc.splits)
    then show ?thesis
    proof cases
      case (1 op)
      have "mutex_lock u (mutex m) = Some ((mutex m)\<lparr>pthread_owner := u, holder := u\<rparr>)"
        using True by (simp add: mutex_simps)
      from mstep.enter [OF 1 this f] assms(2) show ?thesis by blast
    next
      case (2 op)
      have "cond_wait_end u (mutex m) = Some ((mutex m)\<lparr>pthread_owner := u, holder := u\<rparr>)"
        using True by (simp add: mutex_simps)
      from mstep.reacquire [OF 2 this f] assms(2) show ?thesis by blast
    qed
  qed
qed

lemma runs_exclusive: "runs P n may s0 m \<Longrightarrow> in_section (pcs m t) \<Longrightarrow> in_section (pcs m u) \<Longrightarrow> t = u"
  using runs_inv [of n may m] exclusive_holder [of n "mutex m" "pcs m"] by (auto simp: mon_inv_def)

end

section \<open>Wakeups\<close>

text \<open>
  \<open>waits op\<close> is the condition on which an operation can sleep. \<open>avail c s\<close> is the number of operations that
  sleep on \<open>c\<close> and could complete in state \<open>s\<close>. As long as a thread sleeps on \<open>c\<close>, at least that many threads
  are awake and on their way to complete such an operation.
\<close>

definition awake :: "('op \<Rightarrow> 'c option) \<Rightarrow> 'c \<Rightarrow> ('op, 'c, 'r) pc \<Rightarrow> bool" where
  "awake waits c p \<longleftrightarrow> (case p of Entering op \<Rightarrow> waits op = Some c | Testing op \<Rightarrow> waits op = Some c
     | Woken op \<Rightarrow> waits op = Some c | Running op \<Rightarrow> waits op = Some c | _ \<Rightarrow> False)"

definition n_awake :: "nat \<Rightarrow> ('op \<Rightarrow> 'c option) \<Rightarrow> 'c \<Rightarrow> (nat \<Rightarrow> ('op, 'c, 'r) pc) \<Rightarrow> nat" where
  "n_awake n waits c p = length (filter (\<lambda>t. awake waits c (p t)) [1..<Suc n])"

definition sleeps :: "'c \<Rightarrow> (nat \<Rightarrow> ('op, 'c, 'r) pc) \<Rightarrow> bool" where
  "sleeps c p \<longleftrightarrow> (\<exists>t. is_waiting c (p t))"

text \<open>Sleeping threads are known threads, asleep on the condition of their operation.\<close>

definition sleep_wf :: "nat \<Rightarrow> ('op \<Rightarrow> 'c option) \<Rightarrow> (nat \<Rightarrow> ('op, 'c, 'r) pc) \<Rightarrow> bool" where
  "sleep_wf n waits p \<longleftrightarrow> (\<forall>t op c. p t = Waiting op c \<longrightarrow> 1 \<le> t \<and> t \<le> n \<and> waits op = Some c)"

lemma sleep_wfD: "sleep_wf n waits p \<Longrightarrow> p t = Waiting op c \<Longrightarrow> waits op = Some c"
  by (auto simp: sleep_wf_def)

lemma filter_update:
  assumes "distinct xs" "t \<in> set xs"
  shows "length (filter (\<lambda>u. Q ((p(t := q)) u)) xs) + (if Q (p t) then 1 else 0)
    = length (filter (\<lambda>u. Q (p u)) xs) + (if Q q then 1 else (0 :: nat))"
  using assms
proof (induction xs)
  case (Cons x xs)
  show ?case
  proof (cases "x = t")
    case True
    with Cons have "t \<notin> set xs" by simp
    then have "filter (\<lambda>u. Q ((p(t := q)) u)) xs = filter (\<lambda>u. Q (p u)) xs"
      by (intro filter_cong) auto
    with True show ?thesis by simp
  next
    case False
    with Cons show ?thesis by simp
  qed
qed simp

lemma n_awake_update:
  assumes "1 \<le> t" "t \<le> n"
  shows "n_awake n waits c (p(t := q)) + (if awake waits c (p t) then 1 else 0)
    = n_awake n waits c p + (if awake waits c q then 1 else 0)"
  unfolding n_awake_def using assms by (intro filter_update) auto

lemma n_awake_mono:
  assumes "\<And>t. awake waits c (p t) \<Longrightarrow> awake waits c (q t)"
  shows "n_awake n waits c p \<le> n_awake n waits c q"
proof -
  have "length (filter (\<lambda>t. awake waits c (p t)) xs) \<le> length (filter (\<lambda>t. awake waits c (q t)) xs)" for xs
    using assms by (induction xs) (simp_all add: le_SucI)
  then show ?thesis by (simp add: n_awake_def)
qed

lemma signalled_waiting: "signalled sg p q \<Longrightarrow> q t = Waiting op c \<Longrightarrow> p t = Waiting op c"
  using signalled_cases [of sg p q t] by auto

lemma signalled_wf: "signalled sg p q \<Longrightarrow> sleep_wf n waits p \<Longrightarrow> sleep_wf n waits q"
  unfolding sleep_wf_def by (blast dest: signalled_waiting)

lemma is_waiting_iff: "is_waiting c p \<longleftrightarrow> (\<exists>op. p = Waiting op c)"
  by (auto simp: is_waiting_def split: pc.splits)

lemma signalled_sleeps: "signalled sg p q \<Longrightarrow> sleeps c q \<Longrightarrow> sleeps c p"
  unfolding sleeps_def is_waiting_iff by (blast dest: signalled_waiting)

lemma signalled_awake: "signalled sg p q \<Longrightarrow> awake waits c (p t) \<Longrightarrow> awake waits c (q t)"
  using signalled_cases [of sg p q t] by (auto simp: awake_def)

lemma signalled_count:
  assumes "signalled sg p q" "sleep_wf n waits p" "sleeps c q"
  shows "sg \<noteq> NotifyAll c \<and> n_awake n waits c p + (if sg = Notify c then 1 else 0) \<le> n_awake n waits c q"
proof -
  have mono: "n_awake n waits c p \<le> n_awake n waits c q"
    using signalled_awake [OF assms(1)] by (rule n_awake_mono)
  show ?thesis
    using assms(1)
  proof (cases rule: signalled.cases)
    case (notify_one c' t)
    then obtain op where op: "p t = Waiting op c'" by (auto simp: is_waiting_iff)
    then have t: "1 \<le> t" "t \<le> n" "waits op = Some c'" using assms(2) by (auto simp: sleep_wf_def)
    have "n_awake n waits c q = n_awake n waits c p + 1" if "c' = c"
      using n_awake_update [OF t(1,2), of waits c p "wake (p t)"] op t(3) that notify_one
      by (simp add: awake_def wake_def)
    with mono notify_one show ?thesis by auto
  next
    case (notify_none c')
    with assms(3) mono show ?thesis by (auto simp: sleeps_def)
  next
    case (notify_all c')
    have "c' \<noteq> c"
    proof
      assume "c' = c"
      with notify_all assms(3) show False
        by (auto simp: sleeps_def wake_def is_waiting_iff split: if_splits)
    qed
    with notify_all mono show ?thesis by simp
  qed
qed

lemma signals_sleeps: "signals sgs p q \<Longrightarrow> sleeps c q \<Longrightarrow> sleeps c p"
  by (induction rule: signals.induct) (auto dest: signalled_sleeps)

lemma signals_wf: "signals sgs p q \<Longrightarrow> sleep_wf n waits p \<Longrightarrow> sleep_wf n waits q"
  by (induction rule: signals.induct) (auto dest: signalled_wf)

lemma signals_count:
  "\<lbrakk>signals sgs p q; sleep_wf n waits p; sleeps c q\<rbrakk>
    \<Longrightarrow> NotifyAll c \<notin> set sgs \<and> n_awake n waits c p + count_list sgs (Notify c) \<le> n_awake n waits c q"
proof (induction rule: signals.induct)
  case (signals_cons sg p q sgs r)
  have "sleeps c q" by (rule signals_sleeps [OF signals_cons(2,5)])
  from signalled_count [OF signals_cons(1,4) this]
    signals_cons.IH [OF signalled_wf [OF signals_cons(1,4)] signals_cons(5)]
  show ?case by (auto split: if_splits)
qed simp

definition wake_inv :: "nat \<Rightarrow> ('op \<Rightarrow> 'c option) \<Rightarrow> ('c \<Rightarrow> 's \<Rightarrow> enat) \<Rightarrow> 's \<Rightarrow> (nat \<Rightarrow> ('op, 'c, 'r) pc) \<Rightarrow> bool" where
  "wake_inv n waits avail s p \<longleftrightarrow> sleep_wf n waits p
    \<and> (\<forall>c. sleeps c p \<longrightarrow> avail c s \<le> enat (n_awake n waits c p))"

lemma awake_simps [simp]:
  "awake waits c (Entering op) = (waits op = Some c)" "awake waits c (Testing op) = (waits op = Some c)"
  "awake waits c (Woken op) = (waits op = Some c)" "awake waits c (Running op) = (waits op = Some c)"
  "\<not> awake waits c Idle" "\<not> awake waits c (Waiting op c')" "\<not> awake waits c (Leaving op r)"
  "\<not> awake waits c (Returned op r)"
  by (simp_all add: awake_def)

lemma is_waiting_simps [simp]:
  "is_waiting c (Waiting op c') = (c' = c)" "\<not> is_waiting c Idle" "\<not> is_waiting c (Entering op)"
  "\<not> is_waiting c (Testing op)" "\<not> is_waiting c (Woken op)" "\<not> is_waiting c (Running op)"
  "\<not> is_waiting c (Leaving op r)" "\<not> is_waiting c (Returned op r)"
  by (auto simp: is_waiting_iff)

text \<open>A thread moves without touching the shared state and without going to sleep.\<close>

lemma wake_inv_move:
  assumes "wake_inv n waits avail s p" "\<And>c. \<not> is_waiting c q" "\<And>c. awake waits c (p t) \<Longrightarrow> awake waits c q"
  shows "wake_inv n waits avail s (p(t := q))"
proof -
  have sl: "sleeps c (p(t := q)) \<Longrightarrow> sleeps c p" for c
    using assms(2) by (auto simp: sleeps_def split: if_splits)
  have "n_awake n waits c p \<le> n_awake n waits c (p(t := q))" for c
    using assms(3) by (intro n_awake_mono) auto
  then have "avail c s \<le> enat (n_awake n waits c (p(t := q)))" if "sleeps c (p(t := q))" for c
    using assms(1) sl [OF that] unfolding wake_inv_def by (meson enat_ord_simps(1) order_trans)
  moreover have "sleep_wf n waits (p(t := q))"
    using assms(1,2) unfolding wake_inv_def sleep_wf_def
    by (metis fun_upd_apply is_waiting_simps(1))
  ultimately show ?thesis by (simp add: wake_inv_def)
qed

lemma wake_inv_sleep:
  assumes "wake_inv n waits avail s p" "p t = Testing op" "waits op = Some c" "avail c s = 0" "1 \<le> t" "t \<le> n"
  shows "wake_inv n waits avail s (p(t := Waiting op c))"
proof -
  have "avail c' s \<le> enat (n_awake n waits c' (p(t := Waiting op c)))" if "sleeps c' (p(t := Waiting op c))" for c'
  proof (cases "c' = c")
    case False
    then have "sleeps c' p" using that by (auto simp: sleeps_def split: if_splits)
    moreover have "n_awake n waits c' p \<le> n_awake n waits c' (p(t := Waiting op c))"
      using assms(2,3) False by (intro n_awake_mono) auto
    ultimately show ?thesis using assms(1) unfolding wake_inv_def by (meson enat_ord_simps(1) order_trans)
  qed (simp add: assms)
  moreover have "sleep_wf n waits (p(t := Waiting op c))"
    using assms by (auto simp: wake_inv_def sleep_wf_def)
  ultimately show ?thesis by (simp add: wake_inv_def)
qed

lemma wake_inv_body:
  assumes "wake_inv n waits avail s p" "p t = Running op" "1 \<le> t" "t \<le> n"
    and "signals sgs (p(t := Leaving op r)) q"
    and av: "\<And>c. NotifyAll c \<in> set sgs
        \<or> avail c s' + (if waits op = Some c then 1 else 0) \<le> avail c s + enat (count_list sgs (Notify c))"
  shows "wake_inv n waits avail s' q"
proof -
  have wf: "sleep_wf n waits (p(t := Leaving op r))" using assms(1) by (auto simp: wake_inv_def sleep_wf_def)
  have "avail c s' \<le> enat (n_awake n waits c q)" if c: "sleeps c q" for c
  proof -
    note sc = signals_count [OF assms(5) wf c]
    have "sleeps c p" using signals_sleeps [OF assms(5) c] by (auto simp: sleeps_def split: if_splits)
    then have old: "avail c s \<le> enat (n_awake n waits c p)" using assms(1) by (simp add: wake_inv_def)
    have "avail c s' + (if waits op = Some c then 1 else 0) \<le> enat (n_awake n waits c p + count_list sgs (Notify c))"
      using av [of c] sc add_right_mono [OF old, of "enat (count_list sgs (Notify c))"]
      unfolding plus_enat_simps by (blast intro: order_trans)
    moreover have "n_awake n waits c (p(t := Leaving op r)) + (if waits op = Some c then 1 else 0) = n_awake n waits c p"
      using n_awake_update [OF assms(3,4), of waits c p "Leaving op r"] assms(2) by simp
    ultimately show ?thesis using sc
      by (cases "avail c s'") (auto simp: one_enat_def split: if_splits)
  qed
  then show ?thesis using signals_wf [OF assms(5) wf] by (simp add: wake_inv_def)
qed

locale wakeup_client = monitor_client +
  fixes waits :: "'a \<Rightarrow> 'c option"
    and avail :: "'c \<Rightarrow> 'b \<Rightarrow> enat"
  assumes all_loop: "loops P op"
    and sleeps_empty: "\<lbrakk>ok s; holder mx = t; blocked P op t mx s = Inr (Some c)\<rbrakk> \<Longrightarrow> waits op = Some c \<and> avail c s = 0"
    and body_avail: "\<lbrakk>ok s; holder mx = t; blocked P op t mx s = Inr None; body P op t mx s = Inr (r, s', sgs)\<rbrakk>
      \<Longrightarrow> NotifyAll c \<in> set sgs
        \<or> avail c s' + (if waits op = Some c then 1 else 0) \<le> avail c s + enat (count_list sgs (Notify c))"
begin

lemma wake_inv_step:
  assumes "mstep P n may t m m'" "mon_inv P n s0 ok m" "wake_inv n waits avail (shared m) (pcs m)"
  shows "wake_inv n waits avail (shared m') (pcs m')"
proof -
  have e: "exclusive n (mutex m) (pcs m)" and ok: "ok (shared m)"
    and run: "\<And>t op. pcs m t = Running op \<Longrightarrow> blocked P op t (mutex m) (shared m) = Inr None"
    using assms(2) all_loop by (simp_all add: mon_inv_def)
  show ?thesis
    using assms(1)
  proof (cases rule: mstep.cases)
    case (wait op c)
    then have "holder (mutex m) = t" using exclusive_holder [OF e, of t] by simp
    with wait show ?thesis
      using wake_inv_sleep [OF assms(3), of t op c] sleeps_empty [OF ok, of "mutex m" t op c]
        exclusive_thread [OF e, of t] by simp
  next
    case (run_body op r s sgs p)
    then have h: "holder (mutex m) = t" using exclusive_holder [OF e, of t] by simp
    show ?thesis
      using wake_inv_body [OF assms(3) run_body(2) _ _ run_body(5)] exclusive_thread [OF e, of t]
        body_avail [OF ok h run [OF run_body(2)] run_body(3)] run_body by simp
  next
    case (reacquire op mx)
    with all_loop show ?thesis using wake_inv_move [OF assms(3), of "Testing op" t] by simp
  qed (use assms(3) in \<open>auto intro!: wake_inv_move\<close>)
qed

lemma runs_wake:
  "runs P n may s0 m \<Longrightarrow> mon_inv P n s0 ok m \<and> wake_inv n waits avail (shared m) (pcs m)"
  unfolding runs_def
proof (induction rule: reach.induct)
  case (reach_init m)
  then show ?case
    using mon_inv_init by (auto simp: mkMonitor_def wake_inv_def sleep_wf_def sleeps_def)
next
  case (reach_step m m')
  then show ?case by (auto dest: mon_inv_step wake_inv_step)
qed

text \<open>If every thread is outside or asleep, then every sleeping thread really has to wait.\<close>

lemma runs_quiet:
  assumes "runs P n may s0 m" "pcs m t = Waiting op c"
    and "\<And>u. awake waits c (pcs m u) \<Longrightarrow> False"
  shows "avail c (shared m) = 0"
proof -
  have "filter (\<lambda>u. awake waits c (pcs m u)) [1..<Suc n] = []" using assms(3) by (simp add: filter_empty_conv) blast
  moreover have "sleeps c (pcs m)" using assms(2) by (auto simp: sleeps_def intro: exI [of _ t])
  then have "avail c (shared m) \<le> enat (n_awake n waits c (pcs m))"
    using runs_wake [OF assms(1)] by (simp add: wake_inv_def)
  ultimately show ?thesis unfolding n_awake_def by (simp only: list.size zero_enat_def [symmetric] le_zero_eq)
qed

end

section \<open>What a step changes\<close>

lemma mstep_mono: "mstep P n may t m m' \<Longrightarrow> (\<And>t op. may t op \<Longrightarrow> may' t op) \<Longrightarrow> mstep P n may' t m m'"
  by (induction rule: mstep.induct) (blast intro: mstep.intros)+

definition op_of :: "('op, 'c, 'r) pc \<Rightarrow> 'op option" where
  "op_of q = (case q of Idle \<Rightarrow> None | Entering op \<Rightarrow> Some op | Testing op \<Rightarrow> Some op | Waiting op c \<Rightarrow> Some op
     | Woken op \<Rightarrow> Some op | Running op \<Rightarrow> Some op | Leaving op r \<Rightarrow> Some op | Returned op r \<Rightarrow> Some op)"

lemma op_of_simps [simp]:
  "op_of Idle = None" "op_of (Entering op) = Some op" "op_of (Testing op) = Some op" "op_of (Waiting op c) = Some op"
  "op_of (Woken op) = Some op" "op_of (Running op) = Some op" "op_of (Leaving op r) = Some op"
  "op_of (Returned op r) = Some op"
  by (simp_all add: op_of_def)

definition result_of :: "('op, 'c, 'r) pc \<Rightarrow> 'r option" where
  "result_of q = (case q of Leaving op r \<Rightarrow> Some r | Returned op r \<Rightarrow> Some r | _ \<Rightarrow> None)"

lemma result_of_simps [simp]:
  "result_of Idle = None" "result_of (Entering op) = None" "result_of (Testing op) = None"
  "result_of (Waiting op c) = None" "result_of (Woken op) = None" "result_of (Running op) = None"
  "result_of (Leaving op r) = Some r" "result_of (Returned op r) = Some r"
  by (simp_all add: result_of_def)

lemma mstep_others: "mstep P n may t m m' \<Longrightarrow> u \<noteq> t \<Longrightarrow>
    pcs m' u = pcs m u \<or> (\<exists>op c. pcs m u = Waiting op c \<and> pcs m' u = Woken op)"
proof (induction rule: mstep.induct)
  case (run_body m t op r s sgs p)
  then show ?case using signals_cases [OF run_body(4), of u] by simp
qed simp_all

lemma mstep_op: "mstep P n may t m m' \<Longrightarrow> u \<noteq> t \<Longrightarrow> op_of (pcs m' u) = op_of (pcs m u)"
  and mstep_result: "mstep P n may t m m' \<Longrightarrow> u \<noteq> t \<Longrightarrow> result_of (pcs m' u) = result_of (pcs m u)"
  using mstep_others [of P n may t m m' u] by auto

text \<open>A step is a call, a step without effect on the object, or the body of an operation.\<close>

lemma mstep_effect:
  assumes "mstep P n may t m m'"
  obtains (call) op where "pcs m' t = Entering op" "may t op" "history m' = history m" "shared m' = shared m"
      "pcs m t = Idle \<or> (\<exists>op' r. pcs m t = Returned op' r)"
    | (quiet) "history m' = history m" "shared m' = shared m" "op_of (pcs m' t) = op_of (pcs m t)"
        "result_of (pcs m' t) = result_of (pcs m t)" "pcs m t \<noteq> Idle"
    | (body) op r sgs where "pcs m t = Running op" "pcs m' t = Leaving op r" "history m' = history m @ [(op, r)]"
        "body P op t (mutex m) (shared m) = Inr (r, shared m', sgs)"
  using assms
proof (cases rule: mstep.cases)
  case (run_body op r s sgs p)
  then show ?thesis using signals_same [OF run_body(5), of t op r] body by simp
qed (auto intro: call quiet)

section \<open>Undisturbed calls\<close>

text \<open>The state after a call that runs from start to end, and after one that goes to sleep.\<close>

lemma call_steps:
  assumes "1 \<le> t" "t \<le> n" "pcs m t = Idle \<or> (\<exists>op' r. pcs m t = Returned op' r)"
    and "may t op" "\<not> failed m" "mutex m = mkMutexLock"
  shows "(mstep P n may t)\<^sup>*\<^sup>* m (m\<lparr>mutex := \<lparr>pthread_owner = t, holder = t\<rparr>, pcs := (pcs m)(t := Testing op)\<rparr>)"
proof -
  have "mstep P n may t m (m\<lparr>pcs := (pcs m)(t := Entering op)\<rparr>)" using assms by (intro mstep.call) auto
  moreover have "mstep P n may t (m\<lparr>pcs := (pcs m)(t := Entering op)\<rparr>)
      (m\<lparr>mutex := \<lparr>pthread_owner = t, holder = t\<rparr>, pcs := (pcs m)(t := Testing op)\<rparr>)"
    using mstep.enter [of "m\<lparr>pcs := (pcs m)(t := Entering op)\<rparr>" t op] assms by (simp add: mutex_simps)
  ultimately show ?thesis by (blast intro: converse_rtranclp_into_rtranclp)
qed

lemma sleep_steps:
  assumes "1 \<le> t" "t \<le> n" "pcs m t = Idle \<or> (\<exists>op' r. pcs m t = Returned op' r)"
    and "may t op" "\<not> failed m" "mutex m = mkMutexLock"
    and "blocked P op t \<lparr>pthread_owner = t, holder = t\<rparr> (shared m) = Inr (Some c)"
  shows "(mstep P n may t)\<^sup>*\<^sup>* m (m\<lparr>mutex := mkMutexLock, pcs := (pcs m)(t := Waiting op c)\<rparr>)"
  using rtranclp.rtrancl_into_rtrancl [OF call_steps [of t n m may op P, OF assms(1-6)] mstep.wait [of _ t op P c]] assms
  by (simp add: mutex_simps)

lemma op_steps:
  assumes "1 \<le> t" "t \<le> n" "pcs m t = Idle \<or> (\<exists>op' r. pcs m t = Returned op' r)"
    and "may t op" "\<not> failed m" "mutex m = mkMutexLock"
    and "blocked P op t \<lparr>pthread_owner = t, holder = t\<rparr> (shared m) = Inr None"
    and "body P op t \<lparr>pthread_owner = t, holder = t\<rparr> (shared m) = Inr (r, s, sgs)"
    and "signals sgs ((pcs m)(t := Leaving op r)) p"
  shows "(mstep P n may t)\<^sup>*\<^sup>* m (m\<lparr>shared := s, history := history m @ [(op, r)], mutex := mkMutexLock,
    pcs := p(t := Returned op r)\<rparr>)"
proof -
  have p: "p t = Leaving op r" using signals_same [OF assms(9), of t op r] by simp
  note a = rtranclp.rtrancl_into_rtrancl [OF call_steps [of t n m may op P, OF assms(1-6)] mstep.proceed [of _ t op P]]
  note b = rtranclp.rtrancl_into_rtrancl [OF a mstep.run_body [of _ t op P r s sgs p]]
  note c = rtranclp.rtrancl_into_rtrancl [OF b mstep.leave [of _ t op r]]
  from c p assms show ?thesis by (simp add: mutex_simps)
qed

lemma runs_steps: "(mstep P n may t)\<^sup>*\<^sup>* m m' \<Longrightarrow> runs P n may s0 m \<Longrightarrow> runs P n may s0 m'"
  by (induction rule: rtranclp_induct) (auto intro: runs_step)

lemmas runs_sleep = runs_steps [OF sleep_steps, rotated 7]
lemmas runs_op = runs_steps [OF op_steps, rotated 9]

lemma signals_wake_one: "p t = Waiting op c \<Longrightarrow> q = p(t := Woken op) \<Longrightarrow> signals [Notify c] p q"
  using signals_cons [OF notify_one [of c p t] signals_nil] by (simp add: wake_def)

lemma signals_wake_none: "(\<And>t. \<not> is_waiting c (p t)) \<Longrightarrow> signals [Notify c] p p"
  by (rule signals_cons [OF notify_none signals_nil])

lemma signals_all_none: "(\<And>t. \<not> is_waiting c (p t)) \<Longrightarrow> signals [NotifyAll c] p p"
  using signals_cons [OF notify_all [of c p] signals_nil] by simp

end
