(* ===== verification/Queues.thy ===== *)
theory Queues
  imports Monitor
begin

text \<open>
  The blocking containers of \<^verbatim>\<open>muduo/base\<close>: \<^verbatim>\<open>BlockingQueue.h\<close>, \<^verbatim>\<open>BoundedBlockingQueue.h\<close> and
  \<^verbatim>\<open>CountDownLatch.h/.cc\<close>, as operations of a monitor. A \<^verbatim>\<open>std::deque\<close> is a list, front first.
  \<^verbatim>\<open>boost::circular_buffer\<close> is a parameter: a record of its operations, with its documented behaviour as the
  hypothesis \<open>circular_buffer\<close>.
\<close>

section \<open>BlockingQueue\<close>

datatype queue_cond = NotEmpty | NotFull

datatype ('a, 'q) queue_op = Put 'a | Take | Query 'q

datatype bq_query = Size

datatype bbq_query = QEmpty | QFull | QSize | QCapacity

datatype 'a queue_ret = Void | Val 'a | Flag bool | Num nat

definition bq_put :: "'a \<Rightarrow> 'a list \<Rightarrow> ('a queue_ret \<times> 'a list \<times> queue_cond signal list) res" where
  "bq_put x queue = Inr (Void, queue @ [x], [Notify NotEmpty])"

text \<open>The condition of the loop, and what follows the loop.\<close>

definition bq_take_test :: "'a list \<Rightarrow> queue_cond option" where
  "bq_take_test queue = (if queue = [] then Some NotEmpty else None)"

definition bq_take :: "'a list \<Rightarrow> ('a queue_ret \<times> 'a list \<times> queue_cond signal list) res" where
  "bq_take queue = bindE (assertE (queue \<noteq> [])) (\<lambda>_. Inr (Val (hd queue), tl queue, []))"

definition bq_size :: "'a list \<Rightarrow> ('a queue_ret \<times> 'a list \<times> queue_cond signal list) res" where
  "bq_size queue = Inr (Num (length queue), queue, [])"

definition mkBlockingQueue :: "'a list" where
  "mkBlockingQueue = []"

definition BlockingQueue :: "(('a, bq_query) queue_op, 'a list, queue_cond, 'a queue_ret) prog" where
  "BlockingQueue = \<lparr>loops = (\<lambda>_. True),
     blocked = (\<lambda>op t mx queue. Inr (case op of Take \<Rightarrow> bq_take_test queue | _ \<Rightarrow> None)),
     body = (\<lambda>op t mx queue. case op of Put x \<Rightarrow> bq_put x queue | Take \<Rightarrow> bq_take queue
       | Query Size \<Rightarrow> bq_size queue)\<rparr>"

lemmas bq_defs = BlockingQueue_def bq_put_def bq_take_test_def bq_take_def bq_size_def mkBlockingQueue_def

text \<open>The elements put in and taken out, in the order of the critical sections.\<close>

fun puts :: "(('a, 'q) queue_op \<times> 'a queue_ret) list \<Rightarrow> 'a list" where
  "puts [] = []"
| "puts ((Put x, r) # h) = x # puts h"
| "puts (_ # h) = puts h"

fun takes :: "(('a, 'q) queue_op \<times> 'a queue_ret) list \<Rightarrow> 'a list" where
  "takes [] = []"
| "takes ((Take, Val x) # h) = x # takes h"
| "takes (_ # h) = takes h"

lemma puts_append [simp]: "puts (h @ h') = puts h @ puts h'"
  by (induction h rule: puts.induct) auto

lemma takes_append [simp]: "takes (h @ h') = takes h @ takes h'"
  by (induction h rule: takes.induct) auto

definition queue_waits :: "('a, 'q) queue_op \<Rightarrow> queue_cond option" where
  "queue_waits op = (case op of Take \<Rightarrow> Some NotEmpty | Put x \<Rightarrow> Some NotFull | _ \<Rightarrow> None)"

definition bq_waits :: "('a, 'q) queue_op \<Rightarrow> queue_cond option" where
  "bq_waits op = (case op of Take \<Rightarrow> Some NotEmpty | _ \<Rightarrow> None)"

definition bq_avail :: "queue_cond \<Rightarrow> 'a list \<Rightarrow> enat" where
  "bq_avail c queue = (case c of NotEmpty \<Rightarrow> enat (length queue) | NotFull \<Rightarrow> 0)"

interpretation bq: wakeup_client BlockingQueue mkBlockingQueue "\<lambda>_. True" bq_waits bq_avail
proof (unfold_locales, goal_cases)
  case (6 s mx t op r s' sgs c)
  then show ?case
    by (cases op; cases s; cases c) (auto simp: bq_defs bq_waits_def bq_avail_def one_enat_def zero_enat_def split: bq_query.splits)
qed (auto simp: bq_defs bq_waits_def bq_avail_def zero_enat_def split: queue_op.splits bq_query.splits if_splits)

lemma bq_fifo: "replays BlockingQueue mkBlockingQueue h queue \<Longrightarrow> puts h = takes h @ queue"
proof (induction rule: replays.induct)
  case replays_nil
  then show ?case by (simp add: mkBlockingQueue_def)
next
  case (replays_snoc h s mx t op r s' sgs)
  then show ?case by (cases op; cases s) (auto simp: bq_defs split: bq_query.splits)
qed

section \<open>BoundedBlockingQueue\<close>

record ('b, 'a) circular_buffer_ops =
  cb_new :: "nat \<Rightarrow> 'b"
  cb_full :: "'b \<Rightarrow> bool"
  cb_empty :: "'b \<Rightarrow> bool"
  cb_push_back :: "'b \<Rightarrow> 'a \<Rightarrow> 'b"
  cb_front :: "'b \<Rightarrow> 'a"
  cb_pop_front :: "'b \<Rightarrow> 'b"
  cb_size :: "'b \<Rightarrow> nat"
  cb_capacity :: "'b \<Rightarrow> nat"

text \<open>
  The documented behaviour of \<^verbatim>\<open>boost::circular_buffer\<close>; \<open>elems\<close> are its elements from front to back.
  Nothing is said about \<^verbatim>\<open>push_back\<close> on a full buffer, \<^verbatim>\<open>front\<close> and \<^verbatim>\<open>pop_front\<close> on an empty one.
\<close>

definition circular_buffer :: "('b, 'a) circular_buffer_ops \<Rightarrow> ('b \<Rightarrow> 'a list) \<Rightarrow> bool" where
  "circular_buffer cb elems \<longleftrightarrow>
    (\<forall>n. elems (cb_new cb n) = [] \<and> cb_capacity cb (cb_new cb n) = n)
    \<and> (\<forall>b. cb_full cb b = (length (elems b) = cb_capacity cb b))
    \<and> (\<forall>b. cb_empty cb b = (elems b = []))
    \<and> (\<forall>b x. length (elems b) < cb_capacity cb b \<longrightarrow>
         elems (cb_push_back cb b x) = elems b @ [x] \<and> cb_capacity cb (cb_push_back cb b x) = cb_capacity cb b)
    \<and> (\<forall>b. elems b \<noteq> [] \<longrightarrow> cb_front cb b = hd (elems b) \<and> elems (cb_pop_front cb b) = tl (elems b)
         \<and> cb_capacity cb (cb_pop_front cb b) = cb_capacity cb b)
    \<and> (\<forall>b. cb_size cb b = length (elems b))"

definition bbq_put_test :: "('b, 'a) circular_buffer_ops \<Rightarrow> 'b \<Rightarrow> queue_cond option" where
  "bbq_put_test cb queue = (if cb_full cb queue then Some NotFull else None)"

definition bbq_put :: "('b, 'a) circular_buffer_ops \<Rightarrow> 'a \<Rightarrow> 'b \<Rightarrow> ('a queue_ret \<times> 'b \<times> queue_cond signal list) res" where
  "bbq_put cb x queue =
    bindE (assertE (\<not> cb_full cb queue)) (\<lambda>_. Inr (Void, cb_push_back cb queue x, [Notify NotEmpty]))"

definition bbq_take_test :: "('b, 'a) circular_buffer_ops \<Rightarrow> 'b \<Rightarrow> queue_cond option" where
  "bbq_take_test cb queue = (if cb_empty cb queue then Some NotEmpty else None)"

definition bbq_take :: "('b, 'a) circular_buffer_ops \<Rightarrow> 'b \<Rightarrow> ('a queue_ret \<times> 'b \<times> queue_cond signal list) res" where
  "bbq_take cb queue =
    bindE (assertE (\<not> cb_empty cb queue)) (\<lambda>_.
    Inr (Val (cb_front cb queue), cb_pop_front cb queue, [Notify NotFull]))"

definition bbq_empty :: "('b, 'a) circular_buffer_ops \<Rightarrow> 'b \<Rightarrow> ('a queue_ret \<times> 'b \<times> queue_cond signal list) res" where
  "bbq_empty cb queue = Inr (Flag (cb_empty cb queue), queue, [])"

definition bbq_full :: "('b, 'a) circular_buffer_ops \<Rightarrow> 'b \<Rightarrow> ('a queue_ret \<times> 'b \<times> queue_cond signal list) res" where
  "bbq_full cb queue = Inr (Flag (cb_full cb queue), queue, [])"

definition bbq_size :: "('b, 'a) circular_buffer_ops \<Rightarrow> 'b \<Rightarrow> ('a queue_ret \<times> 'b \<times> queue_cond signal list) res" where
  "bbq_size cb queue = Inr (Num (cb_size cb queue), queue, [])"

definition bbq_capacity :: "('b, 'a) circular_buffer_ops \<Rightarrow> 'b \<Rightarrow> ('a queue_ret \<times> 'b \<times> queue_cond signal list) res" where
  "bbq_capacity cb queue = Inr (Num (cb_capacity cb queue), queue, [])"

definition mkBoundedBlockingQueue :: "('b, 'a) circular_buffer_ops \<Rightarrow> nat \<Rightarrow> 'b" where
  "mkBoundedBlockingQueue cb maxSize = cb_new cb maxSize"

definition BoundedBlockingQueue :: "('b, 'a) circular_buffer_ops
    \<Rightarrow> (('a, bbq_query) queue_op, 'b, queue_cond, 'a queue_ret) prog" where
  "BoundedBlockingQueue cb = \<lparr>loops = (\<lambda>_. True),
     blocked = (\<lambda>op t mx queue. Inr (case op of Put x \<Rightarrow> bbq_put_test cb queue
       | Take \<Rightarrow> bbq_take_test cb queue | _ \<Rightarrow> None)),
     body = (\<lambda>op t mx queue. case op of Put x \<Rightarrow> bbq_put cb x queue | Take \<Rightarrow> bbq_take cb queue
       | Query QEmpty \<Rightarrow> bbq_empty cb queue | Query QFull \<Rightarrow> bbq_full cb queue | Query QSize \<Rightarrow> bbq_size cb queue
       | Query QCapacity \<Rightarrow> bbq_capacity cb queue)\<rparr>"

lemmas bbq_defs = BoundedBlockingQueue_def bbq_put_test_def bbq_put_def bbq_take_test_def bbq_take_def
  bbq_empty_def bbq_full_def bbq_size_def bbq_capacity_def mkBoundedBlockingQueue_def

definition bbq_avail :: "('b \<Rightarrow> 'a list) \<Rightarrow> nat \<Rightarrow> queue_cond \<Rightarrow> 'b \<Rightarrow> enat" where
  "bbq_avail elems cap c queue =
    (case c of NotEmpty \<Rightarrow> enat (length (elems queue)) | NotFull \<Rightarrow> enat (cap - length (elems queue)))"

definition bbq_ok :: "('b, 'a) circular_buffer_ops \<Rightarrow> ('b \<Rightarrow> 'a list) \<Rightarrow> nat \<Rightarrow> 'b \<Rightarrow> bool" where
  "bbq_ok cb elems cap queue \<longleftrightarrow> cb_capacity cb queue = cap \<and> length (elems queue) \<le> cap"

lemma bbq_client:
  assumes "circular_buffer cb elems"
  shows "wakeup_client (BoundedBlockingQueue cb) (mkBoundedBlockingQueue cb cap) (bbq_ok cb elems cap)
    queue_waits (bbq_avail elems cap)"
proof (unfold_locales, goal_cases)
  case (6 s mx t op r s' sgs c)
  then have "blocked (BoundedBlockingQueue cb) op t mx s = Inr None" by simp
  with 6 assms show ?case
    by (cases op; cases c; cases "elems s")
      (auto simp: bbq_defs queue_waits_def bbq_avail_def one_enat_def zero_enat_def bbq_ok_def circular_buffer_def split: if_splits bbq_query.splits)
qed (use assms in \<open>auto simp: bbq_defs queue_waits_def bbq_avail_def bbq_ok_def circular_buffer_def le_less zero_enat_def
    split: queue_op.splits bbq_query.splits if_splits\<close>)

lemma bbq_fifo:
  assumes "circular_buffer cb elems"
  shows "replays (BoundedBlockingQueue cb) (mkBoundedBlockingQueue cb cap) h queue
    \<Longrightarrow> puts h = takes h @ elems queue \<and> bbq_ok cb elems cap queue"
proof (induction rule: replays.induct)
  case replays_nil
  then show ?case using assms by (simp add: bbq_defs circular_buffer_def bbq_ok_def)
next
  case (replays_snoc h s mx t op r s' sgs)
  then show ?case using assms
    by (cases op; cases "elems s") (auto simp: bbq_defs circular_buffer_def bbq_ok_def split: if_splits bbq_query.splits)
qed

section \<open>CountDownLatch\<close>

datatype latch_cond = Condition

datatype latch_op = Wait | CountDown | GetCount

datatype latch_ret = LVoid | LCount int

definition mkCountDownLatch :: "int \<Rightarrow> int" where
  "mkCountDownLatch count = count"

definition latch_wait_test :: "int \<Rightarrow> latch_cond option" where
  "latch_wait_test count = (if count > 0 then Some Condition else None)"

definition latch_wait :: "int \<Rightarrow> (latch_ret \<times> int \<times> latch_cond signal list) res" where
  "latch_wait count = Inr (LVoid, count, [])"

definition latch_countDown :: "int \<Rightarrow> (latch_ret \<times> int \<times> latch_cond signal list) res" where
  "latch_countDown count = (let count = count - 1 in Inr (LVoid, count, if count = 0 then [NotifyAll Condition] else []))"

definition latch_getCount :: "int \<Rightarrow> (latch_ret \<times> int \<times> latch_cond signal list) res" where
  "latch_getCount count = Inr (LCount count, count, [])"

definition CountDownLatch :: "(latch_op, int, latch_cond, latch_ret) prog" where
  "CountDownLatch = \<lparr>loops = (\<lambda>_. True),
     blocked = (\<lambda>op t mx count. Inr (case op of Wait \<Rightarrow> latch_wait_test count | _ \<Rightarrow> None)),
     body = (\<lambda>op t mx count. case op of Wait \<Rightarrow> latch_wait count | CountDown \<Rightarrow> latch_countDown count
       | GetCount \<Rightarrow> latch_getCount count)\<rparr>"

lemmas latch_defs = CountDownLatch_def mkCountDownLatch_def latch_wait_test_def latch_wait_def
  latch_countDown_def latch_getCount_def

definition latch_waits :: "latch_op \<Rightarrow> latch_cond option" where
  "latch_waits op = (if op = Wait then Some Condition else None)"

definition latch_avail :: "latch_cond \<Rightarrow> int \<Rightarrow> enat" where
  "latch_avail c count = (if count > 0 then 0 else \<infinity>)"

interpretation latch: wakeup_client CountDownLatch "mkCountDownLatch count" "\<lambda>_. True" latch_waits latch_avail
proof (unfold_locales, goal_cases)
  case (6 s mx t op r s' sgs c)
  then show ?case
    by (cases op; cases c) (auto simp: latch_defs latch_waits_def latch_avail_def Let_def split: if_splits)
qed (auto simp: latch_defs latch_waits_def latch_avail_def Let_def split: latch_op.splits if_splits)

text \<open>The number of completed \<^verbatim>\<open>countDown\<close> calls.\<close>

definition countdowns :: "(latch_op \<times> latch_ret) list \<Rightarrow> int" where
  "countdowns h = int (length (filter (\<lambda>e. fst e = CountDown) h))"

lemma latch_history:
  "replays CountDownLatch (mkCountDownLatch count) h s
    \<Longrightarrow> s = count - countdowns h \<and> (\<forall>h1 r h2. h = h1 @ (Wait, r) # h2 \<longrightarrow> count \<le> countdowns h1)"
proof (induction rule: replays.induct)
  case replays_nil
  then show ?case by (simp add: countdowns_def latch_defs)
next
  case (replays_snoc h s mx t op r s' sgs)
  then show ?case
    by (cases op) (auto simp: latch_defs countdowns_def Let_def append_eq_append_conv2 Cons_eq_append_conv
        append_eq_Cons_conv split: if_splits)
qed

lemma queue_available:
  assumes "wakeup_client P s0 ok waits avail" "runs P n may s0 m" "pcs m t = Waiting op c" "avail c (shared m) \<noteq> 0"
  shows "\<exists>u m'. active (pcs m u) \<and> mstep P n may u m m'"
proof -
  have "\<exists>u. active (pcs m u)"
  proof (rule ccontr)
    assume "\<nexists>u. active (pcs m u)"
    then have "awake waits c (pcs m u) \<Longrightarrow> False" for u
      by (auto simp: active_def awake_def split: pc.splits dest!: spec [of _ u])
    then show False
      using wakeup_client.runs_quiet [OF assms(1-3)] assms(4) by blast
  qed
  then show ?thesis
    using monitor_client.runs_progress [OF wakeup_client.axioms(1) [OF assms(1)] assms(2)] by blast
qed

section \<open>Properties\<close>

text \<open>
  C27: A \<^verbatim>\<open>BlockingQueue\<close> is first in, first out under every interleaving of any number of threads, with
  spurious wakeups and whichever thread a notification wakes: no assertion fails, at most one thread is inside,
  and the elements put in are exactly the elements taken out, in the same order, followed by those still queued.
\<close>

theorem blocking_queue_fifo:
  assumes "runs BlockingQueue n may mkBlockingQueue m"
  shows "\<not> failed m \<and> puts (history m) = takes (history m) @ shared m
    \<and> (in_section (pcs m t) \<longrightarrow> in_section (pcs m u) \<longrightarrow> t = u)"
  using bq.runs_safe [OF assms] bq_fifo bq.runs_exclusive [OF assms] by blast

theorem blocking_queue_fifo_witness:
  "\<exists>m. runs BlockingQueue 2 (\<lambda>_ _. True) mkBlockingQueue m \<and> history m = [(Put (7 :: int), Void)] \<and> pcs m 1 = Woken Take
    \<and> \<not> failed m \<and> puts (history m) = takes (history m) @ shared m"
proof -
  let ?P = "BlockingQueue :: ((int, bq_query) queue_op, int list, queue_cond, int queue_ret) prog"
  have a: "runs ?P 2 (\<lambda>_ _. True) mkBlockingQueue ((mkMonitor mkBlockingQueue)\<lparr>mutex := mkMutexLock,
      pcs := (\<lambda>_. Idle)(1 := Waiting Take NotEmpty)\<rparr>)"
    using runs_sleep [OF runs_init, of 1 2 _ "\<lambda>_ _. True" Take ?P NotEmpty]
    by (simp add: mkMonitor_def bq_defs)
  have "signals [Notify NotEmpty]
      ((\<lambda>_. Idle)(1 := Waiting (Take :: (int, bq_query) queue_op) NotEmpty, 2 := Leaving (Put 7) (Void :: int queue_ret)))
      ((\<lambda>_. Idle)(1 := Woken Take, 2 := Leaving (Put 7) Void))"
    by (rule signals_wake_one [where t = 1]) auto
  then obtain m where "runs ?P 2 (\<lambda>_ _. True) mkBlockingQueue m" "history m = [(Put 7, Void)]" "pcs m 1 = Woken Take"
    using runs_op [OF a, of 2 "Put 7" Void "[7]" "[Notify NotEmpty]"
        "(\<lambda>_. Idle)(1 := Woken Take, 2 := Leaving (Put 7) Void)"]
    by (auto simp: mkMonitor_def bq_defs)
  then show ?thesis using blocking_queue_fifo [of 2 "\<lambda>_ _. True" m] by auto
qed

text \<open>
  C28: A \<^verbatim>\<open>BoundedBlockingQueue\<close> is first in, first out and never holds more than its capacity, under
  every interleaving: in particular it never pushes into a full circular buffer, which would overwrite the oldest
  element, and never reads the front of an empty one.
\<close>

theorem bounded_queue_fifo:
  assumes "circular_buffer cb elems" "runs (BoundedBlockingQueue cb) n may (mkBoundedBlockingQueue cb cap) m"
  shows "\<not> failed m \<and> puts (history m) = takes (history m) @ elems (shared m) \<and> length (elems (shared m)) \<le> cap"
proof -
  note w = wakeup_client.axioms(1) [OF bbq_client [OF assms(1), of cap]]
  from monitor_client.runs_safe [OF w assms(2)] bbq_fifo [OF assms(1)] show ?thesis by (auto simp: bbq_ok_def)
qed

text \<open>A circular buffer as a list that drops its oldest element when it is full.\<close>

definition list_buffer :: "(nat \<times> 'a list, 'a) circular_buffer_ops" where
  "list_buffer = \<lparr>cb_new = (\<lambda>n. (n, [])), cb_full = (\<lambda>(n, xs). length xs = n), cb_empty = (\<lambda>(n, xs). xs = []),
     cb_push_back = (\<lambda>(n, xs) x. (n, if length xs < n then xs @ [x] else tl (xs @ [x]))),
     cb_front = (\<lambda>(n, xs). hd xs), cb_pop_front = (\<lambda>(n, xs). (n, tl xs)),
     cb_size = (\<lambda>(n, xs). length xs), cb_capacity = fst\<rparr>"

lemma list_buffer_ok: "circular_buffer list_buffer snd"
  by (auto simp: circular_buffer_def list_buffer_def)

lemma full_queue_run:
  "runs (BoundedBlockingQueue list_buffer) 2 (\<lambda>_ _. True) (mkBoundedBlockingQueue list_buffer 1)
    \<lparr>mutex = mkMutexLock, pcs = (\<lambda>_. Idle)(1 := Returned (Put (7 :: int)) Void, 2 := Waiting (Put 8) NotFull),
     shared = (1, [7]), history = [(Put 7, Void)], failed = False\<rparr>"
proof -
  let ?P = "BoundedBlockingQueue list_buffer :: ((int, bbq_query) queue_op, _, _, _) prog"
  have "signals [Notify NotEmpty] ((\<lambda>_. Idle :: ((int, bbq_query) queue_op, queue_cond, int queue_ret) pc)(1 := Leaving (Put 7) Void))
      ((\<lambda>_. Idle)(1 := Leaving (Put 7) Void))"
    by (rule signals_wake_none) simp
  then have "runs ?P 2 (\<lambda>_ _. True) (mkBoundedBlockingQueue list_buffer 1)
      \<lparr>mutex = mkMutexLock, pcs = (\<lambda>_. Idle)(1 := Returned (Put 7) Void),
       shared = (1, [7]), history = [(Put 7, Void)], failed = False\<rparr>"
    using runs_op [OF runs_init, of 1 2 _ "\<lambda>_ _. True" "Put 7" ?P Void "(1, [7])" "[Notify NotEmpty]"
        "(\<lambda>_. Idle)(1 := Leaving (Put 7) Void)"]
    by (simp add: mkMonitor_def bbq_defs list_buffer_def)
  from runs_sleep [OF this, of 2 "Put 8" NotFull] show ?thesis by (simp add: bbq_defs list_buffer_def)
qed

theorem bounded_queue_fifo_witness:
  "\<exists>m. runs (BoundedBlockingQueue list_buffer) 2 (\<lambda>_ _. True) (mkBoundedBlockingQueue list_buffer 1) m
    \<and> pcs m 2 = Waiting (Put (8 :: int)) NotFull \<and> \<not> failed m \<and> puts (history m) = takes (history m) @ snd (shared m)"
  using bounded_queue_fifo [OF list_buffer_ok full_queue_run] full_queue_run by (intro exI conjI) auto

text \<open>
  C29: No wakeup of the bounded queue is lost: in every reachable state in which a consumer sleeps although
  the queue is not empty, or a producer sleeps although it is not full, some thread is on its way and can take its
  next step. So a state in which no thread can move has only consumers of an empty or producers of a full queue
  asleep; notifying one thread per call is enough.
\<close>

theorem bounded_queue_no_lost_wakeup:
  assumes "circular_buffer cb elems" "runs (BoundedBlockingQueue cb) n may (mkBoundedBlockingQueue cb cap) m"
    and "pcs m t = Waiting Take NotEmpty \<and> elems (shared m) \<noteq> []
      \<or> pcs m t = Waiting (Put x) NotFull \<and> length (elems (shared m)) < cap"
  shows "\<exists>u m'. active (pcs m u) \<and> mstep (BoundedBlockingQueue cb) n may u m m'"
  using assms(3) queue_available [OF bbq_client [OF assms(1)] assms(2), of t]
  by (auto simp: bbq_avail_def zero_enat_def)

text \<open>Two consumers sleep, then a producer puts an element and wakes one of them.\<close>

lemma two_consumers_run:
  "runs (BoundedBlockingQueue list_buffer) 3 (\<lambda>_ _. True) (mkBoundedBlockingQueue list_buffer 2)
    \<lparr>mutex = mkMutexLock, pcs = (\<lambda>_. Idle)(1 := Woken Take, 2 := Waiting Take NotEmpty, 3 := Returned (Put (7 :: int)) Void),
     shared = (2, [7]), history = [(Put 7, Void)], failed = False\<rparr>"
proof -
  let ?P = "BoundedBlockingQueue list_buffer :: ((int, bbq_query) queue_op, _, _, _) prog"
  let ?s = "mkBoundedBlockingQueue list_buffer 2 :: nat \<times> int list"
  have a: "runs ?P 3 (\<lambda>_ _. True) ?s ((mkMonitor ?s)\<lparr>mutex := mkMutexLock, pcs := (\<lambda>_. Idle)(1 := Waiting Take NotEmpty)\<rparr>)"
    using runs_sleep [OF runs_init, of 1 3 ?s "\<lambda>_ _. True" Take ?P NotEmpty]
    by (simp add: mkMonitor_def bbq_defs list_buffer_def)
  have b: "runs ?P 3 (\<lambda>_ _. True) ?s ((mkMonitor ?s)\<lparr>mutex := mkMutexLock,
      pcs := (\<lambda>_. Idle)(1 := Waiting Take NotEmpty, 2 := Waiting Take NotEmpty)\<rparr>)"
    using runs_sleep [OF a, of 2 Take NotEmpty] by (simp add: mkMonitor_def bbq_defs list_buffer_def)
  have "signals [Notify NotEmpty]
      ((\<lambda>_. Idle)(1 := Waiting (Take :: (int, bbq_query) queue_op) NotEmpty, 2 := Waiting Take NotEmpty,
        3 := Leaving (Put 7) (Void :: int queue_ret)))
      ((\<lambda>_. Idle)(1 := Woken Take, 2 := Waiting Take NotEmpty, 3 := Leaving (Put 7) Void))"
    by (rule signals_wake_one [where t = 1]) auto
  with runs_op [OF b, of 3 "Put 7" Void "(2, [7])" "[Notify NotEmpty]"
      "(\<lambda>_. Idle)(1 := Woken Take, 2 := Waiting Take NotEmpty, 3 := Leaving (Put 7) Void)"]
  show ?thesis by (simp add: mkMonitor_def bbq_defs list_buffer_def)
qed

theorem bounded_queue_no_lost_wakeup_witness:
  "\<exists>m u m'. runs (BoundedBlockingQueue list_buffer) 3 (\<lambda>_ _. True) (mkBoundedBlockingQueue list_buffer 2) m
    \<and> pcs m 2 = Waiting (Take :: (int, bbq_query) queue_op) NotEmpty \<and> shared m = (2, [7 :: int])
    \<and> active (pcs m u) \<and> mstep (BoundedBlockingQueue list_buffer) 3 (\<lambda>_ _. True) u m m'"
proof -
  have "\<exists>m. runs (BoundedBlockingQueue list_buffer) 3 (\<lambda>_ _. True) (mkBoundedBlockingQueue list_buffer 2) m
    \<and> pcs m 2 = Waiting (Take :: (int, bbq_query) queue_op) NotEmpty \<and> shared m = (2, [7 :: int])"
    by (intro exI conjI, rule two_consumers_run) simp_all
  then obtain m where m: "runs (BoundedBlockingQueue list_buffer) 3 (\<lambda>_ _. True) (mkBoundedBlockingQueue list_buffer 2) m"
    "pcs m 2 = Waiting (Take :: (int, bbq_query) queue_op) NotEmpty" "shared m = (2, [7 :: int])" by blast
  then show ?thesis using bounded_queue_no_lost_wakeup [OF list_buffer_ok m(1), of 2] by auto
qed

text \<open>
  C30: \<^verbatim>\<open>CountDownLatch::wait\<close> returns only after \<^verbatim>\<open>count\<close> calls of \<^verbatim>\<open>countDown\<close> have
  completed, and once they have, no thread is left asleep with nobody on the way to finish.
\<close>

theorem latch_waits_for_countdowns:
  assumes "runs CountDownLatch n may (mkCountDownLatch count) m"
  shows "(\<forall>h1 r h2. history m = h1 @ (Wait, r) # h2 \<longrightarrow> count \<le> countdowns h1)
    \<and> (pcs m t = Waiting op c \<longrightarrow> count \<le> countdowns (history m)
       \<longrightarrow> (\<exists>u m'. active (pcs m u) \<and> mstep CountDownLatch n may u m m'))"
proof -
  have "replays CountDownLatch (mkCountDownLatch count) (history m) (shared m)"
    using latch.runs_safe [OF assms] by simp
  note h = latch_history [OF this]
  have "\<exists>u m'. active (pcs m u) \<and> mstep CountDownLatch n may u m m'"
    if "pcs m t = Waiting op c" "count \<le> countdowns (history m)"
    using queue_available [OF latch.wakeup_client_axioms assms that(1)] that(2) h by (simp add: latch_avail_def)
  with h show ?thesis by blast
qed

theorem latch_waits_for_countdowns_witness:
  "\<exists>m. runs CountDownLatch 2 (\<lambda>_ _. True) (mkCountDownLatch 1) m
    \<and> history m = [(CountDown, LVoid), (Wait, LVoid)] \<and> 1 \<le> countdowns [(CountDown, LVoid)]"
proof -
  let ?m = "mkMonitor (mkCountDownLatch 1) :: (latch_op, int, latch_cond, latch_ret) monitor"
  let ?p = "(\<lambda>_. Idle)(2 := Leaving CountDown LVoid)"
  have "signals [NotifyAll Condition] ?p ?p" by (rule signals_all_none) simp
  then have a: "runs CountDownLatch 2 (\<lambda>_ _. True) (mkCountDownLatch 1)
      (?m\<lparr>shared := 0, history := [(CountDown, LVoid)], mutex := mkMutexLock, pcs := (\<lambda>_. Idle)(2 := Returned CountDown LVoid)\<rparr>)"
    using runs_op [OF runs_init, of 2 2 _ "\<lambda>_ _. True" CountDown CountDownLatch LVoid 0 "[NotifyAll Condition]" ?p]
    by (simp add: mkMonitor_def latch_defs Let_def)
  obtain m where m: "runs CountDownLatch 2 (\<lambda>_ _. True) (mkCountDownLatch 1) m"
    "history m = [(CountDown, LVoid), (Wait, LVoid)]"
    using runs_op [OF a, of 1 Wait LVoid 0 "[]" "(\<lambda>_. Idle)(2 := Returned CountDown LVoid, 1 := Leaving Wait LVoid)"]
    by (auto simp: mkMonitor_def latch_defs)
  have "history m = [(CountDown, LVoid)] @ (Wait, LVoid) # []" using m(2) by simp
  with latch_waits_for_countdowns [OF m(1)] have "1 \<le> countdowns [(CountDown, LVoid)]" by blast
  with m show ?thesis by blast
qed

end
