(* ===== verification/ThreadPool.thy ===== *)
theory ThreadPool
  imports Queues "HOL-Library.Multiset"
begin

text \<open>
  \<^verbatim>\<open>muduo/base/ThreadPool.h\<close> and \<^verbatim>\<open>ThreadPool.cc\<close>: the bounded task queue as a monitor, and the whole
  pool: worker threads in \<^verbatim>\<open>runInThread\<close>, which read \<^verbatim>\<open>running_\<close> without the lock, beside any number of
  threads that call \<^verbatim>\<open>run\<close>, \<^verbatim>\<open>stop\<close> and \<^verbatim>\<open>queueSize\<close>. A task is an opaque value; \<open>throws\<close> tells which tasks
  let an exception escape, which ends the process.
\<close>

section \<open>The object\<close>

record 'f ThreadPool =
  tp_name :: string
  threadInitCallback :: bool
  tp_threads :: "string list"
  tp_queue :: "'f list"
  maxQueueSize :: nat
  running :: bool

definition mkThreadPool :: "string \<Rightarrow> 'f ThreadPool" where
  "mkThreadPool nameArg = \<lparr>tp_name = nameArg, threadInitCallback = False, tp_threads = [], tp_queue = [],
     maxQueueSize = 0, running = False\<rparr>"

definition setMaxQueueSize :: "nat \<Rightarrow> 'f ThreadPool \<Rightarrow> 'f ThreadPool" where
  "setMaxQueueSize maxSize s = s\<lparr>maxQueueSize := maxSize\<rparr>"

definition setThreadInitCallback :: "'f ThreadPool \<Rightarrow> 'f ThreadPool" where
  "setThreadInitCallback s = s\<lparr>threadInitCallback := True\<rparr>"

text \<open>The result tells whether the callback runs in the calling thread.\<close>

definition tp_start :: "nat \<Rightarrow> 'f ThreadPool \<Rightarrow> (bool \<times> 'f ThreadPool) res" where
  "tp_start numThreads s =
    bindE (assertE (tp_threads s = [])) (\<lambda>_.
    Inr (numThreads = 0 \<and> threadInitCallback s,
      s\<lparr>running := True, tp_threads := map (\<lambda>i. tp_name s @ snprintf 32 (dec_nat (i + 1))) [0..<numThreads]\<rparr>))"

section \<open>The operations under the lock\<close>

datatype 'f pool_op = Run 'f | TakeTask | Stop | QueueSize

datatype 'f pool_ret = PVoid | Task "'f option" | PSize nat

definition isFull :: "nat \<Rightarrow> MutexLock \<Rightarrow> 'f ThreadPool \<Rightarrow> bool res" where
  "isFull t mx s = bindE (assertLocked t mx) (\<lambda>_.
    Inr (maxQueueSize s > 0 \<and> length (tp_queue s) \<ge> maxQueueSize s))"

definition tp_run_test :: "nat \<Rightarrow> MutexLock \<Rightarrow> 'f ThreadPool \<Rightarrow> queue_cond option res" where
  "tp_run_test t mx s = bindE (isFull t mx s) (\<lambda>full. Inr (if full then Some NotFull else None))"

definition tp_run_locked :: "'f \<Rightarrow> nat \<Rightarrow> MutexLock \<Rightarrow> 'f ThreadPool
    \<Rightarrow> ('f pool_ret \<times> 'f ThreadPool \<times> queue_cond signal list) res" where
  "tp_run_locked f t mx s =
    bindE (isFull t mx s) (\<lambda>full.
    bindE (assertE (\<not> full)) (\<lambda>_.
    Inr (PVoid, s\<lparr>tp_queue := tp_queue s @ [f]\<rparr>, [Notify NotEmpty])))"

text \<open>A pool without threads calls the task in the calling thread (\<open>Inl\<close>), otherwise the queue is used.\<close>

definition tp_run :: "'f \<Rightarrow> 'f ThreadPool \<Rightarrow> 'f + 'f pool_op" where
  "tp_run task s = (if tp_threads s = [] then Inl task else Inr (Run task))"

definition tp_destroy :: "'f ThreadPool \<Rightarrow> 'f pool_op option" where
  "tp_destroy s = (if running s then Some Stop else None)"

definition tp_take_test :: "'f ThreadPool \<Rightarrow> queue_cond option" where
  "tp_take_test s = (if tp_queue s = [] \<and> running s then Some NotEmpty else None)"

definition tp_take :: "'f ThreadPool \<Rightarrow> ('f pool_ret \<times> 'f ThreadPool \<times> queue_cond signal list) res" where
  "tp_take s =
    (if tp_queue s \<noteq> []
     then Inr (Task (Some (hd (tp_queue s))), s\<lparr>tp_queue := tl (tp_queue s)\<rparr>,
       if maxQueueSize s > 0 then [Notify NotFull] else [])
     else Inr (Task None, s, []))"

definition tp_stop :: "'f ThreadPool \<Rightarrow> ('f pool_ret \<times> 'f ThreadPool \<times> queue_cond signal list) res" where
  "tp_stop s = Inr (PVoid, s\<lparr>running := False\<rparr>, [NotifyAll NotEmpty])"

definition queueSize :: "'f ThreadPool \<Rightarrow> ('f pool_ret \<times> 'f ThreadPool \<times> queue_cond signal list) res" where
  "queueSize s = Inr (PSize (length (tp_queue s)), s, [])"

definition ThreadPool :: "('f pool_op, 'f ThreadPool, queue_cond, 'f pool_ret) prog" where
  "ThreadPool = \<lparr>loops = (\<lambda>_. True),
     blocked = (\<lambda>op t mx s. case op of Run f \<Rightarrow> tp_run_test t mx s | TakeTask \<Rightarrow> Inr (tp_take_test s) | _ \<Rightarrow> Inr None),
     body = (\<lambda>op t mx s. case op of Run f \<Rightarrow> tp_run_locked f t mx s | TakeTask \<Rightarrow> tp_take s | Stop \<Rightarrow> tp_stop s
       | QueueSize \<Rightarrow> queueSize s)\<rparr>"

lemmas pool_defs = ThreadPool_def isFull_def tp_run_test_def tp_run_locked_def tp_take_test_def tp_take_def
  tp_stop_def queueSize_def assertLocked_def isLockedByThisThread_def

definition pool_waits :: "'f pool_op \<Rightarrow> queue_cond option" where
  "pool_waits op = (case op of Run f \<Rightarrow> Some NotFull | TakeTask \<Rightarrow> Some NotEmpty | _ \<Rightarrow> None)"

definition pool_avail :: "queue_cond \<Rightarrow> 'f ThreadPool \<Rightarrow> enat" where
  "pool_avail c s = (case c of
     NotEmpty \<Rightarrow> if running s then enat (length (tp_queue s)) else \<infinity>
   | NotFull \<Rightarrow> if maxQueueSize s > 0 then enat (maxQueueSize s - length (tp_queue s)) else \<infinity>)"

interpretation tp: wakeup_client ThreadPool s0 "\<lambda>_. True" pool_waits pool_avail
proof (unfold_locales, goal_cases)
  case (6 s mx t op r s' sgs c)
  then show ?case
    by (cases op; cases c; cases "tp_queue s")
      (auto simp: pool_defs pool_waits_def pool_avail_def one_enat_def zero_enat_def split: if_splits)
qed (auto simp: pool_defs pool_waits_def pool_avail_def zero_enat_def split: pool_op.splits if_splits)

section \<open>Workers and clients\<close>

text \<open>
  A worker has started (\<open>WStart\<close>), is at the test of its loop, inside \<^verbatim>\<open>take\<close>, has returned a task it is about to
  call, or has left \<^verbatim>\<open>runInThread\<close>. Threads \<open>1, \<dots>, k\<close> are the workers, \<open>k + 1, \<dots>, n\<close> the others.
\<close>

datatype worker = WStart | WLoop | WTake | WDone

record 'f pool =
  mon :: "('f pool_op, 'f ThreadPool, queue_cond, 'f pool_ret) monitor"
  wstate :: "nat \<Rightarrow> worker"
  executed :: "'f list"
  aborted :: bool

definition mkPool :: "'f ThreadPool \<Rightarrow> 'f pool" where
  "mkPool s = \<lparr>mon = mkMonitor s, wstate = (\<lambda>_. WStart), executed = [], aborted = False\<rparr>"

inductive runInThread :: "('f \<Rightarrow> bool) \<Rightarrow> nat \<Rightarrow> nat \<Rightarrow> 'f pool \<Rightarrow> 'f pool \<Rightarrow> bool"
  for throws :: "'f \<Rightarrow> bool" and n :: nat and t :: nat where
  init_callback: "\<lbrakk>wstate p t = WStart; \<not> aborted p\<rbrakk>
    \<Longrightarrow> runInThread throws n t p (p\<lparr>wstate := (wstate p)(t := WLoop)\<rparr>)"
| loop_again: "\<lbrakk>wstate p t = WLoop; running (shared (mon p)); \<not> aborted p;
      mstep ThreadPool n (\<lambda>_ op. op = TakeTask) t (mon p) m; pcs m t = Entering TakeTask\<rbrakk>
    \<Longrightarrow> runInThread throws n t p (p\<lparr>mon := m, wstate := (wstate p)(t := WTake)\<rparr>)"
| loop_exit: "\<lbrakk>wstate p t = WLoop; \<not> running (shared (mon p)); \<not> aborted p\<rbrakk>
    \<Longrightarrow> runInThread throws n t p (p\<lparr>wstate := (wstate p)(t := WDone)\<rparr>)"
| inside_take: "\<lbrakk>wstate p t = WTake; mstep ThreadPool n (\<lambda>_ _. False) t (mon p) m; \<not> aborted p\<rbrakk>
    \<Longrightarrow> runInThread throws n t p (p\<lparr>mon := m\<rparr>)"
| call_task: "\<lbrakk>wstate p t = WTake; pcs (mon p) t = Returned TakeTask (Task (Some f)); \<not> throws f; \<not> aborted p\<rbrakk>
    \<Longrightarrow> runInThread throws n t p (p\<lparr>executed := executed p @ [f], wstate := (wstate p)(t := WLoop)\<rparr>)"
| task_throws: "\<lbrakk>wstate p t = WTake; pcs (mon p) t = Returned TakeTask (Task (Some f)); throws f; \<not> aborted p\<rbrakk>
    \<Longrightarrow> runInThread throws n t p (p\<lparr>executed := executed p @ [f], wstate := (wstate p)(t := WLoop), aborted := True\<rparr>)"
| no_task: "\<lbrakk>wstate p t = WTake; pcs (mon p) t = Returned TakeTask (Task None); \<not> aborted p\<rbrakk>
    \<Longrightarrow> runInThread throws n t p (p\<lparr>wstate := (wstate p)(t := WLoop)\<rparr>)"

inductive pool_step :: "('f \<Rightarrow> bool) \<Rightarrow> nat \<Rightarrow> nat \<Rightarrow> 'f pool \<Rightarrow> 'f pool \<Rightarrow> bool"
  for throws :: "'f \<Rightarrow> bool" and k n :: nat where
  worker: "\<lbrakk>1 \<le> t; t \<le> k; runInThread throws n t p p'\<rbrakk> \<Longrightarrow> pool_step throws k n p p'"
| client: "\<lbrakk>k < t; mstep ThreadPool n (\<lambda>_ op. op \<noteq> TakeTask) t (mon p) m; \<not> aborted p\<rbrakk>
    \<Longrightarrow> pool_step throws k n p (p\<lparr>mon := m\<rparr>)"

definition pool_runs :: "('f \<Rightarrow> bool) \<Rightarrow> nat \<Rightarrow> nat \<Rightarrow> 'f ThreadPool \<Rightarrow> 'f pool \<Rightarrow> bool" where
  "pool_runs throws k n s = reach (\<lambda>p. p = mkPool s) (pool_step throws k n)"

section \<open>Every task at most once, none lost\<close>

fun submitted :: "('f pool_op \<times> 'f pool_ret) list \<Rightarrow> 'f list" where
  "submitted [] = []"
| "submitted ((Run f, r) # h) = f # submitted h"
| "submitted (_ # h) = submitted h"

fun taken :: "('f pool_op \<times> 'f pool_ret) list \<Rightarrow> 'f list" where
  "taken [] = []"
| "taken ((TakeTask, Task (Some f)) # h) = f # taken h"
| "taken (_ # h) = taken h"

lemma submitted_append [simp]: "submitted (h @ h') = submitted h @ submitted h'"
  by (induction h rule: submitted.induct) auto

lemma taken_append [simp]: "taken (h @ h') = taken h @ taken h'"
  by (induction h rule: taken.induct) auto

lemma pool_fifo:
  "replays ThreadPool s0 h s \<Longrightarrow> tp_queue s0 = [] \<Longrightarrow> submitted h = taken h @ tp_queue s"
proof (induction rule: replays.induct)
  case (replays_snoc h s mx t op r s' sgs)
  then show ?case by (cases op; cases "tp_queue s") (auto simp: pool_defs split: if_splits)
qed simp

lemma pool_bound:
  "replays ThreadPool s0 h s \<Longrightarrow> tp_queue s0 = [] \<Longrightarrow> maxQueueSize s = maxQueueSize s0
    \<and> (0 < maxQueueSize s0 \<longrightarrow> length (tp_queue s) \<le> maxQueueSize s0)"
proof (induction rule: replays.induct)
  case (replays_snoc h s mx t op r s' sgs)
  then show ?case by (cases op; cases "tp_queue s") (auto simp: pool_defs split: if_splits)
qed simp

text \<open>The task a worker has taken and not yet called.\<close>

definition in_pc :: "('f pool_op, queue_cond, 'f pool_ret) pc \<Rightarrow> 'f list" where
  "in_pc q = (case q of Leaving TakeTask (Task (Some f)) \<Rightarrow> [f] | Returned TakeTask (Task (Some f)) \<Rightarrow> [f] | _ \<Rightarrow> [])"

definition in_hand :: "'f pool \<Rightarrow> nat \<Rightarrow> 'f list" where
  "in_hand p t = (if wstate p t = WTake then in_pc (pcs (mon p) t) else [])"

definition all_in_hand :: "nat \<Rightarrow> 'f pool \<Rightarrow> 'f multiset" where
  "all_in_hand k p = (\<Sum>t\<in>{1..k}. mset (in_hand p t))"

lemma pool_step_mon:
  assumes "pool_step throws k n p p'" "runs ThreadPool n (\<lambda>_ _. True) s0 (mon p)"
  shows "runs ThreadPool n (\<lambda>_ _. True) s0 (mon p')"
  using assms(1)
proof (cases rule: pool_step.cases)
  case (worker t)
  from worker(3) show ?thesis
    by (cases rule: runInThread.cases) (use assms(2) in \<open>auto intro: runs_step mstep_mono\<close>)
next
  case (client t m)
  with assms(2) show ?thesis by (auto intro: runs_step mstep_mono)
qed

lemma pool_runs_mon: "pool_runs throws k n s p \<Longrightarrow> runs ThreadPool n (\<lambda>_ _. True) s (mon p)"
  unfolding pool_runs_def
proof (induction rule: reach.induct)
  case (reach_init p)
  then show ?case by (simp add: mkPool_def runs_init)
qed (rule pool_step_mon)

lemma in_pc_simps [simp]:
  "in_pc Idle = []" "in_pc (Entering op) = []" "in_pc (Testing op) = []" "in_pc (Waiting op c) = []"
  "in_pc (Woken op) = []" "in_pc (Running op) = []" "in_pc (Returned op r) = in_pc (Leaving op r)"
  by (auto simp: in_pc_def split: pool_op.splits)

lemma in_pc_task: "in_pc (Leaving TakeTask (Task (Some f))) = [f]" "in_pc (Leaving TakeTask (Task None)) = []"
  by (simp_all add: in_pc_def)

lemma taken_event: "taken [(op, r)] = in_pc (Leaving op r)"
  by (auto simp: in_pc_def split: pool_op.splits pool_ret.splits option.splits)

lemma mstep_self:
  assumes "mstep P n may t m m'"
  shows "(\<exists>op. pcs m' t = Entering op \<and> may t op \<and> history m' = history m)
      \<or> history m' = history m \<and> op_of (pcs m' t) = op_of (pcs m t) \<and> in_pc (pcs m' t) = in_pc (pcs m t)
      \<or> (\<exists>op r. pcs m t = Running op \<and> pcs m' t = Leaving op r \<and> history m' = history m @ [(op, r)])"
  using assms
proof (cases rule: mstep.cases)
  case (run_body op r s sgs p)
  then show ?thesis using signals_same [OF run_body(5), of t op r] by simp
qed auto

definition pool_inv :: "nat \<Rightarrow> 'f pool \<Rightarrow> bool" where
  "pool_inv k p \<longleftrightarrow> mset (taken (history (mon p))) = mset (executed p) + all_in_hand k p
    \<and> (\<forall>t. 1 \<le> t \<longrightarrow> t \<le> k \<longrightarrow>
        (wstate p t = WTake \<or> pcs (mon p) t = Idle \<or> (\<exists>r. pcs (mon p) t = Returned TakeTask r))
        \<and> (op_of (pcs (mon p) t) = None \<or> op_of (pcs (mon p) t) = Some TakeTask))
    \<and> (\<forall>t. k < t \<longrightarrow> op_of (pcs (mon p) t) \<noteq> Some TakeTask)"

lemma all_in_hand_move:
  assumes "1 \<le> t" "t \<le> k" "\<And>u. u \<noteq> t \<Longrightarrow> in_hand p' u = in_hand p u"
  shows "all_in_hand k p' + mset (in_hand p t) = all_in_hand k p + mset (in_hand p' t)"
proof -
  have split: "all_in_hand k q = mset (in_hand q t) + (\<Sum>u\<in>{1..k} - {t}. mset (in_hand q u))" for q :: "'a pool"
    unfolding all_in_hand_def using assms(1,2) by (intro sum.remove) auto
  have "(\<Sum>u\<in>{1..k} - {t}. mset (in_hand p' u)) = (\<Sum>u\<in>{1..k} - {t}. mset (in_hand p u))"
    using assms(3) by (intro sum.cong) auto
  then show ?thesis by (simp add: split)
qed

lemma all_in_hand_same: "(\<And>u. u \<le> k \<Longrightarrow> in_hand p' u = in_hand p u) \<Longrightarrow> all_in_hand k p' = all_in_hand k p"
  unfolding all_in_hand_def by (intro sum.cong) auto

lemma mstep_in_pc: "mstep P n may t m m' \<Longrightarrow> u \<noteq> t \<Longrightarrow> in_pc (pcs m' u) = in_pc (pcs m u)"
  and mstep_outside: "mstep P n may t m m' \<Longrightarrow> u \<noteq> t \<Longrightarrow> pcs m u = Idle \<or> (\<exists>r. pcs m u = Returned op r)
    \<Longrightarrow> pcs m' u = pcs m u"
  using mstep_others [of P n may t m m' u] by auto

lemma pool_inv_client:
  assumes "pool_inv k p" "k < t" "mstep ThreadPool n (\<lambda>_ op. op \<noteq> TakeTask) t (mon p) m"
  shows "pool_inv k (p\<lparr>mon := m\<rparr>)"
proof -
  have hand: "all_in_hand k (p\<lparr>mon := m\<rparr>) = all_in_hand k p"
    using assms(2) mstep_in_pc [OF assms(3)] by (intro all_in_hand_same) (auto simp: in_hand_def)
  have t: "op_of (pcs (mon p) t) \<noteq> Some TakeTask" using assms(1,2) by (simp add: pool_inv_def)
  have h: "taken (history m) = taken (history (mon p)) \<and> op_of (pcs m t) \<noteq> Some TakeTask"
    using mstep_self [OF assms(3)] t by (auto simp: taken_event in_pc_def split: pool_op.splits)
  have ops: "op_of (pcs m u) \<noteq> Some TakeTask" if "k < u" for u
    using assms(1) h that mstep_op [OF assms(3), of u] by (cases "u = t") (auto simp: pool_inv_def)
  have workers: "(wstate p u = WTake \<or> pcs m u = Idle \<or> (\<exists>r. pcs m u = Returned TakeTask r))
      \<and> (op_of (pcs m u) = None \<or> op_of (pcs m u) = Some TakeTask)" if "1 \<le> u" "u \<le> k" for u
    using assms(1,2) that mstep_op [OF assms(3), of u] mstep_outside [OF assms(3), of u TakeTask]
    unfolding pool_inv_def by (metis leD)
  from hand h ops workers assms(1) show ?thesis by (simp add: pool_inv_def)
qed

text \<open>A step of a worker inside the monitor.\<close>

lemma pool_inv_inside:
  assumes "pool_inv k p" "1 \<le> t" "t \<le> k" "wstate p t = WTake" "mstep ThreadPool n (\<lambda>_ _. False) t (mon p) m"
  shows "pool_inv k (p\<lparr>mon := m\<rparr>)"
proof -
  let ?p = "p\<lparr>mon := m\<rparr>"
  have hand: "all_in_hand k ?p + mset (in_hand p t) = all_in_hand k p + mset (in_hand ?p t)"
    using mstep_in_pc [OF assms(5)] assms(2,3) by (intro all_in_hand_move) (auto simp: in_hand_def)
  have t: "op_of (pcs (mon p) t) = None \<or> op_of (pcs (mon p) t) = Some TakeTask"
    using assms(1-3) by (simp add: pool_inv_def)
  have "op_of (pcs m t) = op_of (pcs (mon p) t)
      \<and> mset (taken (history m)) + mset (in_hand p t) = mset (taken (history (mon p))) + mset (in_hand ?p t)"
    using mstep_self [OF assms(5)] assms(4) by (elim disjE exE conjE) (simp_all add: in_hand_def taken_event)
  then have op: "op_of (pcs m t) = op_of (pcs (mon p) t)"
    and new: "mset (taken (history m)) + mset (in_hand p t) = mset (taken (history (mon p))) + mset (in_hand ?p t)"
    by simp_all
  have "mset (taken (history m)) + mset (in_hand p t) = mset (executed p) + all_in_hand k ?p + mset (in_hand p t)"
    unfolding new using assms(1) hand by (simp add: pool_inv_def add.assoc)
  then have "mset (taken (history m)) = mset (executed p) + all_in_hand k ?p" by simp
  moreover have "op_of (pcs m u) \<noteq> Some TakeTask" if "k < u" for u
    using assms(1,3) that mstep_op [OF assms(5), of u] by (auto simp: pool_inv_def)
  moreover have "(wstate p u = WTake \<or> pcs m u = Idle \<or> (\<exists>r. pcs m u = Returned TakeTask r))
      \<and> (op_of (pcs m u) = None \<or> op_of (pcs m u) = Some TakeTask)" if "1 \<le> u" "u \<le> k" for u
  proof (cases "u = t")
    case True
    with op t assms(4) show ?thesis by simp
  next
    case False
    with assms(1) that show ?thesis
      using mstep_op [OF assms(5), of u] mstep_outside [OF assms(5), of u TakeTask] unfolding pool_inv_def by metis
  qed
  ultimately show ?thesis by (simp add: pool_inv_def)
qed

lemma pool_inv_call:
  assumes "pool_inv k p" "1 \<le> t" "t \<le> k" "wstate p t = WLoop"
    "mstep ThreadPool n (\<lambda>_ op. op = TakeTask) t (mon p) m" "pcs m t = Entering TakeTask"
  shows "pool_inv k (p\<lparr>mon := m, wstate := (wstate p)(t := WTake)\<rparr>)"
proof -
  have hand: "all_in_hand k (p\<lparr>mon := m, wstate := (wstate p)(t := WTake)\<rparr>) = all_in_hand k p"
  proof (rule all_in_hand_same)
    fix u show "in_hand (p\<lparr>mon := m, wstate := (wstate p)(t := WTake)\<rparr>) u = in_hand p u"
      using assms(4,6) mstep_in_pc [OF assms(5), of u] by (cases "u = t") (simp_all add: in_hand_def)
  qed
  have h: "history m = history (mon p)"
    using mstep_self [OF assms(5)] assms(6) by auto
  have "op_of (pcs m u) \<noteq> Some TakeTask" if "k < u" for u
    using assms(1,3) that mstep_op [OF assms(5), of u] by (auto simp: pool_inv_def)
  moreover have "(((wstate p)(t := WTake)) u = WTake \<or> pcs m u = Idle \<or> (\<exists>r. pcs m u = Returned TakeTask r))
      \<and> (op_of (pcs m u) = None \<or> op_of (pcs m u) = Some TakeTask)" if "1 \<le> u" "u \<le> k" for u
  proof (cases "u = t")
    case True
    with assms(6) show ?thesis by simp
  next
    case False
    have old: "wstate p u = WTake \<or> pcs (mon p) u = Idle \<or> (\<exists>r. pcs (mon p) u = Returned TakeTask r)"
      "op_of (pcs (mon p) u) = None \<or> op_of (pcs (mon p) u) = Some TakeTask"
      using assms(1) that by (simp_all add: pool_inv_def)
    with False mstep_op [OF assms(5), of u] mstep_outside [OF assms(5), of u TakeTask] show ?thesis by auto
  qed
  ultimately show ?thesis using hand h assms(1) by (simp add: pool_inv_def)
qed

lemma pool_inv_worker:
  assumes "pool_inv k p" "1 \<le> t" "t \<le> k" "runInThread throws n t p p'"
  shows "pool_inv k p'"
  using assms(4)
proof (cases rule: runInThread.cases)
  case init_callback
  have "all_in_hand k p' = all_in_hand k p"
    using init_callback by (intro all_in_hand_same) (auto simp: in_hand_def)
  with assms(1) init_callback show ?thesis by (auto simp: pool_inv_def)
next
  case (loop_again m)
  then show ?thesis using pool_inv_call [OF assms(1-3)] by simp
next
  case loop_exit
  have "all_in_hand k p' = all_in_hand k p"
    using loop_exit by (intro all_in_hand_same) (auto simp: in_hand_def)
  with assms(1) loop_exit show ?thesis by (auto simp: pool_inv_def)
next
  case (inside_take m)
  then show ?thesis using pool_inv_inside [OF assms(1-3)] by simp
next
  case (call_task f)
  have "all_in_hand k p' + mset (in_hand p t) = all_in_hand k p + mset (in_hand p' t)"
    using call_task assms(2,3) by (intro all_in_hand_move) (auto simp: in_hand_def)
  then have "all_in_hand k p = all_in_hand k p' + {#f#}"
    using call_task by (simp add: in_hand_def in_pc_task)
  with assms(1) call_task show ?thesis by (auto simp: pool_inv_def)
next
  case (task_throws f)
  have "all_in_hand k p' + mset (in_hand p t) = all_in_hand k p + mset (in_hand p' t)"
    using task_throws assms(2,3) by (intro all_in_hand_move) (auto simp: in_hand_def)
  then have "all_in_hand k p = all_in_hand k p' + {#f#}"
    using task_throws by (simp add: in_hand_def in_pc_task)
  with assms(1) task_throws show ?thesis by (auto simp: pool_inv_def)
next
  case no_task
  have "all_in_hand k p' = all_in_hand k p"
    using no_task by (intro all_in_hand_same) (auto simp: in_hand_def in_pc_task)
  with assms(1) no_task show ?thesis by (auto simp: pool_inv_def)
qed

interpretation pools: transition_system "\<lambda>p. p = mkPool s" "pool_step throws k n" "pool_inv k"
proof
  fix p :: "'a pool" assume "p = mkPool s"
  then show "pool_inv k p" by (simp add: pool_inv_def mkPool_def mkMonitor_def all_in_hand_def in_hand_def)
next
  fix p p' :: "'a pool" assume "pool_inv k p" "pool_step throws k n p p'"
  then show "pool_inv k p'" by (auto elim!: pool_step.cases intro: pool_inv_worker pool_inv_client)
qed

lemma pool_accounts:
  assumes "pool_runs throws k n s p" "tp_queue s = []"
  shows "mset (submitted (history (mon p))) = mset (executed p) + all_in_hand k p + mset (tp_queue (shared (mon p)))"
    and "\<not> failed (mon p)"
    and "0 < maxQueueSize s \<Longrightarrow> length (tp_queue (shared (mon p))) \<le> maxQueueSize s"
proof -
  note r = tp.runs_safe [OF pool_runs_mon [OF assms(1)]]
  have f: "submitted (history (mon p)) = taken (history (mon p)) @ tp_queue (shared (mon p))"
    using pool_fifo assms(2) r by blast
  have "pool_inv k p" using pools.reach_inv assms(1) by (simp add: pool_runs_def)
  then show "mset (submitted (history (mon p))) = mset (executed p) + all_in_hand k p + mset (tp_queue (shared (mon p)))"
    unfolding f by (simp add: pool_inv_def)
  show "\<not> failed (mon p)" using r by simp
  show "0 < maxQueueSize s \<Longrightarrow> length (tp_queue (shared (mon p))) \<le> maxQueueSize s"
    using pool_bound assms(2) r by blast
qed

section \<open>Runs for the examples\<close>

lemma pool_runs_init: "pool_runs throws k n s (mkPool s)"
  unfolding pool_runs_def by (rule reach_init) simp

lemma pool_runs_step: "pool_runs throws k n s p \<Longrightarrow> pool_step throws k n p p' \<Longrightarrow> pool_runs throws k n s p'"
  unfolding pool_runs_def by (rule reach_step)

lemma pool_runs_client:
  assumes "(mstep ThreadPool n (\<lambda>_ op. op \<noteq> TakeTask) t)\<^sup>*\<^sup>* m m'"
  shows "pool_runs throws k n s p \<Longrightarrow> mon p = m \<Longrightarrow> k < t \<Longrightarrow> \<not> aborted p \<Longrightarrow> pool_runs throws k n s (p\<lparr>mon := m'\<rparr>)"
  using assms
proof (induction rule: rtranclp_induct)
  case (step m' m'')
  then show ?case using pool_runs_step [OF _ pool_step.client, of throws k n s "p\<lparr>mon := m'\<rparr>" t m''] by simp
qed auto

text \<open>A pool of one worker and a queue of one task, after \<^verbatim>\<open>start(1)\<close>.\<close>

definition small_pool :: "int ThreadPool" where
  "small_pool = \<lparr>tp_name = ''w'', threadInitCallback = False, tp_threads = [''w1''], tp_queue = [],
     maxQueueSize = 1, running = True\<rparr>"

lemma small_pool_start: "tp_start 1 (setMaxQueueSize 1 (mkThreadPool ''w'')) = Inr (False, small_pool)"
proof -
  have "snprintf 32 (dec_nat 1) = ''1''" by code_simp
  then show ?thesis by (simp add: tp_start_def setMaxQueueSize_def mkThreadPool_def small_pool_def)
qed

text \<open>Thread 2 submits task 7, thread 3 blocks in \<^verbatim>\<open>run\<close>.\<close>

definition full_pool :: "int pool" where
  "full_pool = \<lparr>mon = \<lparr>mutex = mkMutexLock, pcs = (\<lambda>_. Idle)(2 := Returned (Run 7) PVoid, 3 := Waiting (Run 8) NotFull),
       shared = small_pool\<lparr>tp_queue := [7]\<rparr>, history = [(Run 7, PVoid)], failed = False\<rparr>,
     wstate = (\<lambda>_. WStart), executed = [], aborted = False\<rparr>"

lemma full_pool_runs: "pool_runs throws 1 3 small_pool full_pool"
proof -
  let ?may = "\<lambda>(_ :: nat) op. op \<noteq> (TakeTask :: int pool_op)"
  let ?p = "(\<lambda>_. Idle)(2 := Leaving (Run 7) PVoid) :: nat \<Rightarrow> (int pool_op, queue_cond, int pool_ret) pc"
  let ?m1 = "\<lparr>mutex = mkMutexLock, pcs = (\<lambda>_. Idle)(2 := Returned (Run 7) PVoid),
       shared = small_pool\<lparr>tp_queue := [7]\<rparr>, history = [(Run 7, PVoid)], failed = False\<rparr>"
  have "signals [Notify NotEmpty] ?p ?p" by (rule signals_wake_none) simp
  then have "(mstep ThreadPool 3 ?may 2)\<^sup>*\<^sup>* (mkMonitor small_pool) ?m1"
    using op_steps [of 2 3 "mkMonitor small_pool" ?may "Run 7" ThreadPool PVoid "small_pool\<lparr>tp_queue := [7]\<rparr>" "[Notify NotEmpty]" ?p]
    by (simp add: mkMonitor_def pool_defs small_pool_def)
  then have "pool_runs throws 1 3 small_pool ((mkPool small_pool)\<lparr>mon := ?m1\<rparr>)"
    using pool_runs_client [of 3 2 "mkMonitor small_pool" ?m1 throws 1 small_pool "mkPool small_pool"]
      pool_runs_init [of throws 1 3 small_pool] by (simp add: mkPool_def)
  moreover have "(mstep ThreadPool 3 ?may 3)\<^sup>*\<^sup>* ?m1 (mon full_pool)"
    using sleep_steps [of 3 3 ?m1 ?may "Run 8" ThreadPool NotFull] by (simp add: pool_defs small_pool_def full_pool_def)
  ultimately show ?thesis
    using pool_runs_client [of 3 3 ?m1 "mon full_pool" throws 1 small_pool "(mkPool small_pool)\<lparr>mon := ?m1\<rparr>"]
    by (simp add: mkPool_def full_pool_def)
qed

text \<open>Then thread 2 stops the pool, and the worker, which had not yet looked at \<^verbatim>\<open>running_\<close>, leaves.\<close>

definition stopped_pool :: "int pool" where
  "stopped_pool = full_pool\<lparr>mon := (mon full_pool)\<lparr>shared := small_pool\<lparr>tp_queue := [7], running := False\<rparr>,
       history := [(Run 7, PVoid), (Stop, PVoid)],
       pcs := (\<lambda>_. Idle)(2 := Returned Stop PVoid, 3 := Waiting (Run 8) NotFull)\<rparr>,
     wstate := (\<lambda>_. WStart)(1 := WDone)\<rparr>"

lemma stopped_pool_runs: "pool_runs throws 1 3 small_pool stopped_pool"
proof -
  let ?may = "\<lambda>(_ :: nat) op. op \<noteq> (TakeTask :: int pool_op)"
  let ?p = "(\<lambda>_. Idle)(2 := Leaving Stop PVoid, 3 := Waiting (Run 8) NotFull) :: nat \<Rightarrow> (int pool_op, queue_cond, int pool_ret) pc"
  have "signals [NotifyAll NotEmpty] ?p ?p" by (rule signals_all_none) simp
  then have "(mstep ThreadPool 3 ?may 2)\<^sup>*\<^sup>* (mon full_pool) (mon stopped_pool)"
    using op_steps [of 2 3 "mon full_pool" ?may Stop ThreadPool PVoid "small_pool\<lparr>tp_queue := [7], running := False\<rparr>"
        "[NotifyAll NotEmpty]" ?p]
    by (simp add: full_pool_def stopped_pool_def pool_defs small_pool_def fun_upd_twist)
  then have a: "pool_runs throws 1 3 small_pool (full_pool\<lparr>mon := mon stopped_pool\<rparr>)"
    using pool_runs_client [of 3 2 "mon full_pool" "mon stopped_pool" throws 1 small_pool full_pool]
      full_pool_runs [of throws] by (simp add: full_pool_def)
  have b: "pool_runs throws 1 3 small_pool (full_pool\<lparr>mon := mon stopped_pool, wstate := (\<lambda>_. WStart)(1 := WLoop)\<rparr>)"
    using pool_runs_step [OF a pool_step.worker [OF _ _ init_callback, of 1]] by (simp add: full_pool_def)
  show ?thesis
    using pool_runs_step [OF b pool_step.worker [OF _ _ loop_exit, of 1]]
    by (simp add: full_pool_def stopped_pool_def small_pool_def)
qed

text \<open>A fresh worker that finds no task goes to sleep.\<close>

lemma worker_sleeps:
  assumes "pool_runs throws k n s p" "1 \<le> t" "t \<le> k" "k \<le> n" "wstate p t = WStart" "pcs (mon p) t = Idle"
    and "mutex (mon p) = mkMutexLock" "\<not> failed (mon p)" "\<not> aborted p"
    and "tp_queue (shared (mon p)) = []" "running (shared (mon p))"
  shows "pool_runs throws k n s (p\<lparr>wstate := (wstate p)(t := WTake),
    mon := (mon p)\<lparr>mutex := mkMutexLock, pcs := (pcs (mon p))(t := Waiting TakeTask NotEmpty)\<rparr>\<rparr>)"
proof -
  let ?m = "\<lambda>q. (mon p)\<lparr>pcs := (pcs (mon p))(t := q)\<rparr>"
  let ?l = "(mon p)\<lparr>mutex := \<lparr>pthread_owner = t, holder = t\<rparr>, pcs := (pcs (mon p))(t := Testing TakeTask)\<rparr>"
  have a: "pool_runs throws k n s (p\<lparr>wstate := (wstate p)(t := WLoop)\<rparr>)"
    using pool_runs_step [OF assms(1) pool_step.worker [OF assms(2,3) init_callback]] assms by simp
  have "mstep ThreadPool n (\<lambda>_ op. op = TakeTask) t (mon p) (?m (Entering TakeTask))"
    using assms by (intro mstep.call) auto
  then have b: "pool_runs throws k n s (p\<lparr>mon := ?m (Entering TakeTask), wstate := (wstate p)(t := WTake)\<rparr>)"
    using pool_runs_step [OF a pool_step.worker [OF assms(2,3) loop_again]] assms by simp
  have "mstep ThreadPool n (\<lambda>_ _. False) t (?m (Entering TakeTask)) ?l"
    using mstep.enter [of "?m (Entering TakeTask)" t TakeTask] assms by (simp add: mutex_simps)
  then have c: "pool_runs throws k n s (p\<lparr>wstate := (wstate p)(t := WTake), mon := ?l\<rparr>)"
    using pool_runs_step [OF b pool_step.worker [OF assms(2,3) inside_take]] assms by simp
  have "mstep ThreadPool n (\<lambda>_ _. False) t ?l ((mon p)\<lparr>mutex := mkMutexLock, pcs := (pcs (mon p))(t := Waiting TakeTask NotEmpty)\<rparr>)"
    using mstep.wait [of ?l t TakeTask ThreadPool NotEmpty] assms by (simp add: mutex_simps pool_defs)
  then show ?thesis
    using pool_runs_step [OF c pool_step.worker [OF assms(2,3) inside_take]] assms by simp
qed

text \<open>Two workers sleep, then thread 3 submits a task and wakes the first.\<close>

definition sleepy_pool :: "int pool" where
  "sleepy_pool = \<lparr>mon = \<lparr>mutex = mkMutexLock,
       pcs = (\<lambda>_. Idle)(1 := Woken TakeTask, 2 := Waiting TakeTask NotEmpty, 3 := Returned (Run 7) PVoid),
       shared = small_pool\<lparr>tp_queue := [7]\<rparr>, history = [(Run 7, PVoid)], failed = False\<rparr>,
     wstate = (\<lambda>_. WStart)(1 := WTake, 2 := WTake), executed = [], aborted = False\<rparr>"

lemma sleepy_pool_runs: "pool_runs throws 2 3 small_pool sleepy_pool"
proof -
  let ?may = "\<lambda>(_ :: nat) op. op \<noteq> (TakeTask :: int pool_op)"
  let ?p2 = "(mkPool small_pool)\<lparr>mon := (mkMonitor small_pool)\<lparr>mutex := mkMutexLock,
      pcs := (\<lambda>_. Idle)(1 := Waiting TakeTask NotEmpty, 2 := Waiting TakeTask NotEmpty)\<rparr>,
    wstate := (\<lambda>_. WStart)(1 := WTake, 2 := WTake)\<rparr>"
  have "pool_runs throws 2 3 small_pool ((mkPool small_pool)\<lparr>mon := (mkMonitor small_pool)\<lparr>mutex := mkMutexLock,
      pcs := (\<lambda>_. Idle)(1 := Waiting TakeTask NotEmpty)\<rparr>, wstate := (\<lambda>_. WStart)(1 := WTake)\<rparr>)"
    using worker_sleeps [OF pool_runs_init [of throws 2 3 small_pool], of 1]
    by (simp add: mkPool_def mkMonitor_def small_pool_def)
  from worker_sleeps [OF this, of 2] have p2: "pool_runs throws 2 3 small_pool ?p2"
    by (simp add: mkPool_def mkMonitor_def small_pool_def)
  let ?q = "(\<lambda>_. Idle)(1 := Woken TakeTask, 2 := Waiting TakeTask NotEmpty, 3 := Leaving (Run 7) PVoid)
    :: nat \<Rightarrow> (int pool_op, queue_cond, int pool_ret) pc"
  have "signals [Notify NotEmpty] ((pcs (mon ?p2))(3 := Leaving (Run 7) PVoid)) ?q"
    by (rule signals_wake_one [where t = 1 and op = TakeTask]) (auto simp: mkPool_def)
  then have "(mstep ThreadPool 3 ?may 3)\<^sup>*\<^sup>* (mon ?p2) (mon sleepy_pool)"
    using op_steps [of 3 3 "mon ?p2" ?may "Run 7" ThreadPool PVoid "small_pool\<lparr>tp_queue := [7]\<rparr>" "[Notify NotEmpty]" ?q]
    by (simp add: mkPool_def mkMonitor_def sleepy_pool_def pool_defs small_pool_def)
  from pool_runs_client [OF this p2] show ?thesis by (simp add: mkPool_def sleepy_pool_def)
qed

section \<open>A blocked caller of \<^verbatim>\<open>run\<close> is stranded by \<^verbatim>\<open>stop\<close>\<close>

definition stranded :: "nat \<Rightarrow> nat \<Rightarrow> 'f \<Rightarrow> 'f pool \<Rightarrow> bool" where
  "stranded k t f p \<longleftrightarrow> (\<forall>u. 1 \<le> u \<longrightarrow> u \<le> k \<longrightarrow> wstate p u = WDone)
    \<and> 0 < maxQueueSize (shared (mon p)) \<and> maxQueueSize (shared (mon p)) \<le> length (tp_queue (shared (mon p)))
    \<and> (\<exists>c. pcs (mon p) t \<in> {Waiting (Run f) c, Woken (Run f), Testing (Run f)})"

lemma stranded_step:
  assumes "stranded k t f p" "k < t" "pool_inv k p" "pool_step throws k n p p'"
  shows "stranded k t f p'"
  using assms(4)
proof (cases rule: pool_step.cases)
  case (worker u)
  then have "wstate p u = WDone" using assms(1) by (simp add: stranded_def)
  with worker(3) show ?thesis by (cases rule: runInThread.cases) simp_all
next
  case (client u m)
  have u: "op_of (pcs (mon p) u) \<noteq> Some TakeTask" using client(2) assms(3) by (simp add: pool_inv_def)
  have s: "maxQueueSize (shared m) = maxQueueSize (shared (mon p))
      \<and> length (tp_queue (shared (mon p))) \<le> length (tp_queue (shared m))"
    using client(3) u
    by (cases rule: mstep.cases)
      (auto simp: pool_defs bindE_Inr_iff assertE_Inr_iff split: pool_op.splits if_splits)
  have pc: "\<exists>c. pcs m t \<in> {Waiting (Run f) c, Woken (Run f), Testing (Run f)}"
  proof (cases "u = t")
    case False
    with assms(1) mstep_others [OF client(3), of t] show ?thesis by (auto simp: stranded_def)
  next
    case True
    with client(3) assms(1) show ?thesis
      by (cases rule: mstep.cases) (auto simp: stranded_def pool_defs bindE_Inr_iff assertE_Inr_iff split: if_splits)
  qed
  from s pc client(1) assms(1) show ?thesis by (auto simp: stranded_def)
qed

lemma stranded_steps:
  assumes "(pool_step throws k n)\<^sup>*\<^sup>* p p'" "stranded k t f p" "k < t" "pool_inv k p"
  shows "stranded k t f p' \<and> pool_inv k p'"
  using assms(1)
proof (induction rule: rtranclp_induct)
  case (step p1 p2)
  then show ?case using stranded_step [OF _ assms(3) _ step(2)] pools.inv_step [OF _ step(2)] by simp
qed (use assms in simp)

section \<open>Properties\<close>

text \<open>
  C10: The pool executes every submitted task at most once and loses none while it runs: under every
  interleaving of \<open>k\<close> workers and any number of callers, the tasks whose \<^verbatim>\<open>run\<close> has completed are exactly those
  executed, those a worker holds, and those in the queue, which never exceeds \<^verbatim>\<open>maxQueueSize_\<close>; no assertion
  fails, the one in \<^verbatim>\<open>isFull\<close> that the mutex is held included.
\<close>

theorem thread_pool_tasks:
  assumes "tp_start k (setMaxQueueSize q (mkThreadPool name)) = Inr (cb, s)" "pool_runs throws k n s p"
  shows "mset (submitted (history (mon p))) = mset (executed p) + all_in_hand k p + mset (tp_queue (shared (mon p)))
    \<and> \<not> failed (mon p) \<and> (0 < q \<longrightarrow> length (tp_queue (shared (mon p))) \<le> q)"
proof -
  have "tp_queue s = []" "maxQueueSize s = q"
    using assms(1) by (auto simp: tp_start_def setMaxQueueSize_def mkThreadPool_def)
  with pool_accounts [OF assms(2)] show ?thesis by simp
qed

theorem thread_pool_tasks_witness:
  "\<exists>p. pool_runs (\<lambda>_. False) 1 3 small_pool p \<and> tp_queue (shared (mon p)) = [7]
    \<and> mset (submitted (history (mon p))) = mset (executed p) + all_in_hand 1 p + mset (tp_queue (shared (mon p)))"
proof (intro exI [of _ full_pool] conjI)
  show "pool_runs (\<lambda>_. False) 1 3 small_pool full_pool" by (rule full_pool_runs)
  show "tp_queue (shared (mon full_pool)) = [7]" by (simp add: full_pool_def)
  show "mset (submitted (history (mon full_pool)))
      = mset (executed full_pool) + all_in_hand 1 full_pool + mset (tp_queue (shared (mon full_pool)))"
    using thread_pool_tasks [OF small_pool_start full_pool_runs [of "\<lambda>_. False"]] by blast
qed

text \<open>
  C31: No wakeup of the pool is lost: whenever a worker sleeps although there is a task or the pool has been
  stopped, or a caller of \<^verbatim>\<open>run\<close> sleeps although there is room, some thread is awake in the monitor and can
  take its next step. In particular every worker asleep when \<^verbatim>\<open>stop\<close> is called is woken.
\<close>

theorem thread_pool_no_lost_wakeup:
  assumes "pool_runs throws k n s p"
    and "pcs (mon p) t = Waiting TakeTask c \<and> (tp_queue (shared (mon p)) \<noteq> [] \<or> \<not> running (shared (mon p)))
      \<or> pcs (mon p) t = Waiting (Run f) c
        \<and> (maxQueueSize (shared (mon p)) = 0 \<or> length (tp_queue (shared (mon p))) < maxQueueSize (shared (mon p)))"
  shows "\<exists>u m. active (pcs (mon p) u) \<and> mstep ThreadPool n (\<lambda>_ _. True) u (mon p) m"
proof -
  note r = pool_runs_mon [OF assms(1)]
  have "sleep_wf n pool_waits (pcs (mon p))" using tp.runs_wake [OF r] by (simp add: wake_inv_def)
  note wf = sleep_wfD [OF this, of t]
  have "pcs (mon p) t = Waiting TakeTask c \<Longrightarrow> c = NotEmpty" "pcs (mon p) t = Waiting (Run f) c \<Longrightarrow> c = NotFull"
    using wf [of TakeTask c] wf [of "Run f" c] by (auto simp: pool_waits_def)
  with assms(2) have "pool_avail c (shared (mon p)) \<noteq> 0"
    by (auto simp: pool_avail_def zero_enat_def split: if_splits)
  with assms(2) queue_available [OF tp.wakeup_client_axioms r, of t _ c] show ?thesis by blast
qed

theorem thread_pool_no_lost_wakeup_witness:
  "pool_runs (\<lambda>_. False) 2 3 small_pool sleepy_pool \<and> pcs (mon sleepy_pool) 2 = Waiting TakeTask NotEmpty
    \<and> (\<exists>u m. active (pcs (mon sleepy_pool) u) \<and> mstep ThreadPool 3 (\<lambda>_ _. True) u (mon sleepy_pool) m)"
proof -
  have "pcs (mon sleepy_pool) 2 = Waiting TakeTask NotEmpty" "tp_queue (shared (mon sleepy_pool)) \<noteq> []"
    by (simp_all add: sleepy_pool_def)
  then show ?thesis
    using thread_pool_no_lost_wakeup [OF sleepy_pool_runs [of "\<lambda>_. False"], of 2 NotEmpty] sleepy_pool_runs by blast
qed

text \<open>
  C32: \<^verbatim>\<open>stop\<close> can strand a caller of \<^verbatim>\<open>run\<close>: once the workers have left with the queue full, a
  thread that waits for room never gets past its wait loop, whatever happens afterwards, since nobody takes a task
  and \<^verbatim>\<open>stop\<close> does not notify \<^verbatim>\<open>notFull_\<close> (which would not help, as the loop does not test \<^verbatim>\<open>running_\<close>).
\<close>

theorem stop_strands_producers:
  assumes "pool_runs throws k n s p" "k < t" "\<forall>u. 1 \<le> u \<longrightarrow> u \<le> k \<longrightarrow> wstate p u = WDone"
    and "0 < maxQueueSize (shared (mon p))" "maxQueueSize (shared (mon p)) \<le> length (tp_queue (shared (mon p)))"
    and "pcs (mon p) t = Waiting (Run f) NotFull" "(pool_step throws k n)\<^sup>*\<^sup>* p p'"
  shows "op_of (pcs (mon p') t) = Some (Run f) \<and> (\<forall>r. pcs (mon p') t \<noteq> Returned (Run f) r)"
proof -
  have "pool_inv k p" using pools.reach_inv assms(1) by (simp add: pool_runs_def)
  moreover have "stranded k t f p" using assms(3-6) by (auto simp: stranded_def)
  ultimately have "stranded k t f p'" using stranded_steps [OF assms(7) _ assms(2)] by blast
  then show ?thesis by (auto simp: stranded_def)
qed

theorem stop_strands_producers_witness:
  "pool_runs (\<lambda>_. False) 1 3 small_pool stopped_pool \<and> \<not> running (shared (mon stopped_pool))
    \<and> {p'. (pool_step (\<lambda>_. False) 1 3)\<^sup>*\<^sup>* stopped_pool p'} \<subseteq> {p'. op_of (pcs (mon p') 3) = Some (Run 8)}"
  using stop_strands_producers [OF stopped_pool_runs [of "\<lambda>_. False"], of 3 8] stopped_pool_runs [of "\<lambda>_. False"]
  by (auto simp: stopped_pool_def full_pool_def small_pool_def le_Suc_eq)

end
