(* ===== verification/AsyncLogging.thy ===== *)
theory AsyncLogging
  imports Monitor LogStream
begin

text \<open>
  \<^verbatim>\<open>muduo/base/AsyncLogging.h\<close> and \<^verbatim>\<open>AsyncLogging.cc\<close>: the double-buffered logger. Any number of threads append
  lines to the current buffer under the lock; one backend thread collects the filled buffers, swaps in empty ones and
  writes the lines out. \<open>SIZE\<close> is the size of a buffer (\<^verbatim>\<open>kLargeBuffer\<close> in the code). The log file is the text
  written to it; \<open>notice k\<close> is the line written when \<open>k\<close> buffers are dropped. The timed wait of the backend may end at
  any time.
\<close>

section \<open>The front end\<close>

datatype log_cond = Cond

record AsyncLogging =
  currentBuffer :: FixedBuffer
  nextBuffer :: "FixedBuffer option"
  buffers :: "FixedBuffer list"

definition mkAsyncLogging :: "nat \<Rightarrow> AsyncLogging" where
  "mkAsyncLogging SIZE = \<lparr>currentBuffer = fb_bzero (mkFixedBuffer SIZE),
     nextBuffer = Some (fb_bzero (mkFixedBuffer SIZE)), buffers = []\<rparr>"

text \<open>The two critical sections; the backend brings its two empty buffers and takes back the second if unused.\<close>

datatype alog_op = Append string | Collect FixedBuffer FixedBuffer

datatype alog_ret = AVoid | Collected "FixedBuffer list" "FixedBuffer option"

definition al_append :: "nat \<Rightarrow> string \<Rightarrow> AsyncLogging \<Rightarrow> (alog_ret \<times> AsyncLogging \<times> log_cond signal list) res" where
  "al_append SIZE logline s =
    (if fb_avail (currentBuffer s) > length logline
     then Inr (AVoid, s\<lparr>currentBuffer := fb_append (currentBuffer s) logline\<rparr>, [])
     else
       let bufs = buffers s @ [currentBuffer s];
           cur = (case nextBuffer s of Some b \<Rightarrow> b | None \<Rightarrow> mkFixedBuffer SIZE) in
       Inr (AVoid, s\<lparr>buffers := bufs, nextBuffer := None, currentBuffer := fb_append cur logline\<rparr>, [Notify Cond]))"

definition al_collect_test :: "AsyncLogging \<Rightarrow> log_cond option" where
  "al_collect_test s = (if buffers s = [] then Some Cond else None)"

definition al_collect :: "FixedBuffer \<Rightarrow> FixedBuffer \<Rightarrow> AsyncLogging
    \<Rightarrow> (alog_ret \<times> AsyncLogging \<times> log_cond signal list) res" where
  "al_collect newBuffer1 newBuffer2 s =
    (let buffersToWrite = buffers s @ [currentBuffer s];
         s = s\<lparr>currentBuffer := newBuffer1, buffers := []\<rparr> in
     if nextBuffer s = None
     then Inr (Collected buffersToWrite None, s\<lparr>nextBuffer := Some newBuffer2\<rparr>, [])
     else Inr (Collected buffersToWrite (Some newBuffer2), s, []))"

definition AsyncLogging :: "nat \<Rightarrow> (alog_op, AsyncLogging, log_cond, alog_ret) prog" where
  "AsyncLogging SIZE = \<lparr>loops = (\<lambda>op. case op of Append _ \<Rightarrow> True | Collect _ _ \<Rightarrow> False),
     blocked = (\<lambda>op t mx s. case op of Append _ \<Rightarrow> Inr None | Collect _ _ \<Rightarrow> Inr (al_collect_test s)),
     body = (\<lambda>op t mx s. case op of Append line \<Rightarrow> al_append SIZE line s | Collect b1 b2 \<Rightarrow> al_collect b1 b2 s)\<rparr>"

lemmas al_defs = AsyncLogging_def al_append_def al_collect_test_def al_collect_def

section \<open>The back end\<close>

text \<open>
  One round of \<^verbatim>\<open>threadFunc\<close> after the critical section: what is written, how many buffers are dropped, and the two
  buffers kept for the next round.
\<close>

definition al_write :: "(nat \<Rightarrow> string) \<Rightarrow> FixedBuffer list \<Rightarrow> FixedBuffer option
    \<Rightarrow> (string \<times> nat \<times> FixedBuffer \<times> FixedBuffer) res" where
  "al_write notice buffersToWrite newBuffer2 =
    bindE (assertE (buffersToWrite \<noteq> [])) (\<lambda>_.
    let (out, dropped, bufs) =
          (if length buffersToWrite > 25
           then (notice (length buffersToWrite - 2), length buffersToWrite - 2, take 2 buffersToWrite)
           else ([], 0, buffersToWrite));
        out = out @ concat (map fb_toString bufs);
        bufs = (if length bufs > 2 then take 2 bufs else bufs) in
    bindE (assertE (bufs \<noteq> [])) (\<lambda>_.
    let newBuffer1 = fb_reset (last bufs); bufs = butlast bufs in
    case newBuffer2 of
      Some b \<Rightarrow> Inr (out, dropped, newBuffer1, b)
    | None \<Rightarrow> bindE (assertE (bufs \<noteq> [])) (\<lambda>_. Inr (out, dropped, newBuffer1, fb_reset (last bufs)))))"

text \<open>
  The backend is at the test of its loop with two empty buffers, inside the critical section, or done. Thread 1 is
  the backend. \<open>lost\<close> counts the buffers dropped so far. The model begins when \<^verbatim>\<open>start()\<close> has returned: it sets
  \<^verbatim>\<open>running_\<close> and waits on the latch that \<^verbatim>\<open>threadFunc\<close> counts down right after its first assertion, \<^verbatim>\<open>running_ == true\<close>.
\<close>

datatype backend = BLoop FixedBuffer FixedBuffer | BCollect | BDone

record alog =
  amon :: "(alog_op, AsyncLogging, log_cond, alog_ret) monitor"
  backend :: backend
  a_running :: bool
  written :: string
  lost :: nat
  crashed :: bool

definition mkAlog :: "nat \<Rightarrow> alog" where
  "mkAlog SIZE = \<lparr>amon = mkMonitor (mkAsyncLogging SIZE),
     backend = BLoop (fb_bzero (mkFixedBuffer SIZE)) (fb_bzero (mkFixedBuffer SIZE)),
     a_running = True, written = [], lost = 0, crashed = False\<rparr>"

inductive threadFunc :: "nat \<Rightarrow> (nat \<Rightarrow> string) \<Rightarrow> nat \<Rightarrow> alog \<Rightarrow> alog \<Rightarrow> bool"
  for SIZE :: nat and notice :: "nat \<Rightarrow> string" and n :: nat where
  loop_test: "\<lbrakk>backend a = BLoop b1 b2; a_running a; \<not> crashed a; fb_length b1 = 0; fb_length b2 = 0;
      mstep (AsyncLogging SIZE) n (\<lambda>_ op. op = Collect b1 b2) 1 (amon a) m; pcs m 1 = Entering (Collect b1 b2)\<rbrakk>
    \<Longrightarrow> threadFunc SIZE notice n a (a\<lparr>amon := m, backend := BCollect\<rparr>)"
| loop_assert: "\<lbrakk>backend a = BLoop b1 b2; a_running a; \<not> crashed a; fb_length b1 \<noteq> 0 \<or> fb_length b2 \<noteq> 0\<rbrakk>
    \<Longrightarrow> threadFunc SIZE notice n a (a\<lparr>crashed := True\<rparr>)"
| loop_end: "\<lbrakk>backend a = BLoop b1 b2; \<not> a_running a; \<not> crashed a\<rbrakk> \<Longrightarrow> threadFunc SIZE notice n a (a\<lparr>backend := BDone\<rparr>)"
| collecting: "\<lbrakk>backend a = BCollect; mstep (AsyncLogging SIZE) n (\<lambda>_ _. False) 1 (amon a) m; \<not> crashed a\<rbrakk>
    \<Longrightarrow> threadFunc SIZE notice n a (a\<lparr>amon := m\<rparr>)"
| writing: "\<lbrakk>backend a = BCollect; pcs (amon a) 1 = Returned op (Collected bufs nb2); \<not> crashed a;
      al_write notice bufs nb2 = Inr (out, dropped, b1, b2)\<rbrakk>
    \<Longrightarrow> threadFunc SIZE notice n a
      (a\<lparr>written := written a @ out, lost := lost a + dropped, backend := BLoop b1 b2\<rparr>)"
| write_assert: "\<lbrakk>backend a = BCollect; pcs (amon a) 1 = Returned op (Collected bufs nb2); \<not> crashed a;
      al_write notice bufs nb2 = Inl e\<rbrakk>
    \<Longrightarrow> threadFunc SIZE notice n a (a\<lparr>crashed := True\<rparr>)"

text \<open>\<^verbatim>\<open>stop\<close> sets the flag and notifies without the lock.\<close>

inductive alog_step :: "nat \<Rightarrow> (nat \<Rightarrow> string) \<Rightarrow> nat \<Rightarrow> alog \<Rightarrow> alog \<Rightarrow> bool"
  for SIZE :: nat and notice :: "nat \<Rightarrow> string" and n :: nat where
  back_end: "threadFunc SIZE notice n a a' \<Longrightarrow> alog_step SIZE notice n a a'"
| front_end: "\<lbrakk>1 < t; mstep (AsyncLogging SIZE) n (\<lambda>_ op. \<exists>line. op = Append line) t (amon a) m; \<not> crashed a\<rbrakk>
    \<Longrightarrow> alog_step SIZE notice n a (a\<lparr>amon := m\<rparr>)"
| stop_flag: "\<not> crashed a \<Longrightarrow> signals [Notify Cond] (pcs (amon a)) p
    \<Longrightarrow> alog_step SIZE notice n a (a\<lparr>a_running := False, amon := (amon a)\<lparr>pcs := p\<rparr>\<rparr>)"

definition alog_runs :: "nat \<Rightarrow> (nat \<Rightarrow> string) \<Rightarrow> nat \<Rightarrow> alog \<Rightarrow> bool" where
  "alog_runs SIZE notice n = reach (\<lambda>a. a = mkAlog SIZE) (alog_step SIZE notice n)"

section \<open>The invariant\<close>

definition wfb :: "nat \<Rightarrow> FixedBuffer \<Rightarrow> bool" where
  "wfb SIZE b \<longleftrightarrow> length (fb_data b) = SIZE \<and> fb_cur b \<le> SIZE"

definition empty_fb :: "nat \<Rightarrow> FixedBuffer \<Rightarrow> bool" where
  "empty_fb SIZE b \<longleftrightarrow> wfb SIZE b \<and> fb_length b = 0"

text \<open>A spare buffer is missing only while there is a filled one to recycle.\<close>

definition al_ok :: "nat \<Rightarrow> AsyncLogging \<Rightarrow> bool" where
  "al_ok SIZE s \<longleftrightarrow> wfb SIZE (currentBuffer s) \<and> (\<forall>b\<in>set (buffers s). wfb SIZE b)
    \<and> (case nextBuffer s of Some b \<Rightarrow> empty_fb SIZE b | None \<Rightarrow> buffers s \<noteq> [])"

definition al_text :: "AsyncLogging \<Rightarrow> string" where
  "al_text s = concat (map fb_toString (buffers s)) @ fb_toString (currentBuffer s)"

text \<open>Lines that do not fit in an empty buffer are dropped by \<^verbatim>\<open>FixedBuffer::append\<close>.\<close>

definition accepted :: "nat \<Rightarrow> (alog_op \<times> alog_ret) list \<Rightarrow> string" where
  "accepted SIZE h = concat (map (\<lambda>(op, r). case op of Append line \<Rightarrow> if length line < SIZE then line else [] | _ \<Rightarrow> []) h)"

text \<open>The buffers the backend has collected and not yet written, and what is known of them.\<close>

definition col_bufs :: "alog_ret option \<Rightarrow> FixedBuffer list" where
  "col_bufs r = (case r of Some (Collected bufs nb2) \<Rightarrow> bufs | _ \<Rightarrow> [])"

definition col_ok :: "nat \<Rightarrow> alog_ret \<Rightarrow> bool" where
  "col_ok SIZE r \<longleftrightarrow> (case r of Collected bufs nb2 \<Rightarrow> bufs \<noteq> [] \<and> (\<forall>b\<in>set bufs. wfb SIZE b)
       \<and> (case nb2 of Some b \<Rightarrow> empty_fb SIZE b | None \<Rightarrow> 2 \<le> length bufs) | AVoid \<Rightarrow> False)"

definition backend_ok :: "nat \<Rightarrow> alog \<Rightarrow> bool" where
  "backend_ok SIZE a \<longleftrightarrow> (case backend a of
     BLoop b1 b2 \<Rightarrow> empty_fb SIZE b1 \<and> empty_fb SIZE b2
   | BCollect \<Rightarrow> (\<exists>b1 b2. op_of (pcs (amon a) 1) = Some (Collect b1 b2) \<and> empty_fb SIZE b1 \<and> empty_fb SIZE b2)
       \<and> (\<forall>r. result_of (pcs (amon a) 1) = Some r \<longrightarrow> col_ok SIZE r)
   | BDone \<Rightarrow> True)"

definition hand :: "alog \<Rightarrow> FixedBuffer list" where
  "hand a = (if backend a = BCollect then col_bufs (result_of (pcs (amon a) 1)) else [])"

definition alog_inv :: "nat \<Rightarrow> alog \<Rightarrow> bool" where
  "alog_inv SIZE a \<longleftrightarrow> al_ok SIZE (shared (amon a)) \<and> backend_ok SIZE a \<and> \<not> crashed a \<and> \<not> failed (amon a)
    \<and> (backend a \<noteq> BCollect \<longrightarrow> pcs (amon a) 1 = Idle \<or> (\<exists>op r. pcs (amon a) 1 = Returned op r))
    \<and> (\<forall>t op. 1 < t \<longrightarrow> op_of (pcs (amon a) t) = Some op \<longrightarrow> (\<exists>line. op = Append line))
    \<and> (lost a = 0 \<longrightarrow> written a @ concat (map fb_toString (hand a)) @ al_text (shared (amon a))
        = accepted SIZE (history (amon a)))"

lemma accepted_append [simp]: "accepted SIZE (h @ h') = accepted SIZE h @ accepted SIZE h'"
  by (simp add: accepted_def)

lemma empty_new [simp]: "empty_fb SIZE (mkFixedBuffer SIZE)" "empty_fb SIZE (fb_bzero (mkFixedBuffer SIZE))"
  by (simp_all add: empty_fb_def wfb_def mkFixedBuffer_def fb_bzero_def fb_length_def)

lemma empty_text: "empty_fb SIZE b \<Longrightarrow> fb_toString b = []" "empty_fb SIZE b \<Longrightarrow> wfb SIZE b"
  by (simp_all add: empty_fb_def fb_toString_def)

lemma empty_reset: "wfb SIZE b \<Longrightarrow> empty_fb SIZE (fb_reset b)"
  by (simp add: empty_fb_def wfb_def fb_reset_def fb_length_def)

lemma wfb_append:
  assumes "wfb SIZE b"
  shows "wfb SIZE (fb_append b line)"
    and "fb_toString (fb_append b line) = fb_toString b @ (if length line < fb_avail b then line else [])"
  using fb_append_rel [of SIZE b "fb_toString b" line] assms
  by (auto simp: wfb_def fb_rel_def fb_toString_def fb_length_def fb_append_def fb_avail_def)

lemma al_append_effect:
  assumes "al_ok SIZE s" "al_append SIZE line s = Inr (r, s', sgs)"
  shows "al_ok SIZE s' \<and> al_text s' = al_text s @ accepted SIZE [(Append line, r)]"
proof (cases "length line < fb_avail (currentBuffer s)")
  case True
  moreover from this have "length line < SIZE" using assms(1) by (simp add: al_ok_def wfb_def fb_avail_def)
  ultimately show ?thesis
    using assms wfb_append [of SIZE "currentBuffer s" line]
    by (auto simp: al_append_def al_ok_def al_text_def accepted_def split: option.splits)
next
  case False
  define cur where "cur = (case nextBuffer s of Some b \<Rightarrow> b | None \<Rightarrow> mkFixedBuffer SIZE)"
  have cur: "empty_fb SIZE cur" using assms(1) by (auto simp: cur_def al_ok_def split: option.splits)
  then have "fb_avail cur = SIZE" by (simp add: empty_fb_def wfb_def fb_avail_def fb_length_def)
  with False assms cur wfb_append [of SIZE cur line] empty_text [OF cur] show ?thesis
    by (auto simp: al_append_def al_ok_def al_text_def accepted_def cur_def [symmetric] Let_def)
qed

lemma al_collect_effect:
  assumes "al_ok SIZE s" "al_collect b1 b2 s = Inr (r, s', sgs)" "empty_fb SIZE b1" "empty_fb SIZE b2"
  shows "al_ok SIZE s' \<and> col_ok SIZE r \<and> al_text s' = [] \<and> concat (map fb_toString (col_bufs (Some r))) = al_text s"
  using assms empty_text [OF assms(3)] empty_text [OF assms(4)]
  by (cases "nextBuffer s"; cases "buffers s")
    (auto simp: al_collect_def al_ok_def al_text_def col_ok_def col_bufs_def Let_def)

lemma al_write_effect:
  assumes "col_ok SIZE (Collected bufs nb2)"
  shows "\<exists>out dropped b1 b2. al_write notice bufs nb2 = Inr (out, dropped, b1, b2) \<and> empty_fb SIZE b1 \<and> empty_fb SIZE b2
    \<and> (dropped = 0 \<longrightarrow> out = concat (map fb_toString bufs))"
proof -
  define kept where "kept = (if 2 < length bufs then take 2 bufs else bufs)"
  have k: "kept \<noteq> []" "\<forall>b\<in>set kept. wfb SIZE b" "nb2 = None \<Longrightarrow> butlast kept \<noteq> []"
    using assms by (auto simp: kept_def col_ok_def dest: in_set_takeD simp flip: length_greater_0_conv)
  have r: "empty_fb SIZE (fb_reset (last kept))" "nb2 = None \<Longrightarrow> empty_fb SIZE (fb_reset (last (butlast kept)))"
    using k by (auto intro!: empty_reset dest: in_set_butlastD simp: last_in_set) (meson in_set_butlastD last_in_set)
  have b: "bufs \<noteq> []" "\<And>b. nb2 = Some b \<Longrightarrow> empty_fb SIZE b" using assms by (auto simp: col_ok_def)
  show ?thesis
    using k r b by (cases nb2) (auto simp: al_write_def Let_def kept_def split: if_splits)
qed

lemma al_no_fail:
  assumes "mstep (AsyncLogging SIZE) n may t m m'"
  shows "failed m' = failed m"
  using assms by (cases rule: mstep.cases) (auto simp: al_defs Let_def split: alog_op.splits if_splits)

lemma alog_inv_front:
  assumes "alog_inv SIZE a" "1 < t" "mstep (AsyncLogging SIZE) n (\<lambda>_ op. \<exists>line. op = Append line) t (amon a) m"
  shows "alog_inv SIZE (a\<lparr>amon := m\<rparr>)"
proof -
  have one: "op_of (pcs m 1) = op_of (pcs (amon a) 1)" "result_of (pcs m 1) = result_of (pcs (amon a) 1)"
    "pcs (amon a) 1 = Idle \<or> (\<exists>op r. pcs (amon a) 1 = Returned op r) \<Longrightarrow> pcs m 1 = pcs (amon a) 1"
    using mstep_op [OF assms(3), of 1] mstep_result [OF assms(3), of 1] mstep_others [OF assms(3), of 1] assms(2) by auto
  have old: "\<And>u op. 1 < u \<Longrightarrow> op_of (pcs (amon a) u) = Some op \<Longrightarrow> \<exists>line. op = Append line"
    using assms(1) by (simp add: alog_inv_def)
  have "(\<forall>op. op_of (pcs m t) = Some op \<longrightarrow> (\<exists>line. op = Append line)) \<and> al_ok SIZE (shared m)

      \<and> (\<exists>x. al_text (shared m) = al_text (shared (amon a)) @ x \<and> accepted SIZE (history m) = accepted SIZE (history (amon a)) @ x)"
    using assms(3)
  proof (cases rule: mstep_effect)
    case (body op r sgs)
    then obtain line where op: "op = Append line" using old [OF assms(2), of op] by auto
    then have "al_append SIZE line (shared (amon a)) = Inr (r, shared m, sgs)"
      using body by (simp add: AsyncLogging_def)
    from al_append_effect [OF _ this] assms(1) body op show ?thesis by (simp add: alog_inv_def)
  qed (use assms(1) old [OF assms(2)] in \<open>auto simp: alog_inv_def\<close>)
  moreover have "\<exists>line. op = Append line" if "1 < u" "u \<noteq> t" "op_of (pcs m u) = Some op" for u op
    using old [OF that(1)] that mstep_op [OF assms(3) that(2)] by simp
  ultimately have ops: "\<forall>u op. 1 < u \<longrightarrow> op_of (pcs m u) = Some op \<longrightarrow> (\<exists>line. op = Append line)"
    and rest: "al_ok SIZE (shared m)" "\<exists>x. al_text (shared m) = al_text (shared (amon a)) @ x
      \<and> accepted SIZE (history m) = accepted SIZE (history (amon a)) @ x" by blast+
  have b: "backend_ok SIZE (a\<lparr>amon := m\<rparr>)" "hand (a\<lparr>amon := m\<rparr>) = hand a"
    using assms(1) one by (auto simp: alog_inv_def backend_ok_def hand_def split: backend.splits)
  show ?thesis
    using assms(1) ops rest b one(3) al_no_fail [OF assms(3)] by (auto simp: alog_inv_def)
qed

lemma alog_inv_collecting:
  assumes "alog_inv SIZE a" "backend a = BCollect" "mstep (AsyncLogging SIZE) n (\<lambda>_ _. False) 1 (amon a) m"
  shows "alog_inv SIZE (a\<lparr>amon := m\<rparr>)"
proof -
  obtain b1 b2 where op: "op_of (pcs (amon a) 1) = Some (Collect b1 b2)" "empty_fb SIZE b1" "empty_fb SIZE b2"
    using assms(1,2) by (auto simp: alog_inv_def backend_ok_def)
  have ops: "\<forall>u op. 1 < u \<longrightarrow> op_of (pcs m u) = Some op \<longrightarrow> (\<exists>line. op = Append line)"
    using assms(1) mstep_op [OF assms(3)] by (auto simp: alog_inv_def)
  show ?thesis
    using assms(3)
  proof (cases rule: mstep_effect)
    case quiet
    then show ?thesis using assms(1,2) op ops al_no_fail [OF assms(3)] by (auto simp: alog_inv_def backend_ok_def hand_def)
  next
    case (body o1 r sgs)
    then have o: "o1 = Collect b1 b2" using op by simp
    then have "al_collect b1 b2 (shared (amon a)) = Inr (r, shared m, sgs)"
      using body by (simp add: AsyncLogging_def)
    note e = al_collect_effect [OF _ this op(2,3)]
    have h: "hand a = []" using body assms(2) by (simp add: hand_def col_bufs_def)
    have "accepted SIZE [(o1, r)] = []" using o by (simp add: accepted_def)
    with e body o op ops assms(1,2) h al_no_fail [OF assms(3)] show ?thesis by (auto simp: alog_inv_def backend_ok_def hand_def)
  qed simp
qed

lemma alog_inv_back:
  assumes "alog_inv SIZE a" "threadFunc SIZE notice n a a'"
  shows "alog_inv SIZE a'"
  using assms(2)
proof (cases rule: threadFunc.cases)
  case (loop_test b1 b2 m)
  have e: "history m = history (amon a) \<and> shared m = shared (amon a)"
    using loop_test(7) by (cases rule: mstep_effect) (use loop_test(8) in auto)
  have ops: "\<forall>u op. 1 < u \<longrightarrow> op_of (pcs m u) = Some op \<longrightarrow> (\<exists>line. op = Append line)"
    using assms(1) mstep_op [OF loop_test(7)] by (auto simp: alog_inv_def)
  with e loop_test assms(1) al_no_fail [OF loop_test(7)] show ?thesis by (auto simp: alog_inv_def backend_ok_def hand_def col_bufs_def)
next
  case (loop_assert b1 b2)
  then show ?thesis using assms(1) by (auto simp: alog_inv_def backend_ok_def empty_fb_def)
next
  case (loop_end b1 b2)
  then show ?thesis using assms(1) by (auto simp: alog_inv_def backend_ok_def hand_def)
next
  case (collecting m)
  then show ?thesis using alog_inv_collecting [OF assms(1)] by simp
next
  case (writing op bufs nb2 out dropped b1 b2)
  then have "col_ok SIZE (Collected bufs nb2)" using assms(1) by (auto simp: alog_inv_def backend_ok_def)
  from al_write_effect [OF this, of notice] writing(5)
  have w: "empty_fb SIZE b1" "empty_fb SIZE b2" "dropped = 0 \<longrightarrow> out = concat (map fb_toString bufs)" by auto
  have h: "hand a = bufs" using writing by (simp add: hand_def col_bufs_def)
  show ?thesis using assms(1) w h writing by (auto simp: alog_inv_def backend_ok_def hand_def)
next
  case (write_assert op bufs nb2 e)
  then have "col_ok SIZE (Collected bufs nb2)" using assms(1) by (auto simp: alog_inv_def backend_ok_def)
  from al_write_effect [OF this, of notice] write_assert(5) show ?thesis by auto
qed

lemma alog_inv_stop:
  assumes "alog_inv SIZE a" "signals sgs (pcs (amon a)) p"
  shows "alog_inv SIZE (a\<lparr>a_running := False, amon := (amon a)\<lparr>pcs := p\<rparr>\<rparr>)"
proof -
  have p: "op_of (p t) = op_of (pcs (amon a) t)" "result_of (p t) = result_of (pcs (amon a) t)" for t
    using signals_cases [OF assms(2), of t] by auto
  have "p 1 = pcs (amon a) 1" if "pcs (amon a) 1 = Idle \<or> (\<exists>op r. pcs (amon a) 1 = Returned op r)"
    using signals_cases [OF assms(2), of 1] that by auto
  with assms(1) p show ?thesis by (auto simp: alog_inv_def backend_ok_def hand_def split: backend.splits)
qed

interpretation alogs: transition_system "\<lambda>a. a = mkAlog SIZE" "alog_step SIZE notice n" "alog_inv SIZE"
proof
  fix a assume "a = mkAlog SIZE"
  then show "alog_inv SIZE a"
    by (simp add: alog_inv_def mkAlog_def mkMonitor_def mkAsyncLogging_def al_ok_def empty_text [OF empty_new(2)]
        backend_ok_def hand_def al_text_def accepted_def)
next
  fix a a' assume "alog_inv SIZE a" "alog_step SIZE notice n a a'"
  then show "alog_inv SIZE a'"
    by (auto elim!: alog_step.cases intro: alog_inv_back alog_inv_front alog_inv_stop)
qed

lemma alog_runs_step: "alog_runs SIZE notice n a \<Longrightarrow> alog_step SIZE notice n a a' \<Longrightarrow> alog_runs SIZE notice n a'"
  unfolding alog_runs_def by (rule reach_step)

lemma alog_runs_init: "alog_runs SIZE notice n (mkAlog SIZE)"
  unfolding alog_runs_def by (rule reach_init) simp

lemma alog_runs_front:
  assumes "(mstep (AsyncLogging SIZE) n (\<lambda>_ op. \<exists>line. op = Append line) t)\<^sup>*\<^sup>* m m'"
  shows "alog_runs SIZE notice n a \<Longrightarrow> amon a = m \<Longrightarrow> 1 < t \<Longrightarrow> \<not> crashed a \<Longrightarrow> alog_runs SIZE notice n (a\<lparr>amon := m'\<rparr>)"
  using assms
proof (induction rule: rtranclp_induct)
  case (step m1 m2)
  then show ?case using alog_runs_step [OF _ alog_step.front_end, of SIZE notice n "a\<lparr>amon := m1\<rparr>" t m2] by simp
qed auto

text \<open>Thread 2 logs a line into a logger with buffers of 10 bytes.\<close>

definition one_line :: alog where
  "one_line = (mkAlog 10)\<lparr>amon := (mkMonitor (mkAsyncLogging 10))\<lparr>
     shared := (mkAsyncLogging 10)\<lparr>currentBuffer := fb_append (fb_bzero (mkFixedBuffer 10)) ''hi''\<rparr>,
     history := [(Append ''hi'', AVoid)], mutex := mkMutexLock, pcs := (\<lambda>_. Idle)(2 := Returned (Append ''hi'') AVoid)\<rparr>\<rparr>"

lemma one_line_runs: "alog_runs 10 notice 2 one_line"
proof -
  let ?m = "mkMonitor (mkAsyncLogging 10) :: (alog_op, AsyncLogging, log_cond, alog_ret) monitor"
  let ?may = "\<lambda>(_ :: nat) op. \<exists>line. op = Append line"
  have "(mstep (AsyncLogging 10) 2 ?may 2)\<^sup>*\<^sup>* ?m (amon one_line)"
    using op_steps [of 2 2 ?m ?may "Append ''hi''" "AsyncLogging 10" AVoid
        "(mkAsyncLogging 10)\<lparr>currentBuffer := fb_append (fb_bzero (mkFixedBuffer 10)) ''hi''\<rparr>" "[]"
        "(\<lambda>_. Idle)(2 := Leaving (Append ''hi'') AVoid)"]
    by (simp add: one_line_def mkMonitor_def al_defs mkAsyncLogging_def fb_avail_def fb_bzero_def mkFixedBuffer_def)
  from alog_runs_front [OF this alog_runs_init] show ?thesis by (simp add: mkAlog_def one_line_def)
qed

text \<open>Then the logger is stopped before the backend has tested \<^verbatim>\<open>running_\<close> for the first time.\<close>

definition stopped_line :: alog where
  "stopped_line = one_line\<lparr>a_running := False, backend := BDone\<rparr>"

lemma stopped_line_steps:
  "alog_step 10 notice 2 one_line (one_line\<lparr>a_running := False\<rparr>)"
  "alog_step 10 notice 2 (one_line\<lparr>a_running := False\<rparr>) stopped_line"
proof -
  have "signals [Notify Cond] (pcs (amon one_line)) (pcs (amon one_line))"
    by (rule signals_wake_none) (simp add: one_line_def)
  then show "alog_step 10 notice 2 one_line (one_line\<lparr>a_running := False\<rparr>)"
    using alog_step.stop_flag [of one_line "pcs (amon one_line)"] by (simp add: one_line_def mkAlog_def)
  show "alog_step 10 notice 2 (one_line\<lparr>a_running := False\<rparr>) stopped_line"
    using alog_step.back_end [OF loop_end [of "one_line\<lparr>a_running := False\<rparr>"]]
    by (simp add: one_line_def mkAlog_def stopped_line_def)
qed

lemma done_writes_nothing:
  assumes "(alog_step SIZE notice n)\<^sup>*\<^sup>* a a'" "backend a = BDone"
  shows "backend a' = BDone \<and> written a' = written a"
  using assms(1)
proof (induction rule: rtranclp_induct)
  case (step a1 a2)
  from step(2) show ?case
    by (cases rule: alog_step.cases) (use step.IH in \<open>auto elim!: threadFunc.cases\<close>)
qed (simp add: assms(2))

section \<open>Properties\<close>

text \<open>
  C11: The asynchronous logger neither loses, duplicates nor reorders lines under any interleaving: as long as
  the backend has not dropped buffers (more than 25 in one round), what has been written, what the backend holds, and
  what is still buffered are together exactly the appended lines in the order of their critical sections; only lines
  too long for an empty buffer are left out. No assertion of the backend fails; in particular it always has two buffers
  to recycle when it needs them.
\<close>

theorem async_logging_no_loss:
  assumes "alog_runs SIZE notice n a"
  shows "\<not> crashed a \<and> \<not> failed (amon a) \<and> (lost a = 0 \<longrightarrow>
    written a @ concat (map fb_toString (hand a)) @ al_text (shared (amon a)) = accepted SIZE (history (amon a)))"
proof -
  have "alog_inv SIZE a" using assms unfolding alog_runs_def by (rule alogs.reach_inv)
  then show ?thesis by (simp add: alog_inv_def)
qed

theorem async_logging_no_loss_witness:
  "alog_runs 10 (\<lambda>_. []) 2 one_line \<and> history (amon one_line) = [(Append ''hi'', AVoid)]
    \<and> written one_line @ concat (map fb_toString (hand one_line)) @ al_text (shared (amon one_line)) = ''hi''"
proof -
  have h: "lost one_line = 0" "history (amon one_line) = [(Append ''hi'', AVoid)]"
    by (simp_all add: one_line_def mkAlog_def)
  then show ?thesis
    using async_logging_no_loss [OF one_line_runs [of "\<lambda>_. []"]] one_line_runs [of "\<lambda>_. []"]
    by (simp add: accepted_def)
qed

text \<open>
  C33: Stopping the logger can lose lines whose \<^verbatim>\<open>append\<close> has returned before \<^verbatim>\<open>stop\<close> is called: the backend
  leaves its loop without a last look at the buffers. In the state \<open>before\<close> the logger is running and thread 2 has
  returned from appending a line. The next step is \<^verbatim>\<open>stop\<close>, which leaves that state but for \<^verbatim>\<open>running_\<close>; then the backend
  finds \<^verbatim>\<open>running_\<close> false and ends. The line is not written, and never will be whatever happens afterwards, although no
  buffer was dropped.
\<close>

theorem stop_loses_lines:
  "\<exists>before after. alog_runs 10 notice 2 before \<and> a_running before \<and> backend before \<noteq> BDone
    \<and> history (amon before) = [(Append ''hi'', AVoid)] \<and> pcs (amon before) 2 = Returned (Append ''hi'') AVoid
    \<and> alog_step 10 notice 2 before (before\<lparr>a_running := False\<rparr>)
    \<and> (alog_step 10 notice 2)\<^sup>*\<^sup>* (before\<lparr>a_running := False\<rparr>) after
    \<and> backend after = BDone \<and> lost after = 0
    \<and> {a. (alog_step 10 notice 2)\<^sup>*\<^sup>* after a} \<subseteq> {a. written a = []}"
proof (rule exI [of _ one_line], rule exI [of _ stopped_line], intro conjI)
  show "alog_runs 10 notice 2 one_line" by (rule one_line_runs)
  show "alog_step 10 notice 2 one_line (one_line\<lparr>a_running := False\<rparr>)" by (rule stopped_line_steps)
  show "(alog_step 10 notice 2)\<^sup>*\<^sup>* (one_line\<lparr>a_running := False\<rparr>) stopped_line"
    using stopped_line_steps(2) by (rule r_into_rtranclp)
  show b: "backend stopped_line = BDone" and "lost stopped_line = 0"
    by (simp_all add: stopped_line_def one_line_def mkAlog_def)
  have "written stopped_line = []" by (simp add: stopped_line_def one_line_def mkAlog_def)
  then have "written a = []" if "(alog_step 10 notice 2)\<^sup>*\<^sup>* stopped_line a" for a
    using done_writes_nothing [OF that b] by simp
  then show "{a. (alog_step 10 notice 2)\<^sup>*\<^sup>* stopped_line a} \<subseteq> {a. written a = []}" by blast
qed (simp_all add: one_line_def mkAlog_def)

end
