(* ===== verification/Channel.thy ===== *)
theory Channel
  imports Prelude
begin

unbundle bit_operations_syntax

text \<open>
  \<^verbatim>\<open>muduo/net/Channel.h\<close> and \<^verbatim>\<open>Channel.cc\<close>: the event masks of a file descriptor and the dispatch of
  events to the four callbacks. A \<^verbatim>\<open>Channel*\<close> is a number, and the objects it may point to are a store. The
  registration with the event loop (\<^verbatim>\<open>update\<close>, \<^verbatim>\<open>remove\<close>) follows with the pollers.
\<close>

section \<open>Event masks\<close>

definition POLLIN :: "32 word" where "POLLIN = 0x001"
definition POLLPRI :: "32 word" where "POLLPRI = 0x002"
definition POLLOUT :: "32 word" where "POLLOUT = 0x004"
definition POLLERR :: "32 word" where "POLLERR = 0x008"
definition POLLHUP :: "32 word" where "POLLHUP = 0x010"
definition POLLNVAL :: "32 word" where "POLLNVAL = 0x020"
definition POLLRDHUP :: "32 word" where "POLLRDHUP = 0x2000"

lemmas poll_flags = POLLIN_def POLLPRI_def POLLOUT_def POLLERR_def POLLHUP_def POLLNVAL_def POLLRDHUP_def

definition kNoneEvent :: "32 word" where
  "kNoneEvent = 0"

definition kReadEvent :: "32 word" where
  "kReadEvent = POLLIN OR POLLPRI"

definition kWriteEvent :: "32 word" where
  "kWriteEvent = POLLOUT"

text \<open>\<^verbatim>\<open>revents_ & flags\<close> as a condition.\<close>

definition has :: "32 word \<Rightarrow> 32 word \<Rightarrow> bool" where
  "has ev flags \<longleftrightarrow> ev AND flags \<noteq> 0"

section \<open>The object\<close>

datatype callback = ReadCallback | WriteCallback | CloseCallback | ErrorCallback

record Channel =
  ch_fd :: int
  events :: "32 word"
  revents :: "32 word"
  ch_index :: int
  logHup :: bool
  tied :: bool
  ch_eventHandling :: bool
  addedToLoop :: bool
  callbacks :: "callback set"

type_synonym store = "nat \<Rightarrow> Channel"

definition mkChannel :: "int \<Rightarrow> Channel" where
  "mkChannel fd = \<lparr>ch_fd = fd, events = 0, revents = 0, ch_index = -1, logHup = True, tied = False,
     ch_eventHandling = False, addedToLoop = False, callbacks = {}\<rparr>"

definition setCallback :: "callback \<Rightarrow> Channel \<Rightarrow> Channel" where
  "setCallback cb c = c\<lparr>callbacks := insert cb (callbacks c)\<rparr>"

definition tie :: "Channel \<Rightarrow> Channel" where
  "tie c = c\<lparr>tied := True\<rparr>"

definition isNoneEvent :: "Channel \<Rightarrow> bool" where
  "isNoneEvent c \<longleftrightarrow> events c = kNoneEvent"

definition isWriting :: "Channel \<Rightarrow> bool" where
  "isWriting c \<longleftrightarrow> has (events c) kWriteEvent"

definition isReading :: "Channel \<Rightarrow> bool" where
  "isReading c \<longleftrightarrow> has (events c) kReadEvent"

definition set_revents :: "32 word \<Rightarrow> Channel \<Rightarrow> Channel" where
  "set_revents revt c = c\<lparr>revents := revt\<rparr>"

definition set_index :: "int \<Rightarrow> Channel \<Rightarrow> Channel" where
  "set_index idx c = c\<lparr>ch_index := idx\<rparr>"

definition doNotLogHup :: "Channel \<Rightarrow> Channel" where
  "doNotLogHup c = c\<lparr>logHup := False\<rparr>"

text \<open>The changes of the mask in the five operations that end in \<^verbatim>\<open>update()\<close>.\<close>

datatype interest = EnableReading | DisableReading | EnableWriting | DisableWriting | DisableAll

definition set_interest :: "interest \<Rightarrow> Channel \<Rightarrow> Channel" where
  "set_interest i c = c\<lparr>events := (case i of
      EnableReading \<Rightarrow> events c OR kReadEvent
    | DisableReading \<Rightarrow> events c AND NOT kReadEvent
    | EnableWriting \<Rightarrow> events c OR kWriteEvent
    | DisableWriting \<Rightarrow> events c AND NOT kWriteEvent
    | DisableAll \<Rightarrow> kNoneEvent)\<rparr>"

section \<open>Dispatch\<close>

text \<open>
  Which callbacks \<^verbatim>\<open>handleEventWithGuard\<close> calls, in order. The mask \<^verbatim>\<open>revents_\<close> is only written by the pollers, so
  all tests see the same value.
\<close>

definition handleEventWithGuard :: "Channel \<Rightarrow> callback list" where
  "handleEventWithGuard c =
    (let call = \<lambda>cb. if cb \<in> callbacks c then [cb] else [] in
     (if has (revents c) POLLHUP \<and> \<not> has (revents c) POLLIN then call CloseCallback else [])
     @ (if has (revents c) (POLLERR OR POLLNVAL) then call ErrorCallback else [])
     @ (if has (revents c) (POLLIN OR POLLPRI OR POLLRDHUP) then call ReadCallback else [])
     @ (if has (revents c) POLLOUT then call WriteCallback else []))"

text \<open>\<open>alive\<close>: the object the channel is tied to still exists (\<^verbatim>\<open>tie_.lock()\<close> succeeds).\<close>

definition handleEvent :: "bool \<Rightarrow> Channel \<Rightarrow> callback list" where
  "handleEvent alive c =
    (if tied c then (if alive then handleEventWithGuard c else []) else handleEventWithGuard c)"

definition eventsToString :: "int \<Rightarrow> 32 word \<Rightarrow> string" where
  "eventsToString fd ev = dec_int fd @ '': ''
     @ (if has ev POLLIN then ''IN '' else []) @ (if has ev POLLPRI then ''PRI '' else [])
     @ (if has ev POLLOUT then ''OUT '' else []) @ (if has ev POLLHUP then ''HUP '' else [])
     @ (if has ev POLLRDHUP then ''RDHUP '' else []) @ (if has ev POLLERR then ''ERR '' else [])
     @ (if has ev POLLNVAL then ''NVAL '' else [])"

definition channel_reventsToString :: "Channel \<Rightarrow> string" where
  "channel_reventsToString c = eventsToString (ch_fd c) (revents c)"

definition channel_eventsToString :: "Channel \<Rightarrow> string" where
  "channel_eventsToString c = eventsToString (ch_fd c) (events c)"

section \<open>The masks a channel can have\<close>

text \<open>A channel's mask only ever holds the read and the write bits, each as a whole.\<close>

definition mask_of :: "bool \<Rightarrow> bool \<Rightarrow> 32 word" where
  "mask_of r w = (if r then kReadEvent else 0) OR (if w then kWriteEvent else 0)"

definition event_ok :: "Channel \<Rightarrow> bool" where
  "event_ok c \<longleftrightarrow> events c \<in> {mask_of False False, mask_of True False, mask_of False True, mask_of True True}"

lemmas mask_simps = mask_of_def kReadEvent_def kWriteEvent_def kNoneEvent_def poll_flags has_def

lemma mask_tests [simp]:
  "has (mask_of r w) kReadEvent = r" "has (mask_of r w) kWriteEvent = w" "(mask_of r w = kNoneEvent) = (\<not> r \<and> \<not> w)"
  by (cases r; cases w; simp add: mask_simps)+

lemma event_ok_iff: "event_ok c \<longleftrightarrow> (\<exists>r w. events c = mask_of r w)"
proof
  show "\<exists>r w. events c = mask_of r w" if "event_ok c" using that unfolding event_ok_def by blast
  assume "\<exists>r w. events c = mask_of r w"
  then obtain r w where "events c = mask_of r w" by blast
  then show "event_ok c" unfolding event_ok_def by (cases r; cases w) simp_all
qed

lemma set_interest_mask:
  assumes "events c = mask_of r w"
  shows "events (set_interest EnableReading c) = mask_of True w"
    "events (set_interest DisableReading c) = mask_of False w"
    "events (set_interest EnableWriting c) = mask_of r True"
    "events (set_interest DisableWriting c) = mask_of r False"
    "events (set_interest DisableAll c) = mask_of False False"
  using assms by (cases r; cases w; simp add: set_interest_def mask_simps)+

lemma event_ok_new: "event_ok (mkChannel fd)"
  by (simp add: event_ok_def mkChannel_def mask_simps)

lemma event_ok_step: "event_ok c \<Longrightarrow> event_ok (set_interest i c)"
  unfolding event_ok_iff by (cases i) (blast dest: set_interest_mask)+

section \<open>Properties\<close>

text \<open>What the five operations mean: whether reading and writing are wanted.\<close>

definition wanted_step :: "interest \<Rightarrow> bool \<times> bool \<Rightarrow> bool \<times> bool" where
  "wanted_step i rw = (case i of
     EnableReading \<Rightarrow> (True, snd rw) | DisableReading \<Rightarrow> (False, snd rw)
   | EnableWriting \<Rightarrow> (fst rw, True) | DisableWriting \<Rightarrow> (fst rw, False) | DisableAll \<Rightarrow> (False, False))"

definition wanted :: "interest list \<Rightarrow> bool \<times> bool" where
  "wanted is = foldl (\<lambda>rw i. wanted_step i rw) (False, False) is"

lemma mask_history: "events (foldl (\<lambda>c i. set_interest i c) (mkChannel fd) is) = mask_of (fst (wanted is)) (snd (wanted is))"
proof (induction "is" rule: rev_induct)
  case Nil
  then show ?case by (simp add: wanted_def mkChannel_def mask_simps)
next
  case (snoc i "is")
  have "wanted (is @ [i]) = wanted_step i (wanted is)" by (simp add: wanted_def)
  with snoc show ?case by (cases i) (simp_all add: wanted_step_def set_interest_mask)
qed

text \<open>
  The event mask of a channel is always one of the four meaningful combinations: after any sequence of
  enable and disable calls, \<^verbatim>\<open>isReading\<close> and \<^verbatim>\<open>isWriting\<close> tell what was last asked for, independently of each
  other, and \<^verbatim>\<open>isNoneEvent\<close> that nothing is wanted.
\<close>

theorem channel_masks:
  "let c = foldl (\<lambda>c i. set_interest i c) (mkChannel fd) is in
   event_ok c \<and> isReading c = fst (wanted is) \<and> isWriting c = snd (wanted is)
    \<and> isNoneEvent c = (wanted is = (False, False))"
  using mask_history [of fd "is"]
  by (auto simp: Let_def isReading_def isWriting_def isNoneEvent_def event_ok_iff prod_eq_iff)

end
