(* ===== verification/Poller.thy ===== *)
theory Poller
  imports Channel
begin

text \<open>
  The two pollers, \<^verbatim>\<open>muduo/net/poller/EPollPoller.cc\<close> and \<^verbatim>\<open>PollPoller.cc\<close>, over their common base
  \<^verbatim>\<open>Poller.h/.cc\<close>. An operation works on the poller and on the store of channels. \<^verbatim>\<open>CurrentThread::tid()\<close> is an
  argument. The interface \<open>poller\<close> states what a poller promises to \<^verbatim>\<open>Channel\<close> and \<^verbatim>\<open>EventLoop\<close>; both pollers are
  instances.
\<close>

section \<open>EPollPoller\<close>

text \<open>
  \<open>interest\<close> is the interest list of the epoll instance: for a descriptor the requested events and
  \<^verbatim>\<open>data.ptr\<close>. \<^verbatim>\<open>epoll_ctl(2)\<close> fails with \<^verbatim>\<open>EEXIST\<close> or \<^verbatim>\<open>ENOENT\<close> as documented, and whenever \<open>refuse\<close> says so.
\<close>

datatype ctl = EPOLL_CTL_ADD | EPOLL_CTL_MOD | EPOLL_CTL_DEL

type_synonym interest_list = "int \<rightharpoonup> 32 word \<times> nat"

definition epoll_ctl :: "(ctl \<Rightarrow> int \<Rightarrow> bool) \<Rightarrow> ctl \<Rightarrow> int \<Rightarrow> 32 word \<times> nat \<Rightarrow> interest_list \<Rightarrow> interest_list option" where
  "epoll_ctl refuse op fd event il =
    (if refuse op fd then None else
     case op of
       EPOLL_CTL_ADD \<Rightarrow> if il fd = None then Some (il(fd \<mapsto> event)) else None
     | EPOLL_CTL_MOD \<Rightarrow> if il fd = None then None else Some (il(fd \<mapsto> event))
     | EPOLL_CTL_DEL \<Rightarrow> if il fd = None then None else Some (il(fd := None)))"

record EPollPoller =
  ep_owner :: nat
  ep_channels :: "int \<rightharpoonup> nat"
  interest :: interest_list
  events_size :: nat

definition kNew :: int where "kNew = -1"
definition kAdded :: int where "kAdded = 1"
definition kDeleted :: int where "kDeleted = 2"

definition kInitEventListSize :: nat where
  "kInitEventListSize = 16"

definition mkEPollPoller :: "nat \<Rightarrow> EPollPoller" where
  "mkEPollPoller loopThread = \<lparr>ep_owner = loopThread, ep_channels = Map.empty, interest = Map.empty,
     events_size = kInitEventListSize\<rparr>"

definition operationToString :: "ctl \<Rightarrow> string" where
  "operationToString op = (case op of EPOLL_CTL_ADD \<Rightarrow> ''ADD'' | EPOLL_CTL_DEL \<Rightarrow> ''DEL'' | EPOLL_CTL_MOD \<Rightarrow> ''MOD'')"

text \<open>\<^verbatim>\<open>assertInLoopThread\<close>: a call from another thread ends in \<^verbatim>\<open>LOG_FATAL\<close>.\<close>

definition assertInLoopThread :: "nat \<Rightarrow> nat \<Rightarrow> unit res" where
  "assertInLoopThread threadId tid = (if threadId = tid then Inr () else Inl Aborted)"

definition ep_update :: "(ctl \<Rightarrow> int \<Rightarrow> bool) \<Rightarrow> ctl \<Rightarrow> nat \<Rightarrow> EPollPoller \<Rightarrow> store \<Rightarrow> EPollPoller res" where
  "ep_update refuse operation channel p st =
    (case epoll_ctl refuse operation (ch_fd (st channel)) (events (st channel), channel) (interest p) of
       Some il \<Rightarrow> Inr (p\<lparr>interest := il\<rparr>)
     | None \<Rightarrow> if operation = EPOLL_CTL_DEL then Inr p else Inl Aborted)"

definition ep_updateChannel :: "(ctl \<Rightarrow> int \<Rightarrow> bool) \<Rightarrow> nat \<Rightarrow> nat \<Rightarrow> EPollPoller \<times> store \<Rightarrow> (EPollPoller \<times> store) res" where
  "ep_updateChannel refuse tid channel s = (case s of (p, st) \<Rightarrow>
    bindE (assertInLoopThread (ep_owner p) tid) (\<lambda>_.
    let index = ch_index (st channel); fd = ch_fd (st channel) in
    if index = kNew \<or> index = kDeleted
    then
      bindE (if index = kNew
             then bindE (assertE (ep_channels p fd = None)) (\<lambda>_. Inr (p\<lparr>ep_channels := (ep_channels p)(fd \<mapsto> channel)\<rparr>))
             else bindE (assertE (ep_channels p fd \<noteq> None)) (\<lambda>_.
                  bindE (assertE (ep_channels p fd = Some channel)) (\<lambda>_. Inr p))) (\<lambda>p.
      let st = st(channel := set_index kAdded (st channel)) in
      bindE (ep_update refuse EPOLL_CTL_ADD channel p st) (\<lambda>p. Inr (p, st)))
    else
      bindE (assertE (ep_channels p fd \<noteq> None)) (\<lambda>_.
      bindE (assertE (ep_channels p fd = Some channel)) (\<lambda>_.
      bindE (assertE (index = kAdded)) (\<lambda>_.
      if isNoneEvent (st channel)
      then bindE (ep_update refuse EPOLL_CTL_DEL channel p st) (\<lambda>p.
           Inr (p, st(channel := set_index kDeleted (st channel))))
      else bindE (ep_update refuse EPOLL_CTL_MOD channel p st) (\<lambda>p. Inr (p, st)))))))"

definition ep_removeChannel :: "(ctl \<Rightarrow> int \<Rightarrow> bool) \<Rightarrow> nat \<Rightarrow> nat \<Rightarrow> EPollPoller \<times> store \<Rightarrow> (EPollPoller \<times> store) res" where
  "ep_removeChannel refuse tid channel s = (case s of (p, st) \<Rightarrow>
    bindE (assertInLoopThread (ep_owner p) tid) (\<lambda>_.
    let fd = ch_fd (st channel); index = ch_index (st channel) in
    bindE (assertE (ep_channels p fd \<noteq> None)) (\<lambda>_.
    bindE (assertE (ep_channels p fd = Some channel)) (\<lambda>_.
    bindE (assertE (isNoneEvent (st channel))) (\<lambda>_.
    bindE (assertE (index = kAdded \<or> index = kDeleted)) (\<lambda>_.
    let p = p\<lparr>ep_channels := (ep_channels p)(fd := None)\<rparr> in
    bindE (if index = kAdded then ep_update refuse EPOLL_CTL_DEL channel p st else Inr p) (\<lambda>p.
    Inr (p, st(channel := set_index kNew (st channel))))))))))"

definition hasChannel :: "nat \<Rightarrow> nat \<Rightarrow> (int \<rightharpoonup> nat) \<Rightarrow> nat \<Rightarrow> store \<Rightarrow> bool res" where
  "hasChannel owner tid chans channel st =
    bindE (assertInLoopThread owner tid) (\<lambda>_. Inr (chans (ch_fd (st channel)) = Some channel))"

text \<open>\<open>ready\<close> is the array that \<^verbatim>\<open>epoll_wait(2)\<close> has filled: events and \<^verbatim>\<open>data.ptr\<close> of each entry.\<close>

fun ep_fill :: "(int \<rightharpoonup> nat) \<Rightarrow> (32 word \<times> nat) list \<Rightarrow> store \<Rightarrow> nat list \<Rightarrow> (store \<times> nat list) res" where
  "ep_fill chans [] st active = Inr (st, active)"
| "ep_fill chans ((ev, channel) # ready) st active =
    bindE (assertE (chans (ch_fd (st channel)) \<noteq> None)) (\<lambda>_.
    bindE (assertE (chans (ch_fd (st channel)) = Some channel)) (\<lambda>_.
    ep_fill chans ready (st(channel := set_revents ev (st channel))) (active @ [channel])))"

definition ep_fillActiveChannels :: "EPollPoller \<Rightarrow> (32 word \<times> nat) list \<Rightarrow> store \<Rightarrow> nat list \<Rightarrow> (store \<times> nat list) res" where
  "ep_fillActiveChannels p ready st active =
    bindE (assertE (length ready \<le> events_size p)) (\<lambda>_. ep_fill (ep_channels p) ready st active)"

text \<open>\<open>None\<close>: \<^verbatim>\<open>epoll_wait\<close> failed; the error is logged and nothing is reported.\<close>

definition ep_poll :: "(32 word \<times> nat) list option \<Rightarrow> EPollPoller \<times> store \<Rightarrow> nat list
    \<Rightarrow> ((EPollPoller \<times> store) \<times> nat list) res" where
  "ep_poll wait s active = (case s of (p, st) \<Rightarrow>
    (case wait of
       Some ready \<Rightarrow>
         if ready \<noteq> [] then
           bindE (ep_fillActiveChannels p ready st active) (\<lambda>(st, active).
           Inr ((if length ready = events_size p then p\<lparr>events_size := events_size p * 2\<rparr> else p, st), active))
         else Inr (s, active)
     | None \<Rightarrow> Inr (s, active)))"

section \<open>PollPoller\<close>

record pollfd =
  pfd_fd :: int
  pfd_events :: "16 word"
  pfd_revents :: "16 word"

record PollPoller =
  pp_owner :: nat
  pp_channels :: "int \<rightharpoonup> nat"
  pollfds :: "pollfd list"

definition mkPollPoller :: "nat \<Rightarrow> PollPoller" where
  "mkPollPoller loopThread = \<lparr>pp_owner = loopThread, pp_channels = Map.empty, pollfds = []\<rparr>"

definition pp_updateChannel :: "nat \<Rightarrow> nat \<Rightarrow> PollPoller \<times> store \<Rightarrow> (PollPoller \<times> store) res" where
  "pp_updateChannel tid channel s = (case s of (p, st) \<Rightarrow>
    bindE (assertInLoopThread (pp_owner p) tid) (\<lambda>_.
    let c = st channel; fd = ch_fd c in
    if ch_index c < 0
    then
      bindE (assertE (pp_channels p fd = None)) (\<lambda>_.
      let pfd = \<lparr>pfd_fd = fd, pfd_events = ucast (events c), pfd_revents = 0\<rparr>;
          idx = int (length (pollfds p)) in
      Inr (p\<lparr>pollfds := pollfds p @ [pfd], pp_channels := (pp_channels p)(fd \<mapsto> channel)\<rparr>,
           st(channel := set_index idx c)))
    else
      bindE (assertE (pp_channels p fd \<noteq> None)) (\<lambda>_.
      bindE (assertE (pp_channels p fd = Some channel)) (\<lambda>_.
      let idx = nat (ch_index c) in
      bindE (assertE (idx < length (pollfds p))) (\<lambda>_.
      let pfd = pollfds p ! idx in
      bindE (assertE (pfd_fd pfd = fd \<or> pfd_fd pfd = - fd - 1)) (\<lambda>_.
      let pfd = \<lparr>pfd_fd = (if isNoneEvent c then - fd - 1 else fd), pfd_events = ucast (events c), pfd_revents = 0\<rparr> in
      Inr (p\<lparr>pollfds := (pollfds p)[idx := pfd]\<rparr>, st)))))))"

definition pp_removeChannel :: "nat \<Rightarrow> nat \<Rightarrow> PollPoller \<times> store \<Rightarrow> (PollPoller \<times> store) res" where
  "pp_removeChannel tid channel s = (case s of (p, st) \<Rightarrow>
    bindE (assertInLoopThread (pp_owner p) tid) (\<lambda>_.
    let c = st channel; fd = ch_fd c in
    bindE (assertE (pp_channels p fd \<noteq> None)) (\<lambda>_.
    bindE (assertE (pp_channels p fd = Some channel)) (\<lambda>_.
    bindE (assertE (isNoneEvent c)) (\<lambda>_.
    bindE (assertE (0 \<le> ch_index c \<and> ch_index c < int (length (pollfds p)))) (\<lambda>_.
    let idx = nat (ch_index c); pfd = pollfds p ! idx in
    bindE (assertE (pfd_fd pfd = - fd - 1 \<and> scast (pfd_events pfd) = events c)) (\<lambda>_.
    let p = p\<lparr>pp_channels := (pp_channels p)(fd := None)\<rparr> in
    if idx = length (pollfds p) - 1
    then Inr (p\<lparr>pollfds := butlast (pollfds p)\<rparr>, st)
    else
      let back = last (pollfds p);
          channelAtEnd = (if pfd_fd back < 0 then - pfd_fd back - 1 else pfd_fd back) in
      (case pp_channels p channelAtEnd of
         Some d \<Rightarrow> Inr (p\<lparr>pollfds := butlast ((pollfds p)[idx := back])\<rparr>, st(d := set_index (int idx) (st d)))
       | None \<Rightarrow> Inl OutOfBounds))))))))"

text \<open>\<open>filled\<close> is \<^verbatim>\<open>pollfds_\<close> after \<^verbatim>\<open>poll(2)\<close> has stored the \<^verbatim>\<open>revents\<close>; the loop stops after \<open>numEvents\<close> hits.\<close>

fun pp_fill :: "(int \<rightharpoonup> nat) \<Rightarrow> nat \<Rightarrow> pollfd list \<Rightarrow> store \<Rightarrow> nat list \<Rightarrow> (store \<times> nat list) res" where
  "pp_fill chans numEvents [] st active = Inr (st, active)"
| "pp_fill chans numEvents (pfd # pfds) st active =
    (if numEvents = 0 then Inr (st, active)
     else if 0 <s pfd_revents pfd
     then
       (case chans (pfd_fd pfd) of
          None \<Rightarrow> Inl AssertFailed
        | Some channel \<Rightarrow>
            bindE (assertE (ch_fd (st channel) = pfd_fd pfd)) (\<lambda>_.
            pp_fill chans (numEvents - 1) pfds (st(channel := set_revents (scast (pfd_revents pfd)) (st channel)))
              (active @ [channel])))
     else pp_fill chans numEvents pfds st active)"

definition pp_poll :: "(nat \<times> pollfd list) option \<Rightarrow> PollPoller \<times> store \<Rightarrow> nat list
    \<Rightarrow> ((PollPoller \<times> store) \<times> nat list) res" where
  "pp_poll polled s active = (case s of (p, st) \<Rightarrow>
    (case polled of
       Some (numEvents, filled) \<Rightarrow>
         if numEvents > 0 then
           bindE (pp_fill (pp_channels p) numEvents filled st active) (\<lambda>(st, active).
           Inr ((p\<lparr>pollfds := filled\<rparr>, st), active))
         else Inr ((p\<lparr>pollfds := filled\<rparr>, st), active)
     | None \<Rightarrow> Inr (s, active)))"

section \<open>The contract\<close>

text \<open>
  What a poller keeps: which channel owns a descriptor, which events are watched for which channel, and which
  channels have ever been registered.
\<close>

record registry =
  a_channels :: "int \<rightharpoonup> nat"
  a_watch :: "nat \<rightharpoonup> 32 word"
  a_used :: "nat set"

definition empty_registry :: registry where
  "empty_registry = \<lparr>a_channels = Map.empty, a_watch = Map.empty, a_used = {}\<rparr>"

definition registry_ok :: "registry \<Rightarrow> store \<Rightarrow> bool" where
  "registry_ok A st \<longleftrightarrow> (\<forall>fd c. a_channels A fd = Some c \<longrightarrow> 0 \<le> fd \<and> ch_fd (st c) = fd \<and> c \<in> a_used A)
    \<and> (\<forall>c ev. a_watch A c = Some ev \<longrightarrow> a_channels A (ch_fd (st c)) = Some c)"

text \<open>
  A channel may be updated when it is registered, or has never been and its descriptor is free; its events may be
  empty only while they are watched.
\<close>

definition can_update :: "registry \<Rightarrow> nat \<Rightarrow> Channel \<Rightarrow> bool" where
  "can_update A c ch \<longleftrightarrow> 0 \<le> ch_fd ch
    \<and> (a_channels A (ch_fd ch) = Some c \<or> a_channels A (ch_fd ch) = None \<and> c \<notin> a_used A)
    \<and> (events ch = 0 \<longrightarrow> a_watch A c \<noteq> None) \<and> event_ok ch"

definition a_update :: "nat \<Rightarrow> Channel \<Rightarrow> registry \<Rightarrow> registry" where
  "a_update c ch A = A\<lparr>a_channels := (a_channels A)(ch_fd ch \<mapsto> c),
     a_watch := (a_watch A)(c := if events ch = 0 then None else Some (events ch)), a_used := insert c (a_used A)\<rparr>"

definition can_remove :: "registry \<Rightarrow> nat \<Rightarrow> Channel \<Rightarrow> bool" where
  "can_remove A c ch \<longleftrightarrow> a_channels A (ch_fd ch) = Some c \<and> events ch = 0 \<and> a_watch A c = None"

definition a_remove :: "nat \<Rightarrow> Channel \<Rightarrow> registry \<Rightarrow> registry" where
  "a_remove c ch A = A\<lparr>a_channels := (a_channels A)(ch_fd ch := None)\<rparr>"

lemma a_simps [simp]:
  "a_channels (a_update c ch A) = (a_channels A)(ch_fd ch \<mapsto> c)"
  "a_watch (a_update c ch A) = (a_watch A)(c := if events ch = 0 then None else Some (events ch))"
  "a_used (a_update c ch A) = insert c (a_used A)"
  "a_channels (a_remove c ch A) = (a_channels A)(ch_fd ch := None)"
  "a_watch (a_remove c ch A) = a_watch A" "a_used (a_remove c ch A) = a_used A"
  by (simp_all add: a_update_def a_remove_def)

text \<open>The poller changes nothing in a channel but its index.\<close>

definition same_channels :: "store \<Rightarrow> store \<Rightarrow> bool" where
  "same_channels st st' \<longleftrightarrow> (\<forall>c. \<exists>i. st' c = (st c)\<lparr>ch_index := i\<rparr>)"

text \<open>\<^verbatim>\<open>Channel::update\<close> with the change of the mask before it, and \<^verbatim>\<open>Channel::remove\<close>, over the poller's operations.\<close>

datatype chan_op = Interest nat interest | Remove nat

definition channel_update :: "(nat \<Rightarrow> 'p \<times> store \<Rightarrow> ('p \<times> store) res) \<Rightarrow> nat \<Rightarrow> interest \<Rightarrow> 'p \<times> store \<Rightarrow> ('p \<times> store) res" where
  "channel_update update c i s = (case s of (p, st) \<Rightarrow> update c (p, st(c := (set_interest i (st c))\<lparr>addedToLoop := True\<rparr>)))"

definition channel_remove :: "(nat \<Rightarrow> 'p \<times> store \<Rightarrow> ('p \<times> store) res) \<Rightarrow> nat \<Rightarrow> 'p \<times> store \<Rightarrow> ('p \<times> store) res" where
  "channel_remove remove c s = (case s of (p, st) \<Rightarrow>
    bindE (assertE (isNoneEvent (st c))) (\<lambda>_. remove c (p, st(c := (st c)\<lparr>addedToLoop := False\<rparr>))))"

fun run_chan :: "(nat \<Rightarrow> 'p \<times> store \<Rightarrow> ('p \<times> store) res) \<Rightarrow> (nat \<Rightarrow> 'p \<times> store \<Rightarrow> ('p \<times> store) res)
    \<Rightarrow> chan_op list \<Rightarrow> 'p \<times> store \<Rightarrow> ('p \<times> store) res" where
  "run_chan update remove [] s = Inr s"
| "run_chan update remove (Interest c i # ops) s = bindE (channel_update update c i s) (run_chan update remove ops)"
| "run_chan update remove (Remove c # ops) s = bindE (channel_remove remove c s) (run_chan update remove ops)"

text \<open>The same operations on the registry; \<open>None\<close> when the contract does not allow one.\<close>

fun run_registry :: "chan_op list \<Rightarrow> registry \<times> store \<Rightarrow> (registry \<times> store) option" where
  "run_registry [] s = Some s"
| "run_registry (Interest c i # ops) (A, st) =
    (let ch = (set_interest i (st c))\<lparr>addedToLoop := True\<rparr> in
     if can_update A c ch then run_registry ops (a_update c ch A, st(c := ch)) else None)"
| "run_registry (Remove c # ops) (A, st) =
    (if can_remove A c (st c) then run_registry ops (a_remove c (st c) A, st(c := (st c)\<lparr>addedToLoop := False\<rparr>)) else None)"

lemma same_channelsE:
  assumes "same_channels st st'"
  obtains i where "st' c = (st c)\<lparr>ch_index := i\<rparr>"
  using assms by (auto simp: same_channels_def)

lemma same_channels_refl [simp]: "same_channels st st"
proof -
  have "st c = (st c)\<lparr>ch_index := ch_index (st c)\<rparr>" for c by simp
  then show ?thesis unfolding same_channels_def by blast
qed

lemma same_channels_trans:
  assumes "same_channels a b" "same_channels b c"
  shows "same_channels a c"
  unfolding same_channels_def
proof
  fix x
  obtain i where i: "b x = (a x)\<lparr>ch_index := i\<rparr>" using assms(1) by (rule same_channelsE)
  obtain j where "c x = (b x)\<lparr>ch_index := j\<rparr>" using assms(2) by (rule same_channelsE)
  with i have "c x = (a x)\<lparr>ch_index := j\<rparr>" by simp
  then show "\<exists>i. c x = (a x)\<lparr>ch_index := i\<rparr>" ..
qed

lemma same_channels_upd: "same_channels a b \<Longrightarrow> y = x\<lparr>ch_index := i\<rparr> \<Longrightarrow> same_channels (a(c := x)) (b(c := y))"
  by (auto simp: same_channels_def)

lemma same_set_index [simp]: "same_channels st (st(c := set_index i (st c)))"
  unfolding same_channels_def
proof
  fix d
  show "\<exists>j. (st(c := set_index i (st c))) d = (st d)\<lparr>ch_index := j\<rparr>"
    by (rule exI [of _ "if d = c then i else ch_index (st d)"]) (simp add: set_index_def)
qed

lemma interest_index:
  "(set_interest i (c\<lparr>ch_index := k\<rparr>))\<lparr>addedToLoop := b\<rparr> = (set_interest i c)\<lparr>addedToLoop := b, ch_index := k\<rparr>"
  by (rule Channel.equality) (cases i; simp add: set_interest_def)+

locale poller =
  fixes update :: "nat \<Rightarrow> 'p \<times> store \<Rightarrow> ('p \<times> store) res"
    and remove :: "nat \<Rightarrow> 'p \<times> store \<Rightarrow> ('p \<times> store) res"
    and R :: "'p \<Rightarrow> store \<Rightarrow> registry \<Rightarrow> bool"
  assumes R_store: "R p st A \<Longrightarrow> (\<And>c. ch_index (st' c) = ch_index (st c) \<and> ch_fd (st' c) = ch_fd (st c)) \<Longrightarrow> R p st' A"
    and update_ok: "R p st A \<Longrightarrow> can_update A c (st c)
      \<Longrightarrow> okE (update c (p, st)) (\<lambda>(p', st'). R p' st' (a_update c (st c) A) \<and> same_channels st st')"
    and remove_ok: "R p st A \<Longrightarrow> can_remove A c (st c)
      \<Longrightarrow> okE (remove c (p, st)) (\<lambda>(p', st'). R p' st' (a_remove c (st c) A) \<and> same_channels st st')"
begin

lemma run_ok:
  "\<lbrakk>R p st A; same_channels ast st; run_registry ops (A, ast) = Some (A', ast')\<rbrakk>
    \<Longrightarrow> okE (run_chan update remove ops (p, st)) (\<lambda>(p', st'). R p' st' A' \<and> same_channels ast' st')"
proof (induction ops arbitrary: p st A ast)
  case (Cons op ops)
  show ?case
  proof (cases op)
    case (Interest c i)
    define ach where "ach = (set_interest i (ast c))\<lparr>addedToLoop := True\<rparr>"
    define ch where "ch = (set_interest i (st c))\<lparr>addedToLoop := True\<rparr>"
    obtain k where k: "st c = (ast c)\<lparr>ch_index := k\<rparr>" using Cons.prems(2) by (rule same_channelsE)
    have eq: "ch = ach\<lparr>ch_index := k\<rparr>" unfolding ach_def ch_def k by (rule interest_index)
    then have eq': "ch_fd ach = ch_fd ch" "events ach = events ch" by simp_all
    have go: "can_update A c ach" "run_registry ops (a_update c ach A, ast(c := ach)) = Some (A', ast')"
      using Cons.prems(3) Interest by (auto simp: ach_def Let_def split: if_splits)
    have u: "can_update A c ch" "a_update c ach A = a_update c ch A"
      using go(1) eq' by (auto simp: can_update_def a_update_def event_ok_def)
    have R': "R p (st(c := ch)) A"
      by (rule R_store [OF Cons.prems(1)]) (simp add: ch_def set_interest_def)
    have same: "same_channels (ast(c := ach)) (st(c := ch))"
      by (rule same_channels_upd [OF Cons.prems(2) eq])
    have "okE (channel_update update c i (p, st)) (\<lambda>s'. okE (run_chan update remove ops s')
        (\<lambda>(p', st'). R p' st' A' \<and> same_channels ast' st'))"
      unfolding channel_update_def prod.case ch_def [symmetric]
    proof (rule okE_mono [OF update_ok [OF R']])
      fix s' assume "case s' of (p', st') \<Rightarrow> R p' st' (a_update c ((st(c := ch)) c) A) \<and> same_channels (st(c := ch)) st'"
      then obtain p' st' where s': "s' = (p', st')" "R p' st' (a_update c ach A)" "same_channels (st(c := ch)) st'"
        using u(2) by (cases s') auto
      show "okE (run_chan update remove ops s') (\<lambda>(p', st'). R p' st' A' \<and> same_channels ast' st')"
        unfolding s'(1) by (rule Cons.IH [OF s'(2) same_channels_trans [OF same s'(3)] go(2)])
    qed (use u in simp)
    then show ?thesis by (simp add: Interest okE_bind)
  next
    case (Remove c)
    have go: "can_remove A c (ast c)"
      "run_registry ops (a_remove c (ast c) A, ast(c := (ast c)\<lparr>addedToLoop := False\<rparr>)) = Some (A', ast')"
      using Cons.prems(3) Remove by (auto split: if_splits)
    let ?st = "st(c := (st c)\<lparr>addedToLoop := False\<rparr>)"
    obtain k where k: "st c = (ast c)\<lparr>ch_index := k\<rparr>" using Cons.prems(2) by (rule same_channelsE)
    then have eq: "ch_fd (st c) = ch_fd (ast c)" "events (st c) = events (ast c)" by simp_all
    have u: "can_remove A c (?st c)" "a_remove c (ast c) A = a_remove c (?st c) A" "isNoneEvent (st c)"
      using go(1) eq by (auto simp: can_remove_def a_remove_def isNoneEvent_def kNoneEvent_def)
    have R': "R p ?st A" by (rule R_store [OF Cons.prems(1)]) simp
    have same: "same_channels (ast(c := (ast c)\<lparr>addedToLoop := False\<rparr>)) ?st"
      by (rule same_channels_upd [OF Cons.prems(2), where i = k]) (simp add: k)
    have "okE (remove c (p, ?st)) (\<lambda>s'. okE (run_chan update remove ops s')
        (\<lambda>(p', st'). R p' st' A' \<and> same_channels ast' st'))"
    proof (rule okE_mono [OF remove_ok [OF R' u(1)]])
      fix s' assume "case s' of (p', st') \<Rightarrow> R p' st' (a_remove c (?st c) A) \<and> same_channels ?st st'"
      then obtain p' st' where s': "s' = (p', st')" "R p' st' (a_remove c (ast c) A)" "same_channels ?st st'"
        using u(2) by (cases s') auto
      show "okE (run_chan update remove ops s') (\<lambda>(p', st'). R p' st' A' \<and> same_channels ast' st')"
        unfolding s'(1) by (rule Cons.IH [OF s'(2) same_channels_trans [OF same s'(3)] go(2)])
    qed
    then show ?thesis using u(3) by (simp add: Remove channel_remove_def okE_bind)
  qed
qed simp

end

section \<open>Both pollers keep the contract\<close>

definition kernel_ok :: "(ctl \<Rightarrow> int \<Rightarrow> bool) \<Rightarrow> bool" where
  "kernel_ok refuse \<longleftrightarrow> (\<forall>op fd. \<not> refuse op fd)"

definition R_epoll :: "nat \<Rightarrow> EPollPoller \<Rightarrow> store \<Rightarrow> registry \<Rightarrow> bool" where
  "R_epoll tid p st A \<longleftrightarrow> registry_ok A st \<and> ep_owner p = tid \<and> ep_channels p = a_channels A
    \<and> (\<forall>c. ch_index (st c) = (if a_channels A (ch_fd (st c)) = Some c
        then (if a_watch A c = None then kDeleted else kAdded) else kNew))
    \<and> (\<forall>fd. interest p fd = (case a_channels A fd of None \<Rightarrow> None | Some c \<Rightarrow> map_option (\<lambda>ev. (ev, c)) (a_watch A c)))"

lemma R_epoll_empty: "(\<And>c. ch_index (st c) = -1) \<Longrightarrow> R_epoll tid (mkEPollPoller tid) st empty_registry"
  by (simp add: R_epoll_def mkEPollPoller_def empty_registry_def registry_ok_def kNew_def)

lemmas ep_index_simps = kNew_def kAdded_def kDeleted_def

lemma registry_okD:
  assumes "registry_ok A st"
  shows "a_channels A fd = Some c \<Longrightarrow> 0 \<le> fd" "a_channels A fd = Some c \<Longrightarrow> ch_fd (st c) = fd"
    "a_channels A fd = Some c \<Longrightarrow> c \<in> a_used A" "a_watch A c = Some ev \<Longrightarrow> a_channels A (ch_fd (st c)) = Some c"
  using assms unfolding registry_ok_def by blast+

lemma can_updateD:
  assumes "can_update A c ch"
  shows "0 \<le> ch_fd ch" "a_channels A (ch_fd ch) = Some d \<Longrightarrow> d = c"
    "a_channels A (ch_fd ch) \<noteq> Some c \<Longrightarrow> a_channels A (ch_fd ch) = None \<and> c \<notin> a_used A"
    "events ch = 0 \<Longrightarrow> \<exists>ev. a_watch A c = Some ev" "event_ok ch"
  using assms unfolding can_update_def by auto

lemma update_cases:
  assumes "registry_ok A st" "can_update A c (st c)"
  obtains (new) "a_channels A (ch_fd (st c)) = None" "events (st c) \<noteq> 0"
    | (deleted) "a_channels A (ch_fd (st c)) = Some c" "a_watch A c = None" "events (st c) \<noteq> 0"
    | (added) ev where "a_channels A (ch_fd (st c)) = Some c" "a_watch A c = Some ev"
proof (cases "a_watch A c")
  case None
  then have "events (st c) \<noteq> 0" using can_updateD(4) [OF assms(2)] by auto
  then show ?thesis
    using new deleted [OF _ None] can_updateD(3) [OF assms(2)] by (cases "a_channels A (ch_fd (st c)) = Some c") simp_all
next
  case (Some ev)
  show ?thesis by (rule added [OF registry_okD(4) [OF assms(1) Some] Some])
qed

lemma registry_ok_update:
  assumes "registry_ok A st" "can_update A c (st c)" "\<And>d. ch_fd (st' d) = ch_fd (st d)"
  shows "registry_ok (a_update c (st c) A) st'"
  unfolding registry_ok_def
proof (intro conjI allI impI)
  fix fd d assume "a_channels (a_update c (st c) A) fd = Some d"
  then have "fd = ch_fd (st c) \<and> d = c \<or> a_channels A fd = Some d"
    by (cases "fd = ch_fd (st c)") simp_all
  then consider "fd = ch_fd (st c)" "d = c" | "a_channels A fd = Some d" by blast
  then have "0 \<le> fd \<and> ch_fd (st' d) = fd \<and> d \<in> a_used (a_update c (st c) A)"
  proof cases
    case 1
    then show ?thesis using can_updateD(1) [OF assms(2)] assms(3) by simp
  next
    case 2
    show ?thesis using registry_okD(1-3) [OF assms(1) 2] by (simp add: assms(3))
  qed
  then show "0 \<le> fd" "ch_fd (st' d) = fd" "d \<in> a_used (a_update c (st c) A)" by simp_all
next
  fix d ev assume w: "a_watch (a_update c (st c) A) d = Some ev"
  show "a_channels (a_update c (st c) A) (ch_fd (st' d)) = Some d"
  proof (cases "d = c")
    case False
    then have "a_watch A d = Some ev" using w by simp
    then have "a_channels A (ch_fd (st d)) = Some d" by (rule registry_okD(4) [OF assms(1)])
    moreover from this have "ch_fd (st d) \<noteq> ch_fd (st c)" using can_updateD(2) [OF assms(2), of d] False by auto
    ultimately show ?thesis by (simp add: assms(3))
  qed (simp add: assms(3))
qed

lemma registry_ok_remove:
  assumes "registry_ok A st" "can_remove A c (st c)" "\<And>d. ch_fd (st' d) = ch_fd (st d)"
  shows "registry_ok (a_remove c (st c) A) st'"
  unfolding registry_ok_def
proof (intro conjI allI impI)
  fix fd d assume "a_channels (a_remove c (st c) A) fd = Some d"
  then have "a_channels A fd = Some d" by (cases "fd = ch_fd (st c)") simp_all
  from registry_okD(1-3) [OF assms(1) this]
  show "0 \<le> fd" "ch_fd (st' d) = fd" "d \<in> a_used (a_remove c (st c) A)" by (simp_all add: assms(3))
next
  fix d ev assume "a_watch (a_remove c (st c) A) d = Some ev"
  then have w: "a_watch A d = Some ev" by simp
  then have "a_channels A (ch_fd (st d)) = Some d" by (rule registry_okD(4) [OF assms(1)])
  moreover have "d \<noteq> c" using assms(2) w by (auto simp: can_remove_def)
  ultimately have "ch_fd (st d) \<noteq> ch_fd (st c)" using assms(2) unfolding can_remove_def by (metis option.inject)
  with \<open>a_channels A (ch_fd (st d)) = Some d\<close> show "a_channels (a_remove c (st c) A) (ch_fd (st' d)) = Some d" by (simp add: assms(3))
qed

lemma R_epollD:
  assumes "R_epoll tid p st A"
  shows "registry_ok A st" "ep_owner p = tid" "ep_channels p = a_channels A"
    "ch_index (st c) = (if a_channels A (ch_fd (st c)) = Some c then (if a_watch A c = None then kDeleted else kAdded) else kNew)"
    "interest p fd = (case a_channels A fd of None \<Rightarrow> None | Some c \<Rightarrow> map_option (\<lambda>ev. (ev, c)) (a_watch A c))"
  using assms by (simp_all add: R_epoll_def)

text \<open>The relation after an update: the registered channel has its new index, the interest list its new entry.\<close>

lemma R_epoll_update:
  assumes "R_epoll tid p st A" "can_update A c (st c)"
    and "st' = st(c := set_index (if events (st c) = 0 then kDeleted else kAdded) (st c))"
  shows "R_epoll tid (p\<lparr>ep_channels := (ep_channels p)(ch_fd (st c) \<mapsto> c),
      interest := (interest p)(ch_fd (st c) := if events (st c) = 0 then None else Some (events (st c), c))\<rparr>) st'
    (a_update c (st c) A)"
proof -
  note d = R_epollD [OF assms(1)]
  have ok: "registry_ok (a_update c (st c) A) st'"
    by (rule registry_ok_update [OF d(1) assms(2)]) (simp add: assms(3) set_index_def)
  have other: "a_channels (a_update c (st c) A) (ch_fd (st x)) = Some x \<longleftrightarrow> a_channels A (ch_fd (st x)) = Some x" if "x \<noteq> c" for x
  proof (cases "ch_fd (st x) = ch_fd (st c)")
    case True
    have "a_channels A (ch_fd (st c)) \<noteq> Some x" using can_updateD(2) [OF assms(2), of x] that by blast
    with True that show ?thesis by simp
  qed simp
  have "ch_index (st' x) = (if a_channels (a_update c (st c) A) (ch_fd (st' x)) = Some x
      then (if a_watch (a_update c (st c) A) x = None then kDeleted else kAdded) else kNew)" for x
  proof (cases "x = c")
    case False
    then have "st' x = st x" "a_watch (a_update c (st c) A) x = a_watch A x" by (simp_all add: assms(3))
    then show ?thesis unfolding other [OF False, symmetric] using d(4) [of x] other [OF False] by presburger
  qed (simp add: assms(3) set_index_def)
  moreover have reg: "a_channels A fd = Some c \<Longrightarrow> fd = ch_fd (st c)" for fd
    by (rule registry_okD(2) [OF d(1), symmetric])
  have "((interest p)(ch_fd (st c) := if events (st c) = 0 then None else Some (events (st c), c))) fd
      = (case a_channels (a_update c (st c) A) fd of None \<Rightarrow> None
         | Some c' \<Rightarrow> map_option (\<lambda>ev. (ev, c')) (a_watch (a_update c (st c) A) c'))" for fd
  proof (cases "fd = ch_fd (st c)")
    case False
    show ?thesis
    proof (cases "a_channels A fd")
      case (Some x)
      with reg [of fd] False have "x \<noteq> c" by auto
      with False Some d(5) [of fd] show ?thesis by simp
    qed (use False d(5) [of fd] in simp)
  qed simp
  ultimately show ?thesis
    unfolding R_epoll_def using ok d(2,3) by (intro conjI allI) simp_all
qed

lemma ep_update_result:
  assumes "R_epoll tid p st A" "can_update A c (st c)"
  shows "ep_updateChannel (\<lambda>_ _. False) tid c (p, st)
    = Inr (p\<lparr>ep_channels := (ep_channels p)(ch_fd (st c) \<mapsto> c),
        interest := (interest p)(ch_fd (st c) := if events (st c) = 0 then None else Some (events (st c), c))\<rparr>,
      st(c := set_index (if events (st c) = 0 then kDeleted else kAdded) (st c)))"
proof -
  note d = R_epollD [OF assms(1)]
  let ?fd = "ch_fd (st c)"
  have same: "ep_channels p ?fd = Some c \<Longrightarrow> p\<lparr>ep_channels := (ep_channels p)(?fd \<mapsto> c)\<rparr> = p"
    by (simp add: fun_upd_idem)
  have idx: "ch_index (st c) = kAdded \<Longrightarrow> st(c := set_index kAdded (st c)) = st"
    by (simp add: set_index_def fun_upd_idem)
  consider (new) "a_channels A ?fd = None" "events (st c) \<noteq> 0"
    | (deleted) "a_channels A ?fd = Some c" "a_watch A c = None" "events (st c) \<noteq> 0"
    | (added) ev where "a_channels A ?fd = Some c" "a_watch A c = Some ev"
    by (rule update_cases [OF d(1) assms(2)])
  then show ?thesis
  proof cases
    case new
    have "ch_index (st c) = kNew" "interest p ?fd = None" using d(4) [of c] d(5) [of ?fd] new by simp_all
    with new d(2,3) show ?thesis
      by (simp add: ep_updateChannel_def assertInLoopThread_def ep_update_def epoll_ctl_def Let_def set_index_def)
  next
    case deleted
    have "ch_index (st c) = kDeleted" "interest p ?fd = None" using d(4) [of c] d(5) [of ?fd] deleted by simp_all
    with deleted d(2,3) same show ?thesis
      by (simp add: ep_updateChannel_def assertInLoopThread_def ep_update_def epoll_ctl_def Let_def set_index_def ep_index_simps)
  next
    case added
    have i: "ch_index (st c) = kAdded" "interest p ?fd = Some (ev, c)" using d(4) [of c] d(5) [of ?fd] added by simp_all
    with added d(2,3) same idx show ?thesis
      by (simp add: ep_updateChannel_def assertInLoopThread_def ep_update_def epoll_ctl_def Let_def ep_index_simps
          isNoneEvent_def kNoneEvent_def)
  qed
qed

interpretation epoller: poller "ep_updateChannel (\<lambda>_ _. False) tid" "ep_removeChannel (\<lambda>_ _. False) tid" "R_epoll tid"
proof
  fix p A and st st' :: store
  assume "R_epoll tid p st A" "\<And>c. ch_index (st' c) = ch_index (st c) \<and> ch_fd (st' c) = ch_fd (st c)"
  then show "R_epoll tid p st' A" by (simp add: R_epoll_def registry_ok_def)
next
  fix p st A c assume a: "R_epoll tid p st A" "can_update A c (st c)"
  show "okE (ep_updateChannel (\<lambda>_ _. False) tid c (p, st))
      (\<lambda>(p', st'). R_epoll tid p' st' (a_update c (st c) A) \<and> same_channels st st')"
    using R_epoll_update [OF a refl] by (simp add: ep_update_result [OF a])
next
  fix p st A c assume a: "R_epoll tid p st A" "can_remove A c (st c)"
  note d = R_epollD [OF a(1)]
  let ?st = "st(c := set_index kNew (st c))"
  have i: "ch_index (st c) = kDeleted" "ep_channels p (ch_fd (st c)) = Some c" "isNoneEvent (st c)"
    using d(3) d(4) [of c] a(2) by (auto simp: can_remove_def isNoneEvent_def kNoneEvent_def)
  have r: "ep_removeChannel (\<lambda>_ _. False) tid c (p, st)
      = Inr (p\<lparr>ep_channels := (ep_channels p)(ch_fd (st c) := None)\<rparr>, ?st)"
    using i d(2) by (simp add: ep_removeChannel_def assertInLoopThread_def Let_def ep_index_simps)
  have ok: "registry_ok (a_remove c (st c) A) ?st"
    by (rule registry_ok_remove [OF d(1) a(2)]) (simp add: set_index_def)
  have reg: "a_channels A (ch_fd (st c)) = Some c" "a_watch A c = None" using a(2) by (simp_all add: can_remove_def)
  have "ch_index (?st x) = (if a_channels (a_remove c (st c) A) (ch_fd (?st x)) = Some x
      then (if a_watch (a_remove c (st c) A) x = None then kDeleted else kAdded) else kNew)" for x
    using d(4) [of x] reg by (cases "x = c") (auto simp: set_index_def)
  moreover have "interest p fd = (case a_channels (a_remove c (st c) A) fd of None \<Rightarrow> None
         | Some c' \<Rightarrow> map_option (\<lambda>ev. (ev, c')) (a_watch (a_remove c (st c) A) c'))" for fd
    using d(5) [of fd] reg by (cases "fd = ch_fd (st c)"; cases "a_channels A fd") simp_all
  ultimately show "okE (ep_removeChannel (\<lambda>_ _. False) tid c (p, st))
      (\<lambda>(p', st'). R_epoll tid p' st' (a_remove c (st c) A) \<and> same_channels st st')"
    unfolding r using ok d by (simp add: R_epoll_def)
qed

text \<open>\<open>pollfds\<close> holds one entry per registered channel, at the channel's index; an unwatched one has a negative descriptor.\<close>

definition pfd_ok :: "registry \<Rightarrow> nat \<Rightarrow> int \<Rightarrow> pollfd \<Rightarrow> bool" where
  "pfd_ok A c fd pfd \<longleftrightarrow> (case a_watch A c of
     Some ev \<Rightarrow> pfd_fd pfd = fd \<and> pfd_events pfd = ucast ev
   | None \<Rightarrow> pfd_fd pfd = - fd - 1 \<and> pfd_events pfd = 0)"

definition R_poll :: "nat \<Rightarrow> PollPoller \<Rightarrow> store \<Rightarrow> registry \<Rightarrow> bool" where
  "R_poll tid p st A \<longleftrightarrow> registry_ok A st \<and> pp_owner p = tid \<and> pp_channels p = a_channels A
    \<and> (\<forall>fd c. a_channels A fd = Some c \<longrightarrow>
         (\<exists>i. ch_index (st c) = int i \<and> i < length (pollfds p) \<and> pfd_ok A c fd (pollfds p ! i)))
    \<and> (\<forall>i < length (pollfds p). \<exists>fd c. a_channels A fd = Some c \<and> ch_index (st c) = int i)
    \<and> (\<forall>c. c \<notin> a_used A \<longrightarrow> ch_index (st c) < 0)"

lemma R_poll_empty: "(\<And>c. ch_index (st c) = -1) \<Longrightarrow> R_poll tid (mkPollPoller tid) st empty_registry"
  by (simp add: R_poll_def mkPollPoller_def empty_registry_def registry_ok_def)

lemma R_pollD:
  assumes "R_poll tid p st A"
  shows "registry_ok A st" "pp_owner p = tid" "pp_channels p = a_channels A"
    "a_channels A fd = Some c \<Longrightarrow> \<exists>i. ch_index (st c) = int i \<and> i < length (pollfds p) \<and> pfd_ok A c fd (pollfds p ! i)"
    "i < length (pollfds p) \<Longrightarrow> \<exists>fd c. a_channels A fd = Some c \<and> ch_index (st c) = int i"
    "c \<notin> a_used A \<Longrightarrow> ch_index (st c) < 0"
  using assms by (simp_all add: R_poll_def)

lemma pfd_ok_fd: "pfd_ok A c fd pfd \<Longrightarrow> 0 \<le> fd \<Longrightarrow> fd = (if pfd_fd pfd < 0 then - pfd_fd pfd - 1 else pfd_fd pfd)"
  by (auto simp: pfd_ok_def split: option.splits)

text \<open>Different channels have different indices.\<close>

lemma R_poll_inj:
  assumes "R_poll tid p st A" "a_channels A fd = Some c" "a_channels A fd' = Some d" "ch_index (st c) = ch_index (st d)"
  shows "fd = fd' \<and> c = d"
proof -
  note D = R_pollD [OF assms(1)]
  obtain i where i: "ch_index (st c) = int i" "pfd_ok A c fd (pollfds p ! i)" using D(4) [OF assms(2)] by blast
  obtain j where j: "ch_index (st d) = int j" "pfd_ok A d fd' (pollfds p ! j)" using D(4) [OF assms(3)] by blast
  have "i = j" using i j assms(4) by simp
  then have "fd = fd'"
    using pfd_ok_fd [OF i(2) registry_okD(1) [OF D(1) assms(2)]] pfd_ok_fd [OF j(2) registry_okD(1) [OF D(1) assms(3)]]
    by simp
  with assms(2,3) show ?thesis by simp
qed

lemma pfd_ok_update_other: "d \<noteq> c \<Longrightarrow> pfd_ok (a_update c ch A) d fd pfd = pfd_ok A d fd pfd"
  by (simp add: pfd_ok_def)

lemma pfd_ok_remove: "pfd_ok (a_remove c ch A) d fd pfd = pfd_ok A d fd pfd"
  by (simp add: pfd_ok_def)


lemma R_poll_add:
  assumes "R_poll tid p st A" "can_update A c (st c)" "a_channels A (ch_fd (st c)) = None" "events (st c) \<noteq> 0"
  shows "okE (pp_updateChannel tid c (p, st)) (\<lambda>(p', st'). R_poll tid p' st' (a_update c (st c) A) \<and> same_channels st st')"
proof -
  let ?p = "p\<lparr>pollfds := pollfds p @ [\<lparr>pfd_fd = ch_fd (st c), pfd_events = ucast (events (st c)), pfd_revents = 0\<rparr>],
    pp_channels := (pp_channels p)(ch_fd (st c) \<mapsto> c)\<rparr>"
  let ?st = "st(c := set_index (int (length (pollfds p))) (st c))"
  note D = R_pollD [OF assms(1)]
  have fresh: "c \<notin> a_used A" using can_updateD(3) [OF assms(2)] assms(3) by simp
  then have "ch_index (st c) < 0" by (rule D(6))
  then have r: "pp_updateChannel tid c (p, st) = Inr (?p, ?st)"
    using D(2,3) assms(3) by (simp add: pp_updateChannel_def assertInLoopThread_def Let_def)
  let ?A = "a_update c (st c) A"
  have old: "d \<noteq> c" "fd \<noteq> ch_fd (st c)" if "a_channels A fd = Some d" for fd d
    using that fresh assms(3) registry_okD(3) [OF D(1) that] by auto
  have "R_poll tid ?p ?st ?A"
    unfolding R_poll_def
  proof (intro conjI allI impI)
    show "registry_ok ?A ?st" by (rule registry_ok_update [OF D(1) assms(2)]) (simp add: set_index_def)
    show "pp_owner ?p = tid" "pp_channels ?p = a_channels ?A" using D(2,3) by simp_all
  next
    fix fd d assume "a_channels ?A fd = Some d"
    then have "fd = ch_fd (st c) \<and> d = c \<or> a_channels A fd = Some d" by (cases "fd = ch_fd (st c)") simp_all
    then consider "fd = ch_fd (st c)" "d = c" | "a_channels A fd = Some d" by blast
    then show "\<exists>i. ch_index (?st d) = int i \<and> i < length (pollfds ?p) \<and> pfd_ok ?A d fd (pollfds ?p ! i)"
    proof cases
      case 1
      with assms(4) show ?thesis
        by (intro exI [of _ "length (pollfds p)"]) (simp add: set_index_def pfd_ok_def)
    next
      case 2
      obtain i where "ch_index (st d) = int i" "i < length (pollfds p)" "pfd_ok A d fd (pollfds p ! i)"
        using D(4) [OF 2] by blast
      then show ?thesis using old [OF 2] by (intro exI [of _ i]) (simp add: nth_append pfd_ok_update_other)
    qed
  next
    fix i assume i: "i < length (pollfds ?p)"
    show "\<exists>fd d. a_channels ?A fd = Some d \<and> ch_index (?st d) = int i"
    proof (cases "i = length (pollfds p)")
      case True
      then show ?thesis by (intro exI [of _ "ch_fd (st c)"] exI [of _ c]) (simp add: set_index_def)
    next
      case False
      with i obtain fd d where "a_channels A fd = Some d" "ch_index (st d) = int i" using D(5) [of i] by auto
      then show ?thesis using old [of fd d] by (intro exI [of _ fd] exI [of _ d]) simp
    qed
  next
    fix d assume "d \<notin> a_used ?A"
    then show "ch_index (?st d) < 0" using D(6) [of d] by simp
  qed
  with r show ?thesis by simp
qed

lemma R_poll_change:
  assumes "R_poll tid p st A" "can_update A c (st c)" "a_channels A (ch_fd (st c)) = Some c"
  shows "okE (pp_updateChannel tid c (p, st)) (\<lambda>(p', st'). R_poll tid p' st' (a_update c (st c) A) \<and> same_channels st st')"
proof -
  note D = R_pollD [OF assms(1)]
  obtain i where i: "ch_index (st c) = int i" "i < length (pollfds p)" "pfd_ok A c (ch_fd (st c)) (pollfds p ! i)"
    using D(4) [OF assms(3)] by blast
  let ?pfd = "\<lparr>pfd_fd = (if isNoneEvent (st c) then - ch_fd (st c) - 1 else ch_fd (st c)),
    pfd_events = ucast (events (st c)), pfd_revents = 0\<rparr>"
  let ?p = "p\<lparr>pollfds := (pollfds p)[i := ?pfd]\<rparr>"
  let ?A = "a_update c (st c) A"
  have r: "pp_updateChannel tid c (p, st) = Inr (?p, st)"
    using D(2,3) assms(3) i by (auto simp: pp_updateChannel_def assertInLoopThread_def Let_def pfd_ok_def split: option.splits)
  have ch: "a_channels ?A = a_channels A" using assms(3) by (simp add: fun_upd_idem)
  have "R_poll tid ?p st ?A"
    unfolding R_poll_def ch
  proof (intro conjI allI impI)
    show "registry_ok ?A st" by (rule registry_ok_update [OF D(1) assms(2)]) simp
    show "pp_owner ?p = tid" "pp_channels ?p = a_channels A" using D(2,3) by simp_all
  next
    fix fd d assume d: "a_channels A fd = Some d"
    show "\<exists>i. ch_index (st d) = int i \<and> i < length (pollfds ?p) \<and> pfd_ok ?A d fd (pollfds ?p ! i)"
    proof (cases "d = c")
      case True
      with d registry_okD(2) [OF D(1) d] i show ?thesis by (intro exI [of _ i])
          (simp add: pfd_ok_def isNoneEvent_def kNoneEvent_def)
    next
      case False
      obtain j where j: "ch_index (st d) = int j" "j < length (pollfds p)" "pfd_ok A d fd (pollfds p ! j)"
        using D(4) [OF d] by blast
      have "j \<noteq> i" using R_poll_inj [OF assms(1) d assms(3)] False i(1) j(1) by auto
      with j False show ?thesis by (intro exI [of _ j]) (simp add: pfd_ok_update_other)
    qed
  next
    fix j assume "j < length (pollfds ?p)"
    then show "\<exists>fd d. a_channels A fd = Some d \<and> ch_index (st d) = int j" using D(5) [of j] by simp
  next
    fix d assume "d \<notin> a_used ?A"
    then show "ch_index (st d) < 0" using D(6) [of d] by simp
  qed
  with r show ?thesis by simp
qed

lemma R_poll_remove:
  assumes "R_poll tid p st A" "can_remove A c (st c)"
  shows "okE (pp_removeChannel tid c (p, st)) (\<lambda>(p', st'). R_poll tid p' st' (a_remove c (st c) A) \<and> same_channels st st')"
proof -
  note D = R_pollD [OF assms(1)]
  have reg: "a_channels A (ch_fd (st c)) = Some c" "events (st c) = 0" "a_watch A c = None"
    using assms(2) by (simp_all add: can_remove_def)
  obtain i where i: "ch_index (st c) = int i" "i < length (pollfds p)" "pfd_ok A c (ch_fd (st c)) (pollfds p ! i)"
    using D(4) [OF reg(1)] by blast
  let ?n = "length (pollfds p) - 1" and ?A = "a_remove c (st c) A"
  have "?n < length (pollfds p)" using i(2) by simp
  from D(5) [OF this] obtain fde e where e: "a_channels A fde = Some e" "ch_index (st e) = int ?n" by blast
  have at_end: "pfd_ok A e fde (last (pollfds p))"
  proof -
    obtain k where k: "ch_index (st e) = int k" "pfd_ok A e fde (pollfds p ! k)" using D(4) [OF e(1)] by blast
    then have "k = ?n" using e(2) by simp
    moreover have "pollfds p \<noteq> []" using i(2) by auto
    ultimately show ?thesis using k(2) by (simp add: last_conv_nth)
  qed
  define st' where "st' = (if i = ?n then st else st(e := set_index (int i) (st e)))"
  define pfds where "pfds = (if i = ?n then butlast (pollfds p) else butlast ((pollfds p)[i := last (pollfds p)]))"
  have ec: "i \<noteq> ?n \<Longrightarrow> e \<noteq> c \<and> fde \<noteq> ch_fd (st c)" using e reg(1) i(1) by auto
  have r: "pp_removeChannel tid c (p, st) = Inr (p\<lparr>pp_channels := (pp_channels p)(ch_fd (st c) := None), pollfds := pfds\<rparr>, st')"
    using D(2,3) reg i ec e(1) pfd_ok_fd [OF at_end registry_okD(1) [OF D(1) e(1)]]
    by (auto simp: pp_removeChannel_def assertInLoopThread_def Let_def isNoneEvent_def kNoneEvent_def pfd_ok_def
        st'_def pfds_def)
  have nth: "pfds ! j = (if j = i then last (pollfds p) else pollfds p ! j)" if "j < ?n" for j
    using that i(2) by (auto simp: pfds_def nth_butlast)
  have len: "length pfds = ?n" by (simp add: pfds_def)
  have "R_poll tid (p\<lparr>pp_channels := (pp_channels p)(ch_fd (st c) := None), pollfds := pfds\<rparr>) st' ?A"
    unfolding R_poll_def
  proof (intro conjI allI impI)
    show "registry_ok ?A st'" by (rule registry_ok_remove [OF D(1) assms(2)]) (simp add: st'_def set_index_def)
  next
    fix fd d assume "a_channels ?A fd = Some d"
    then have d: "a_channels A fd = Some d" "fd \<noteq> ch_fd (st c)" by (cases "fd = ch_fd (st c)"; simp)+
    obtain j where j: "ch_index (st d) = int j" "j < length (pollfds p)" "pfd_ok A d fd (pollfds p ! j)"
      using D(4) [OF d(1)] by blast
    have ji: "j \<noteq> i" using R_poll_inj [OF assms(1) d(1) reg(1)] d(2) i(1) j(1) by auto
    show "\<exists>k. ch_index (st' d) = int k
        \<and> k < length (pollfds (p\<lparr>pp_channels := (pp_channels p)(ch_fd (st c) := None), pollfds := pfds\<rparr>))
        \<and> pfd_ok ?A d fd (pollfds (p\<lparr>pp_channels := (pp_channels p)(ch_fd (st c) := None), pollfds := pfds\<rparr>) ! k)"
    proof (cases "j = ?n")
      case True
      then have "d = e" "fd = fde" using R_poll_inj [OF assms(1) d(1) e(1)] j(1) e(2) by auto
      with True ji i(2) at_end show ?thesis
        by (intro exI [of _ i]) (simp add: len nth st'_def set_index_def pfd_ok_remove)
    next
      case False
      then have "d \<noteq> e" using j(1) e(2) by auto
      with False j ji show ?thesis
        by (intro exI [of _ j]) (simp add: len nth st'_def pfd_ok_remove)
    qed
  next
    fix j assume "j < length (pollfds (p\<lparr>pp_channels := (pp_channels p)(ch_fd (st c) := None), pollfds := pfds\<rparr>))"
    then have jn: "j < ?n" by (simp add: len)
    show "\<exists>fd d. a_channels ?A fd = Some d \<and> ch_index (st' d) = int j"
    proof (cases "j = i")
      case True
      with jn ec e show ?thesis by (intro exI [of _ fde] exI [of _ e]) (simp add: st'_def set_index_def)
    next
      case False
      have "j < length (pollfds p)" using jn by simp
      from D(5) [OF this] obtain fd d where d: "a_channels A fd = Some d" "ch_index (st d) = int j" by blast
      then have "d \<noteq> e" "d \<noteq> c" using jn e(2) i(1) False by auto
      moreover from this d(1) have "fd \<noteq> ch_fd (st c)" using reg(1) by auto
      ultimately show ?thesis using d by (intro exI [of _ fd] exI [of _ d]) (simp add: st'_def)
    qed
  next
    fix d assume d: "d \<notin> a_used ?A"
    then have "d \<noteq> e" using registry_okD(3) [OF D(1) e(1)] by auto
    then show "ch_index (st' d) < 0" using D(6) [of d] d by (simp add: st'_def)
  qed (use D(2,3) in simp_all)
  moreover have "same_channels st st'" by (simp add: st'_def)
  ultimately show ?thesis unfolding r by simp
qed

interpretation pollpoller: poller "pp_updateChannel tid" "pp_removeChannel tid" "R_poll tid"
proof
  fix p A and st st' :: store
  assume "R_poll tid p st A" "\<And>c. ch_index (st' c) = ch_index (st c) \<and> ch_fd (st' c) = ch_fd (st c)"
  then show "R_poll tid p st' A" by (simp add: R_poll_def registry_ok_def)
next
  fix p st A c assume a: "R_poll tid p st A" "can_update A c (st c)"
  show "okE (pp_updateChannel tid c (p, st)) (\<lambda>(p', st'). R_poll tid p' st' (a_update c (st c) A) \<and> same_channels st st')"
    using R_pollD(1) [OF a(1)] a(2) by (cases rule: update_cases) (simp_all add: R_poll_add [OF a] R_poll_change [OF a])
qed (rule R_poll_remove)

section \<open>What is watched\<close>

text \<open>The requested events of the descriptors handed to the kernel.\<close>

definition ep_watched :: "EPollPoller \<Rightarrow> (int \<times> 16 word) set" where
  "ep_watched p = {(fd, ucast ev) | fd ev c. interest p fd = Some (ev, c)}"

definition pp_watched :: "PollPoller \<Rightarrow> (int \<times> 16 word) set" where
  "pp_watched p = {(pfd_fd pfd, pfd_events pfd) | pfd. pfd \<in> set (pollfds p) \<and> 0 \<le> pfd_fd pfd}"

definition a_watched :: "registry \<Rightarrow> (int \<times> 16 word) set" where
  "a_watched A = {(fd, ucast ev) | fd ev c. a_channels A fd = Some c \<and> a_watch A c = Some ev}"

lemma ep_watched_eq:
  assumes "R_epoll tid p st A"
  shows "ep_watched p = a_watched A"
proof -
  have "interest p fd = Some (ev, c) \<longleftrightarrow> a_channels A fd = Some c \<and> a_watch A c = Some ev" for fd ev c
    using R_epollD(5) [OF assms, of fd] by (cases "a_channels A fd") auto
  then show ?thesis by (simp add: ep_watched_def a_watched_def)
qed

lemma pp_watched_eq:
  assumes "R_poll tid p st A"
  shows "pp_watched p = a_watched A"
proof -
  note D = R_pollD [OF assms]
  have "(fd, ev) \<in> pp_watched p \<longleftrightarrow> (fd, ev) \<in> a_watched A" for fd ev
  proof
    assume "(fd, ev) \<in> pp_watched p"
    then obtain i where i: "i < length (pollfds p)" "pfd_fd (pollfds p ! i) = fd" "pfd_events (pollfds p ! i) = ev" "0 \<le> fd"
      by (auto simp: pp_watched_def in_set_conv_nth)
    obtain fd' c where c: "a_channels A fd' = Some c" "ch_index (st c) = int i" using D(5) [OF i(1)] by blast
    have "pfd_ok A c fd' (pollfds p ! i)" using D(4) [OF c(1)] c(2) by auto
    moreover have "0 \<le> fd'" by (rule registry_okD(1) [OF D(1) c(1)])
    ultimately show "(fd, ev) \<in> a_watched A" using i c(1) by (auto simp: a_watched_def pfd_ok_def split: option.splits)
  next
    assume "(fd, ev) \<in> a_watched A"
    then obtain c w where c: "a_channels A fd = Some c" "a_watch A c = Some w" "ev = ucast w" by (auto simp: a_watched_def)
    obtain i where i: "i < length (pollfds p)" "pfd_ok A c fd (pollfds p ! i)" using D(4) [OF c(1)] by blast
    have "0 \<le> fd" by (rule registry_okD(1) [OF D(1) c(1)])
    with c i show "(fd, ev) \<in> pp_watched p"
      unfolding pp_watched_def by (auto simp: pfd_ok_def intro!: exI [of _ "pollfds p ! i"])
  qed
  then show ?thesis by auto
qed

text \<open>\<^verbatim>\<open>epoll_wait(2)\<close> reports descriptors of the interest list, each with the pointer stored for it.\<close>

lemma ep_fill_ok:
  assumes "R_epoll tid p st A" "\<forall>(ev, c) \<in> set ready. \<exists>fd w. interest p fd = Some (w, c)"
  shows "\<exists>st'. ep_fill (ep_channels p) ready st active = Inr (st', active @ map snd ready)
    \<and> (\<forall>c. ch_fd (st' c) = ch_fd (st c) \<and> ch_index (st' c) = ch_index (st c) \<and> events (st' c) = events (st c))"
  using assms
proof (induction ready arbitrary: st active)
  case (Cons r ready)
  obtain ev c where r: "r = (ev, c)" by (cases r)
  note D = R_epollD [OF Cons.prems(1)]
  obtain fd w where "interest p fd = Some (w, c)" using Cons.prems(2) r by auto
  then have "a_channels A fd = Some c" using D(5) [of fd] by (auto split: option.splits)
  moreover from registry_okD(2) [OF D(1) this] have "ch_fd (st c) = fd" .
  ultimately have reg: "ep_channels p (ch_fd (st c)) = Some c" using D(3) by simp
  let ?st = "st(c := set_revents ev (st c))"
  have R': "R_epoll tid p ?st A"
    by (rule epoller.R_store [OF Cons.prems(1)]) (simp add: set_revents_def)
  have rest: "\<forall>(ev, c) \<in> set ready. \<exists>fd w. interest p fd = Some (w, c)" using Cons.prems(2) by simp
  obtain st' where "ep_fill (ep_channels p) ready ?st (active @ [c]) = Inr (st', (active @ [c]) @ map snd ready)"
    "\<forall>d. ch_fd (st' d) = ch_fd (?st d) \<and> ch_index (st' d) = ch_index (?st d) \<and> events (st' d) = events (?st d)"
    using Cons.IH [OF R' rest, of "active @ [c]"] by blast
  with reg show ?case by (intro exI [of _ st']) (auto simp: r set_revents_def)
qed simp

section \<open>Properties\<close>

text \<open>
  C12: The two pollers are interchangeable: every sequence of channel operations that the contract allows
  (a channel is registered with some event wanted, and removed after \<^verbatim>\<open>disableAll\<close>) runs on both without a failed
  assertion, leaves the same channels registered, and hands the same descriptors with the same events to
  \<^verbatim>\<open>epoll_wait\<close> and \<^verbatim>\<open>poll\<close>.
\<close>

theorem pollers_agree:
  assumes "\<And>c. ch_index (st c) = -1" "run_registry ops (empty_registry, st) = Some (A, ast)"
  shows "\<exists>p st1 q st2.
    run_chan (ep_updateChannel (\<lambda>_ _. False) tid) (ep_removeChannel (\<lambda>_ _. False) tid) ops (mkEPollPoller tid, st) = Inr (p, st1)
    \<and> run_chan (pp_updateChannel tid) (pp_removeChannel tid) ops (mkPollPoller tid, st) = Inr (q, st2)
    \<and> ep_channels p = pp_channels q \<and> ep_watched p = pp_watched q \<and> ep_watched p = a_watched A"
proof -
  obtain p st1 where p: "run_chan (ep_updateChannel (\<lambda>_ _. False) tid) (ep_removeChannel (\<lambda>_ _. False) tid) ops
      (mkEPollPoller tid, st) = Inr (p, st1)" "R_epoll tid p st1 A"
    using epoller.run_ok [OF R_epoll_empty [of st tid, OF assms(1)] same_channels_refl assms(2)] by (auto simp: okE_iff)
  obtain q st2 where q: "run_chan (pp_updateChannel tid) (pp_removeChannel tid) ops (mkPollPoller tid, st) = Inr (q, st2)"
    "R_poll tid q st2 A"
    using pollpoller.run_ok [OF R_poll_empty [of st tid, OF assms(1)] same_channels_refl assms(2)] by (auto simp: okE_iff)
  show ?thesis
    using p(1) q(1) R_epollD(3) [OF p(2)] R_pollD(3) [OF q(2)] ep_watched_eq [OF p(2)] pp_watched_eq [OF q(2)] by auto
qed

definition sample_ops :: "chan_op list" where
  "sample_ops = [Interest 0 EnableReading, Interest 0 EnableWriting, Interest 1 EnableReading, Interest 0 DisableAll, Remove 0]"

lemma sample_registry:
  "\<exists>A ast. run_registry sample_ops (empty_registry, \<lambda>c. mkChannel (int c + 3)) = Some (A, ast)"
  by (simp add: sample_ops_def empty_registry_def can_update_def can_remove_def a_update_def a_remove_def Let_def
      set_interest_def mkChannel_def event_ok_def mask_simps)

theorem pollers_agree_witness:
  "\<exists>A ast p st1 q st2. run_registry sample_ops (empty_registry, \<lambda>c. mkChannel (int c + 3)) = Some (A, ast)
    \<and> run_chan (ep_updateChannel (\<lambda>_ _. False) 7) (ep_removeChannel (\<lambda>_ _. False) 7) sample_ops
        (mkEPollPoller 7, \<lambda>c. mkChannel (int c + 3)) = Inr (p, st1)
    \<and> run_chan (pp_updateChannel 7) (pp_removeChannel 7) sample_ops (mkPollPoller 7, \<lambda>c. mkChannel (int c + 3)) = Inr (q, st2)
    \<and> ep_watched p = pp_watched q"
proof -
  obtain A ast where a: "run_registry sample_ops (empty_registry, \<lambda>c. mkChannel (int c + 3)) = Some (A, ast)"
    using sample_registry by blast
  have "ch_index (mkChannel (int c + 3)) = -1" for c by (simp add: mkChannel_def)
  from pollers_agree [OF this a, of 7] a show ?thesis by blast
qed

text \<open>
  When \<^verbatim>\<open>epoll_wait\<close> reports entries of the interest list, \<^verbatim>\<open>EPollPoller::poll\<close> passes its
  assertions, appends exactly the reported channels to the active list in order, keeps the registration, and doubles the
  event array when it was full.
\<close>

theorem epoll_reports_registered:
  assumes "R_epoll tid p st A" "\<forall>(ev, c) \<in> set ready. \<exists>fd w. interest p fd = Some (w, c)" "length ready \<le> events_size p"
  shows "\<exists>p' st'. ep_poll (Some ready) (p, st) [] = Inr ((p', st'), map snd ready) \<and> R_epoll tid p' st' A
    \<and> events_size p' = (if ready \<noteq> [] \<and> length ready = events_size p then 2 * events_size p else events_size p)"
proof (cases "ready = []")
  case True
  with assms(1) show ?thesis by (simp add: ep_poll_def)
next
  case False
  obtain st' where st': "ep_fill (ep_channels p) ready st [] = Inr (st', map snd ready)"
    "\<And>c. ch_fd (st' c) = ch_fd (st c) \<and> ch_index (st' c) = ch_index (st c)"
    using ep_fill_ok [OF assms(1,2), of "[]"] by auto
  have "R_epoll tid p st' A" by (rule epoller.R_store [OF assms(1)]) (use st'(2) in blast)
  moreover from this have "R_epoll tid (p\<lparr>events_size := n\<rparr>) st' A" for n by (simp add: R_epoll_def)
  ultimately show ?thesis using False assms(3) st'(1) by (auto simp: ep_poll_def ep_fillActiveChannels_def)
qed

theorem epoll_reports_registered_witness:
  "\<exists>p st A p' st'. R_epoll 7 p st A \<and> interest p 3 = Some (kReadEvent, 0)
    \<and> ep_poll (Some [(POLLIN, 0)]) (p, st) [] = Inr ((p', st'), [0])"
proof -
  define st :: store where "st = (\<lambda>c. (mkChannel (int c + 3))\<lparr>events := kReadEvent\<rparr>)"
  have R: "R_epoll 7 (mkEPollPoller 7) st empty_registry"
    by (rule R_epoll_empty) (simp add: st_def mkChannel_def)
  have c: "can_update empty_registry 0 (st 0)"
    by (simp add: can_update_def empty_registry_def st_def mkChannel_def event_ok_def mask_simps)
  define p where "p = (mkEPollPoller 7)\<lparr>ep_channels := (ep_channels (mkEPollPoller 7))(ch_fd (st 0) \<mapsto> 0),
    interest := (interest (mkEPollPoller 7))(ch_fd (st 0) := if events (st 0) = 0 then None else Some (events (st 0), 0))\<rparr>"
  from R_epoll_update [OF R c refl, folded p_def] obtain st1 A where r: "R_epoll 7 p st1 A" by blast
  have i: "interest p 3 = Some (kReadEvent, 0)" "1 \<le> events_size p"
    by (simp_all add: p_def mkEPollPoller_def kInitEventListSize_def st_def mkChannel_def mask_simps)
  have "\<forall>(ev, c) \<in> set [(POLLIN, 0)]. \<exists>fd w. interest p fd = Some (w, c)" using i by auto
  from epoll_reports_registered [OF r this] i r show ?thesis by auto
qed

text \<open>
  Outside the contract the pollers differ: a fresh channel that is updated with no events and then removed
  passes with \<^verbatim>\<open>EPollPoller\<close>, while \<^verbatim>\<open>PollPoller\<close> keeps the entry's descriptor positive and fails an assertion in
  \<^verbatim>\<open>removeChannel\<close>; and a removed channel can be registered again with \<^verbatim>\<open>EPollPoller\<close> only, since
  \<^verbatim>\<open>PollPoller\<close> does not reset its index.
\<close>

theorem pollers_differ:
  "(\<exists>s. run_chan (ep_updateChannel (\<lambda>_ _. False) 7) (ep_removeChannel (\<lambda>_ _. False) 7)
      [Interest 0 DisableAll, Remove 0] (mkEPollPoller 7, \<lambda>c. mkChannel (int c + 3)) = Inr s)
   \<and> run_chan (pp_updateChannel 7) (pp_removeChannel 7)
      [Interest 0 DisableAll, Remove 0] (mkPollPoller 7, \<lambda>c. mkChannel (int c + 3)) = Inl AssertFailed
   \<and> (\<exists>s. run_chan (ep_updateChannel (\<lambda>_ _. False) 7) (ep_removeChannel (\<lambda>_ _. False) 7)
      [Interest 0 EnableReading, Interest 0 DisableAll, Remove 0, Interest 0 EnableReading]
      (mkEPollPoller 7, \<lambda>c. mkChannel (int c + 3)) = Inr s)
   \<and> run_chan (pp_updateChannel 7) (pp_removeChannel 7)
      [Interest 0 EnableReading, Interest 0 DisableAll, Remove 0, Interest 0 EnableReading]
      (mkPollPoller 7, \<lambda>c. mkChannel (int c + 3)) = Inl AssertFailed"
  by (simp add: channel_update_def channel_remove_def ep_updateChannel_def ep_removeChannel_def ep_update_def epoll_ctl_def
      pp_updateChannel_def pp_removeChannel_def assertInLoopThread_def mkEPollPoller_def mkPollPoller_def mkChannel_def
      set_interest_def set_index_def isNoneEvent_def mask_simps ep_index_simps Let_def)

end
