(* ===== verification/EventLoop.thy ===== *)
theory EventLoop
  imports Poller TimerQueue
begin

text \<open>
  \<^verbatim>\<open>muduo/net/EventLoop\<close>: one thread that polls, calls the handlers of the active channels and then the functors
  that any thread has queued, woken up through an eventfd. The loop and the other threads
  interleave as the steps of a relation; the two critical sections of \<^verbatim>\<open>mutex_\<close> (a push and a swap) are single steps,
  and everything outside them is a step of its own.
\<close>

section \<open>State\<close>

text \<open>
  \<open>wakeupFd\<close> is the counter of the eventfd. Functors are opaque here: what a functor or a handler does to the loop is
  a step of the loop's thread. \<open>at_pc\<close> is the point the loop's thread has reached in \<^verbatim>\<open>loop()\<close>, \<open>writers\<close> the threads
  between their change and their \<^verbatim>\<open>wakeup()\<close>; \<open>queued\<close> and \<open>executed\<close> record all functors queued and called from the queue,
  \<open>direct\<close> those that \<^verbatim>\<open>runInLoop\<close> has called at once, and \<open>early\<close> is set while functors are pending that the loop's own thread queued outside \<^verbatim>\<open>loop()\<close>.
\<close>

datatype 'f loop_pc =
    Stopped
  | LoopTest
  | Polling
  | Handling "nat list"
  | Swapping
  | Calling "'f list"

record 'f EventLoop =
  looping :: bool
  quit :: bool
  eventHandling :: bool
  callingPendingFunctors :: bool
  iteration :: int
  threadId :: nat
  activeChannels :: "nat list"
  currentActiveChannel :: "nat option"
  pendingFunctors :: "'f list"
  wakeupFd :: nat
  at_pc :: "'f loop_pc"
  writers :: "nat set"
  queued :: "'f list"
  executed :: "'f list"
  direct :: "'f list"
  early :: bool

text \<open>The constructor; \<open>loops\<close> is \<^verbatim>\<open>t_loopInThisThread\<close> of every thread.\<close>

definition mkEventLoop :: "(nat \<rightharpoonup> nat) \<Rightarrow> nat \<Rightarrow> nat \<Rightarrow> ((nat \<rightharpoonup> nat) \<times> 'f EventLoop) res" where
  "mkEventLoop loops tid this =
    (if loops tid \<noteq> None then Inl Aborted
     else Inr (loops(tid \<mapsto> this),
       \<lparr>looping = False, quit = False, eventHandling = False, callingPendingFunctors = False, iteration = 0,
        threadId = tid, activeChannels = [], currentActiveChannel = None, pendingFunctors = [], wakeupFd = 0,
        at_pc = Stopped, writers = {}, queued = [], executed = [], direct = [], early = False\<rparr>))"

text \<open>The destructor in thread \<open>tid\<close>; \<open>remove\<close> disables and removes the wakeup channel.\<close>

definition el_destroy :: "('s \<Rightarrow> 's res) \<Rightarrow> nat \<Rightarrow> (nat \<rightharpoonup> nat) \<Rightarrow> 's \<Rightarrow> ((nat \<rightharpoonup> nat) \<times> 's) res" where
  "el_destroy remove tid loops s = bindE (remove s) (\<lambda>s. Inr (loops(tid := None), s))"

definition isInLoopThread :: "nat \<Rightarrow> 'f EventLoop \<Rightarrow> bool" where
  "isInLoopThread tid l \<longleftrightarrow> threadId l = tid"

text \<open>
  Writing to the eventfd adds one, unless the counter would overflow: then the non-blocking write fails and is logged.
  Reading resets the counter.
\<close>

definition wakeup :: "'f EventLoop \<Rightarrow> 'f EventLoop" where
  "wakeup l = (if wakeupFd l < 2 ^ 64 - 2 then l\<lparr>wakeupFd := wakeupFd l + 1\<rparr> else l)"

definition el_handleRead :: "'f EventLoop \<Rightarrow> 'f EventLoop" where
  "el_handleRead l = l\<lparr>wakeupFd := 0\<rparr>"

text \<open>The two halves of \<^verbatim>\<open>queueInLoop\<close>, and the condition between them.\<close>

definition push_functor :: "'f \<Rightarrow> 'f EventLoop \<Rightarrow> 'f EventLoop" where
  "push_functor cb l = l\<lparr>pendingFunctors := pendingFunctors l @ [cb], queued := queued l @ [cb]\<rparr>"

definition needs_wakeup :: "nat \<Rightarrow> 'f EventLoop \<Rightarrow> bool" where
  "needs_wakeup tid l \<longleftrightarrow> \<not> isInLoopThread tid l \<or> callingPendingFunctors l"

definition queueInLoop :: "nat \<Rightarrow> 'f \<Rightarrow> 'f EventLoop \<Rightarrow> 'f EventLoop" where
  "queueInLoop tid cb l = (let l = push_functor cb l in if needs_wakeup tid l then wakeup l else l)"

definition call_functor :: "'f \<Rightarrow> 'f EventLoop \<Rightarrow> 'f EventLoop" where
  "call_functor cb l = l\<lparr>executed := executed l @ [cb]\<rparr>"

definition runInLoop :: "nat \<Rightarrow> 'f \<Rightarrow> 'f EventLoop \<Rightarrow> 'f EventLoop" where
  "runInLoop tid cb l = (if isInLoopThread tid l then l\<lparr>direct := direct l @ [cb]\<rparr> else queueInLoop tid cb l)"

definition el_queueSize :: "'f EventLoop \<Rightarrow> nat" where
  "el_queueSize l = length (pendingFunctors l)"

text \<open>\<^verbatim>\<open>quit\<close> up to its \<^verbatim>\<open>wakeup\<close>, which only other threads call.\<close>

definition set_quit :: "'f EventLoop \<Rightarrow> 'f EventLoop" where
  "set_quit l = l\<lparr>quit := True\<rparr>"

section \<open>The loop\<close>

text \<open>The pieces of \<^verbatim>\<open>loop()\<close> and \<^verbatim>\<open>doPendingFunctors()\<close> between which other threads may run.\<close>

definition loop_begin :: "nat \<Rightarrow> 'f EventLoop \<Rightarrow> 'f EventLoop res" where
  "loop_begin tid l =
    bindE (assertE (\<not> looping l)) (\<lambda>_.
    bindE (assertInLoopThread (threadId l) tid) (\<lambda>_.
    Inr (l\<lparr>looping := True, quit := False, at_pc := LoopTest\<rparr>)))"

definition loop_test :: "'f EventLoop \<Rightarrow> 'f EventLoop" where
  "loop_test l =
    (if quit l then l\<lparr>looping := False, at_pc := Stopped\<rparr> else l\<lparr>activeChannels := [], at_pc := Polling\<rparr>)"

definition loop_polled :: "nat list \<Rightarrow> 'f EventLoop \<Rightarrow> 'f EventLoop" where
  "loop_polled cs l = l\<lparr>activeChannels := cs, iteration := iteration l + 1, eventHandling := True, at_pc := Handling cs\<rparr>"

definition loop_handle :: "nat \<Rightarrow> nat \<Rightarrow> nat list \<Rightarrow> 'f EventLoop \<Rightarrow> 'f EventLoop" where
  "loop_handle wakeupChannel c cs l =
    (let l = l\<lparr>currentActiveChannel := Some c, at_pc := Handling cs\<rparr> in if c = wakeupChannel then el_handleRead l else l)"

definition loop_handled :: "'f EventLoop \<Rightarrow> 'f EventLoop" where
  "loop_handled l = l\<lparr>currentActiveChannel := None, eventHandling := False, callingPendingFunctors := True, at_pc := Swapping\<rparr>"

definition functors_swap :: "'f EventLoop \<Rightarrow> 'f EventLoop" where
  "functors_swap l = l\<lparr>pendingFunctors := [], at_pc := Calling (pendingFunctors l), early := False\<rparr>"

definition functors_call :: "'f \<Rightarrow> 'f list \<Rightarrow> 'f EventLoop \<Rightarrow> 'f EventLoop" where
  "functors_call f fs l = (call_functor f l)\<lparr>at_pc := Calling fs\<rparr>"

definition functors_done :: "'f EventLoop \<Rightarrow> 'f EventLoop" where
  "functors_done l = l\<lparr>callingPendingFunctors := False, at_pc := LoopTest\<rparr>"

text \<open>
  The steps of the loop's own thread. \<^verbatim>\<open>poll\<close> blocks until a channel is ready and returns some of the ready ones: the
  wakeup channel \<open>wk\<close> is ready iff its counter is positive, the others that may be are those of \<open>active\<close>. That \<^verbatim>\<open>poll\<close>
  returns nothing after \<^verbatim>\<open>kPollTimeMs\<close> without any is a step of its own, \<open>poll_timeout\<close> below.
\<close>

definition ready :: "nat \<Rightarrow> nat set \<Rightarrow> 'f EventLoop \<Rightarrow> nat set" where
  "ready wk active l = (active - {wk}) \<union> (if 0 < wakeupFd l then {wk} else {})"

inductive loop_step :: "nat \<Rightarrow> nat set \<Rightarrow> 'f EventLoop \<Rightarrow> 'f EventLoop \<Rightarrow> bool" for wk active where
  start: "at_pc l = Stopped \<Longrightarrow> loop_begin (threadId l) l = Inr l' \<Longrightarrow> loop_step wk active l l'"
| test: "at_pc l = LoopTest \<Longrightarrow> loop_step wk active l (loop_test l)"
| poll: "at_pc l = Polling \<Longrightarrow> cs \<noteq> [] \<Longrightarrow> distinct cs \<Longrightarrow> set cs \<subseteq> ready wk active l \<Longrightarrow> loop_step wk active l (loop_polled cs l)"
| handle: "at_pc l = Handling (c # cs) \<Longrightarrow> loop_step wk active l (loop_handle wk c cs l)"
| handled: "at_pc l = Handling [] \<Longrightarrow> loop_step wk active l (loop_handled l)"
| swap: "at_pc l = Swapping \<Longrightarrow> loop_step wk active l (functors_swap l)"
| call: "at_pc l = Calling (f # fs) \<Longrightarrow> loop_step wk active l (functors_call f fs l)"
| calls_done: "at_pc l = Calling [] \<Longrightarrow> loop_step wk active l (functors_done l)"

text \<open>User code in the loop's thread: handlers, functors, and code before and after \<^verbatim>\<open>loop()\<close>.\<close>

definition in_user_code :: "'f EventLoop \<Rightarrow> bool" where
  "in_user_code l = (case at_pc l of Stopped \<Rightarrow> True | Handling _ \<Rightarrow> True | Calling _ \<Rightarrow> True | _ \<Rightarrow> False)"

inductive el_step :: "nat \<Rightarrow> 'f EventLoop \<Rightarrow> 'f EventLoop \<Rightarrow> bool" for wk where
  loop: "loop_step wk UNIV l l' \<Longrightarrow> el_step wk l l'"
| poll_timeout: "at_pc l = Polling \<Longrightarrow> wakeupFd l = 0 \<Longrightarrow> el_step wk l (loop_polled [] l)"
| own_queue: "in_user_code l \<Longrightarrow>
    el_step wk l ((queueInLoop (threadId l) cb l)\<lparr>early := early l \<or> at_pc l = Stopped\<rparr>)"
| own_run: "in_user_code l \<Longrightarrow> el_step wk l (runInLoop (threadId l) cb l)"
| own_quit: "in_user_code l \<Longrightarrow> el_step wk l (set_quit l)"
| other_queue: "tid \<noteq> threadId l \<Longrightarrow> tid \<notin> writers l \<Longrightarrow> el_step wk l ((push_functor cb l)\<lparr>writers := insert tid (writers l)\<rparr>)"
| other_quit: "tid \<noteq> threadId l \<Longrightarrow> tid \<notin> writers l \<Longrightarrow> el_step wk l ((set_quit l)\<lparr>writers := insert tid (writers l)\<rparr>)"
| other_wakeup: "tid \<in> writers l \<Longrightarrow> el_step wk l ((wakeup l)\<lparr>writers := writers l - {tid}\<rparr>)"

section \<open>Channels and timers\<close>

text \<open>\<open>owner\<close> is \<^verbatim>\<open>ownerLoop()\<close> of a channel; \<open>update\<close> and \<open>remove\<close> are those of the poller.\<close>

definition el_updateChannel :: "(nat \<Rightarrow> 's \<Rightarrow> 's res) \<Rightarrow> (nat \<Rightarrow> nat) \<Rightarrow> nat \<Rightarrow> nat \<Rightarrow> nat \<Rightarrow> 'f EventLoop \<Rightarrow> 's \<Rightarrow> 's res" where
  "el_updateChannel update owner this tid channel l s =
    bindE (assertE (owner channel = this)) (\<lambda>_.
    bindE (assertInLoopThread (threadId l) tid) (\<lambda>_. update channel s))"

definition el_removeChannel :: "(nat \<Rightarrow> 's \<Rightarrow> 's res) \<Rightarrow> (nat \<Rightarrow> nat) \<Rightarrow> nat \<Rightarrow> nat \<Rightarrow> nat \<Rightarrow> 'f EventLoop \<Rightarrow> 's \<Rightarrow> 's res" where
  "el_removeChannel remove owner this tid channel l s =
    bindE (assertE (owner channel = this)) (\<lambda>_.
    bindE (assertInLoopThread (threadId l) tid) (\<lambda>_.
    bindE (assertE (eventHandling l \<longrightarrow> currentActiveChannel l = Some channel \<or> channel \<notin> set (activeChannels l))) (\<lambda>_.
    remove channel s)))"

definition el_hasChannel :: "(nat \<Rightarrow> nat) \<Rightarrow> nat \<Rightarrow> nat \<Rightarrow> (int \<rightharpoonup> nat) \<Rightarrow> nat \<Rightarrow> store \<Rightarrow> 'f EventLoop \<Rightarrow> bool res" where
  "el_hasChannel owner this tid chans channel st l =
    bindE (assertE (owner channel = this)) (\<lambda>_.
    bindE (assertInLoopThread (threadId l) tid) (\<lambda>_. hasChannel (threadId l) tid chans channel st))"

definition el_runAt :: "((timer_ptr \<rightharpoonup> Timer) \<Rightarrow> timer_ptr) \<Rightarrow> bool \<Rightarrow> Timestamp \<Rightarrow> timer_call list \<Rightarrow> TimerQueue
    \<Rightarrow> (TimerId \<times> TimerQueue) res" where
  "el_runAt alloc inLoop time cb q = addTimer alloc inLoop cb time 0 q"

definition el_runAfter :: "((timer_ptr \<rightharpoonup> Timer) \<Rightarrow> timer_ptr) \<Rightarrow> bool \<Rightarrow> Timestamp \<Rightarrow> rat \<Rightarrow> timer_call list \<Rightarrow> TimerQueue
    \<Rightarrow> (TimerId \<times> TimerQueue) res" where
  "el_runAfter alloc inLoop now delay cb q = el_runAt alloc inLoop (addTime now delay) cb q"

definition el_runEvery :: "((timer_ptr \<rightharpoonup> Timer) \<Rightarrow> timer_ptr) \<Rightarrow> bool \<Rightarrow> Timestamp \<Rightarrow> rat \<Rightarrow> timer_call list \<Rightarrow> TimerQueue
    \<Rightarrow> (TimerId \<times> TimerQueue) res" where
  "el_runEvery alloc inLoop now itv cb q = addTimer alloc inLoop cb (addTime now itv) itv q"

section \<open>Invariant\<close>

fun calling :: "'f loop_pc \<Rightarrow> 'f list" where
  "calling (Calling fs) = fs"
| "calling _ = []"

text \<open>
  Functors are called in the order they were queued; the flags tell where the loop is; and outside the part of the loop
  that ends in a swap, pending functors and a request to quit have made the eventfd readable or are about to.
\<close>

definition must_wake :: "'f EventLoop \<Rightarrow> bool" where
  "must_wake l = (case at_pc l of Handling _ \<Rightarrow> False | Swapping \<Rightarrow> False | _ \<Rightarrow> True)"

definition will_wake :: "'f EventLoop \<Rightarrow> bool" where
  "will_wake l \<longleftrightarrow> 0 < wakeupFd l \<or> writers l \<noteq> {}"

definition el_inv :: "'f EventLoop \<Rightarrow> bool" where
  "el_inv l \<longleftrightarrow> queued l = executed l @ calling (at_pc l) @ pendingFunctors l
    \<and> looping l = (at_pc l \<noteq> Stopped)
    \<and> eventHandling l = (\<exists>cs. at_pc l = Handling cs)
    \<and> callingPendingFunctors l = (at_pc l = Swapping \<or> (\<exists>fs. at_pc l = Calling fs))
    \<and> (must_wake l \<and> pendingFunctors l \<noteq> [] \<longrightarrow> will_wake l \<or> early l)
    \<and> (at_pc l = Polling \<and> quit l \<longrightarrow> will_wake l)
    \<and> threadId l \<notin> writers l"

lemmas loop_defs = loop_begin_def loop_test_def loop_polled_def loop_handle_def loop_handled_def functors_swap_def
  functors_call_def functors_done_def call_functor_def el_handleRead_def Let_def

lemmas el_defs = push_functor_def needs_wakeup_def queueInLoop_def runInLoop_def wakeup_def set_quit_def isInLoopThread_def Let_def

lemma loop_step_inv: "el_inv l \<Longrightarrow> loop_step wk active l l' \<Longrightarrow> el_inv l'"
  by (erule loop_step.cases)
    (auto simp: el_inv_def loop_defs must_wake_def will_wake_def bindE_Inr_iff assertInLoopThread_def)

lemma el_step_inv:
  assumes "el_inv l" "el_step wk l l'"
  shows "el_inv l'"
  using assms(2)
proof cases
  case loop
  with assms(1) show ?thesis by (rule loop_step_inv)
next
  case poll_timeout
  with assms(1) show ?thesis by (auto simp: el_inv_def loop_polled_def must_wake_def will_wake_def)
next
  case (own_queue cb)
  with assms(1) show ?thesis
    by (auto simp: el_inv_def el_defs must_wake_def will_wake_def in_user_code_def split: loop_pc.splits)
next
  case own_run
  with assms(1) show ?thesis by (simp add: el_inv_def el_defs must_wake_def will_wake_def)
next
  case own_quit
  with assms(1) show ?thesis by (auto simp: el_inv_def el_defs must_wake_def will_wake_def in_user_code_def)
next
  case (other_queue tid cb)
  with assms(1) show ?thesis by (auto simp: el_inv_def el_defs must_wake_def will_wake_def)
next
  case (other_quit tid)
  with assms(1) show ?thesis by (auto simp: el_inv_def el_defs must_wake_def will_wake_def)
next
  case (other_wakeup tid)
  with assms(1) show ?thesis by (auto simp: el_inv_def el_defs must_wake_def will_wake_def)
qed

definition new_loop :: "'f EventLoop \<Rightarrow> bool" where
  "new_loop l \<longleftrightarrow> (\<exists>loops tid this loops'. mkEventLoop loops tid this = Inr (loops', l))"

lemma new_loop_inv: "new_loop l \<Longrightarrow> el_inv l"
  by (auto simp: new_loop_def mkEventLoop_def el_inv_def must_wake_def split: if_splits)

interpretation els: transition_system new_loop "el_step wk" el_inv
  by unfold_locales (auto intro: new_loop_inv el_step_inv)

section \<open>A round of the loop\<close>

abbreviation loop_steps :: "nat \<Rightarrow> nat set \<Rightarrow> 'f EventLoop \<Rightarrow> 'f EventLoop \<Rightarrow> bool" where
  "loop_steps wk active \<equiv> (loop_step wk active)\<^sup>*\<^sup>*"

lemma call_all:
  assumes "at_pc l = Calling fs"
  shows "loop_steps wk {} l (l\<lparr>executed := executed l @ fs, callingPendingFunctors := False, at_pc := LoopTest\<rparr>)"
  using assms
proof (induction fs arbitrary: l)
  case Nil
  have "loop_step wk {} l (functors_done l)" using Nil by (rule loop_step.calls_done)
  moreover have "functors_done l = l\<lparr>executed := executed l @ [], callingPendingFunctors := False, at_pc := LoopTest\<rparr>"
    by (simp add: functors_done_def)
  ultimately show ?case by (simp add: r_into_rtranclp)
next
  case (Cons f fs)
  have s: "loop_step wk {} l (functors_call f fs l)" using Cons.prems by (rule loop_step.call)
  have "at_pc (functors_call f fs l) = Calling fs" by (simp add: functors_call_def)
  from Cons.IH [OF this] have "loop_steps wk {} (functors_call f fs l) (l\<lparr>executed := executed l @ f # fs,
      callingPendingFunctors := False, at_pc := LoopTest\<rparr>)"
    by (simp add: functors_call_def call_functor_def)
  with s show ?case by (rule converse_rtranclp_into_rtranclp)
qed

lemma woken_round:
  assumes "at_pc l = Polling" "0 < wakeupFd l"
  shows "\<exists>l'. loop_steps wk {} l l' \<and> at_pc l' = LoopTest \<and> executed l' = executed l @ pendingFunctors l
    \<and> quit l' = quit l \<and> pendingFunctors l' = [] \<and> wakeupFd l' = 0"
proof -
  define l1 where "l1 = loop_polled [wk] l"
  define l2 where "l2 = loop_handle wk wk [] l1"
  define l3 where "l3 = loop_handled l2"
  define l4 where "l4 = functors_swap l3"
  have s1: "loop_step wk {} l l1" using assms unfolding l1_def by (intro loop_step.poll) (simp_all add: ready_def)
  have s2: "loop_step wk {} l1 l2" unfolding l2_def by (rule loop_step.handle) (simp add: l1_def loop_polled_def)
  have s3: "loop_step wk {} l2 l3" unfolding l3_def by (rule loop_step.handled) (simp add: l2_def loop_handle_def el_handleRead_def)
  have s4: "loop_step wk {} l3 l4" unfolding l4_def by (rule loop_step.swap) (simp add: l3_def loop_handled_def)
  have p: "at_pc l4 = Calling (pendingFunctors l)" "executed l4 = executed l" "quit l4 = quit l" "pendingFunctors l4 = []" "wakeupFd l4 = 0"
    by (simp_all add: l4_def l3_def l2_def l1_def loop_defs)
  have "loop_steps wk {} l l4" using s1 s2 s3 s4 by (meson rtranclp.rtrancl_into_rtrancl rtranclp.rtrancl_refl)
  from rtranclp_trans [OF this call_all [OF p(1)]] obtain l'
    where "loop_steps wk {} l l'" "l' = l4\<lparr>executed := executed l4 @ pendingFunctors l, callingPendingFunctors := False, at_pc := LoopTest\<rparr>"
    by blast
  then show ?thesis using p by (intro exI [of _ l']) simp
qed

text \<open>
  The steps of all threads while \<^verbatim>\<open>loop()\<close> has not returned. When such steps lead from \<open>l\<close>, where the loop is about to
  poll, to a later iteration, every functor that was queued in \<open>l\<close> has been called by the time the loop tests \<^verbatim>\<open>quit_\<close>
  again.
\<close>

definition during_loop :: "nat \<Rightarrow> 'f EventLoop \<Rightarrow> 'f EventLoop \<Rightarrow> bool" where
  "during_loop wk l l' \<longleftrightarrow> at_pc l \<noteq> Stopped \<and> el_step wk l l'"

definition serves :: "'f EventLoop \<Rightarrow> 'f EventLoop \<Rightarrow> bool" where
  "serves l l' \<longleftrightarrow> iteration l \<le> iteration l' \<and> (iteration l' = iteration l \<longrightarrow> at_pc l' = Polling)
    \<and> (\<exists>ds. queued l' = queued l @ ds)
    \<and> (iteration l < iteration l' \<longrightarrow> eventHandling l' \<or> at_pc l' = Swapping
        \<or> (\<exists>ds. executed l' @ calling (at_pc l') = queued l @ ds))"

definition quits :: "'f EventLoop \<Rightarrow> 'f EventLoop \<Rightarrow> bool" where
  "quits l l' \<longleftrightarrow> iteration l \<le> iteration l' \<and> (iteration l' = iteration l \<longrightarrow> at_pc l' = Polling)
    \<and> quit l' \<and> iteration l' \<le> iteration l + 1 \<and> (iteration l' = iteration l + 1 \<longrightarrow> at_pc l' \<noteq> Polling)"

lemma loop_step_serves:
  assumes "loop_step wk active l1 l2" "serves l l1" "el_inv l1" "at_pc l1 \<noteq> Stopped"
  shows "serves l l2"
  using assms by (cases rule: loop_step.cases) (auto simp: serves_def loop_defs el_inv_def)

lemma loop_step_quits:
  assumes "loop_step wk active l1 l2" "quits l l1" "at_pc l1 \<noteq> Stopped"
  shows "quits l l2"
  using assms by (cases rule: loop_step.cases) (auto simp: quits_def loop_defs)

lemma during_serves:
  assumes "during_loop wk l1 l2" "serves l l1" "el_inv l1"
  shows "serves l l2"
proof -
  have "el_step wk l1 l2" "at_pc l1 \<noteq> Stopped" using assms(1) by (simp_all add: during_loop_def)
  from this(1) show ?thesis
  proof cases
    case loop
    then show ?thesis using loop_step_serves assms(2,3) \<open>at_pc l1 \<noteq> Stopped\<close> by blast
  next
    case poll_timeout
    then show ?thesis using assms(2) by (auto simp: serves_def loop_polled_def)
  qed (use assms(2) in \<open>auto simp: serves_def el_defs in_user_code_def\<close>)
qed

lemma during_quits:
  assumes "during_loop wk l1 l2" "quits l l1"
  shows "quits l l2"
proof -
  have "el_step wk l1 l2" "at_pc l1 \<noteq> Stopped" using assms(1) by (simp_all add: during_loop_def)
  from this(1) show ?thesis
  proof cases
    case loop
    then show ?thesis using loop_step_quits assms(2) \<open>at_pc l1 \<noteq> Stopped\<close> by blast
  next
    case poll_timeout
    then show ?thesis using assms(2) by (auto simp: quits_def loop_polled_def)
  qed (use assms(2) in \<open>auto simp: quits_def el_defs in_user_code_def\<close>)
qed

lemma during_loop_serves:
  assumes "(during_loop wk)\<^sup>*\<^sup>* l l'" "el_inv l" "at_pc l = Polling"
  shows "serves l l' \<and> el_inv l' \<and> (quit l \<longrightarrow> quits l l')"
  using assms(1)
proof induction
  case base
  then show ?case using assms(2,3) by (simp add: serves_def quits_def)
next
  case (step l1 l2)
  then have "el_inv l2" using el_step_inv by (auto simp: during_loop_def)
  with step show ?case using during_serves during_quits by blast
qed

lemma served_round:
  assumes "(during_loop wk)\<^sup>*\<^sup>* l l'" "iteration l < iteration l'" "at_pc l' \<in> {LoopTest, Polling, Stopped}"
    and "el_inv l" "at_pc l = Polling"
  shows "\<exists>ds. executed l' = queued l @ ds" "quit l \<Longrightarrow> iteration l' = iteration l + 1" "quit l \<Longrightarrow> at_pc l' \<noteq> Polling"
proof -
  note d = during_loop_serves [OF assms(1,4,5)]
  have "el_inv l'" using d by blast
  then have e: "eventHandling l' = (\<exists>cs. at_pc l' = Handling cs)" unfolding el_inv_def by blast
  have "at_pc l' = LoopTest \<or> at_pc l' = Polling \<or> at_pc l' = Stopped" using assms(3) by blast
  then have "\<not> eventHandling l' \<and> at_pc l' \<noteq> Swapping \<and> calling (at_pc l') = []" unfolding e by (elim disjE) simp_all
  with d show "\<exists>ds. executed l' = queued l @ ds" using assms(2) by (simp add: serves_def)
  show "quit l \<Longrightarrow> iteration l' = iteration l + 1" "quit l \<Longrightarrow> at_pc l' \<noteq> Polling"
    using d assms(2) by (simp_all add: quits_def)
qed

text \<open>A loop that blocks in \<^verbatim>\<open>poll\<close> while thread 2 queues the functor 7 and wakes it up.\<close>

definition fresh_loop :: "int EventLoop" where
  "fresh_loop = \<lparr>looping = False, quit = False, eventHandling = False, callingPendingFunctors = False, iteration = 0,
     threadId = 1, activeChannels = [], currentActiveChannel = None, pendingFunctors = [], wakeupFd = 0,
     at_pc = Stopped, writers = {}, queued = [], executed = [], direct = [], early = False\<rparr>"

definition woken_loop :: "int EventLoop" where
  "woken_loop = fresh_loop\<lparr>looping := True, at_pc := Polling, pendingFunctors := [7], queued := [7], wakeupFd := 1\<rparr>"

lemma woken_loop_reach: "reach new_loop (el_step 0) woken_loop"
proof -
  define l1 where "l1 = fresh_loop\<lparr>looping := True, at_pc := LoopTest\<rparr>"
  define l2 where "l2 = fresh_loop\<lparr>looping := True, at_pc := Polling\<rparr>"
  define l3 where "l3 = l2\<lparr>pendingFunctors := [7], queued := [7], writers := {2}\<rparr>"
  have "new_loop fresh_loop"
    unfolding new_loop_def by (intro exI [of _ "Map.empty"] exI [of _ 1] exI [of _ 0] exI [of _ "[1 \<mapsto> 0]"])
      (simp add: mkEventLoop_def fresh_loop_def)
  then have r0: "reach new_loop (el_step 0) fresh_loop" by (rule reach.intros)
  have "loop_step 0 UNIV fresh_loop l1"
    by (rule loop_step.start) (simp_all add: fresh_loop_def l1_def loop_begin_def assertInLoopThread_def)
  from reach.intros(2) [OF r0 el_step.loop [OF this]] have r1: "reach new_loop (el_step 0) l1" .
  have "loop_step 0 UNIV l1 (loop_test l1)" by (rule loop_step.test) (simp add: l1_def)
  moreover have "loop_test l1 = l2" by (simp add: l1_def l2_def loop_test_def fresh_loop_def)
  ultimately have r2: "reach new_loop (el_step 0) l2" using reach.intros(2) [OF r1 el_step.loop] by metis
  have "el_step 0 l2 ((push_functor 7 l2)\<lparr>writers := insert 2 (writers l2)\<rparr>)"
    by (rule el_step.other_queue) (simp_all add: l2_def fresh_loop_def)
  moreover have "(push_functor 7 l2)\<lparr>writers := insert 2 (writers l2)\<rparr> = l3"
    by (simp add: l3_def l2_def push_functor_def fresh_loop_def)
  ultimately have r3: "reach new_loop (el_step 0) l3" using reach.intros(2) [OF r2] by metis
  have "el_step 0 l3 ((wakeup l3)\<lparr>writers := writers l3 - {2}\<rparr>)" by (rule el_step.other_wakeup) (simp add: l3_def)
  moreover have "(wakeup l3)\<lparr>writers := writers l3 - {2}\<rparr> = woken_loop"
    by (simp add: l3_def l2_def wakeup_def woken_loop_def fresh_loop_def)
  ultimately show ?thesis using reach.intros(2) [OF r3] by metis
qed

section \<open>Properties\<close>

text \<open>
  C14: Functors queued with \<^verbatim>\<open>queueInLoop\<close> are called exactly once and in the order they were queued, under every
  interleaving of the loop with any other threads: those called, those swapped out and not yet called, and those pending
  are together exactly those queued. The flags \<^verbatim>\<open>looping_\<close>, \<^verbatim>\<open>eventHandling_\<close> and \<^verbatim>\<open>callingPendingFunctors_\<close> tell
  where the loop is, so that the assertion at the start of \<^verbatim>\<open>loop()\<close> holds.
\<close>

theorem event_loop_fifo:
  assumes "reach new_loop (el_step wk) l"
  shows "queued l = executed l @ calling (at_pc l) @ pendingFunctors l
    \<and> looping l = (at_pc l \<noteq> Stopped) \<and> eventHandling l = (\<exists>cs. at_pc l = Handling cs)
    \<and> (at_pc l = Stopped \<longrightarrow> (\<exists>l'. loop_begin (threadId l) l = Inr l'))"
  using els.reach_inv [OF assms] by (auto simp: el_inv_def loop_begin_def assertInLoopThread_def)

theorem event_loop_fifo_witness:
  "reach new_loop (el_step 0) woken_loop \<and> queued woken_loop = [7]
    \<and> queued woken_loop = executed woken_loop @ calling (at_pc woken_loop) @ pendingFunctors woken_loop"
  using event_loop_fifo [OF woken_loop_reach] woken_loop_reach by (simp add: woken_loop_def)

text \<open>
  C3: No wakeup is lost. Take any reachable state in which the loop is about to block in \<^verbatim>\<open>poll\<close> although it has
  been told to quit or a functor is pending, other than one that its own thread queued while \<^verbatim>\<open>loop()\<close> was not running
  (\<open>early\<close>: \<^verbatim>\<open>queueInLoop\<close> then writes nothing, and the first \<^verbatim>\<open>poll\<close> may wait for its timeout). Then the eventfd is
  readable or some thread is about to write to it. If it is readable, the loop goes on by itself, even if no other channel
  ever becomes active and \<^verbatim>\<open>poll\<close> never times out: it calls every functor queued so far and ends if it was told to
  quit. And however the other threads, the channels and the timeout interleave, when the loop next tests \<^verbatim>\<open>quit_\<close> after
  that \<^verbatim>\<open>poll\<close> every functor queued before has been called, and if it was told to quit it polls no more before \<^verbatim>\<open>loop()\<close>
  returns.
\<close>

theorem event_loop_no_lost_wakeup:
  assumes "reach new_loop (el_step wk) l" "at_pc l = Polling" "pendingFunctors l \<noteq> [] \<and> \<not> early l \<or> quit l"
  shows "(0 < wakeupFd l \<or> writers l \<noteq> {})
    \<and> (0 < wakeupFd l \<longrightarrow>
        (\<exists>l'. loop_steps wk {} l l' \<and> executed l' = queued l \<and> (quit l \<longrightarrow> at_pc l' = Stopped)))
    \<and> (\<forall>l'. (during_loop wk)\<^sup>*\<^sup>* l l' \<and> iteration l < iteration l' \<and> at_pc l' \<in> {LoopTest, Polling, Stopped} \<longrightarrow>
        (\<exists>ds. executed l' = queued l @ ds) \<and> (quit l \<longrightarrow> iteration l' = iteration l + 1 \<and> at_pc l' \<noteq> Polling))"
proof -
  have i: "el_inv l" by (rule els.reach_inv [OF assms(1)])
  then have w: "0 < wakeupFd l \<or> writers l \<noteq> {}"
    using assms(2,3) by (auto simp: el_inv_def must_wake_def will_wake_def)
  have a: "\<exists>l'. loop_steps wk {} l l' \<and> executed l' = queued l \<and> (quit l \<longrightarrow> at_pc l' = Stopped)" if pos: "0 < wakeupFd l"
  proof -
    obtain l1 where l1: "loop_steps wk {} l l1" "at_pc l1 = LoopTest" "executed l1 = executed l @ pendingFunctors l" "quit l1 = quit l"
      using woken_round [OF assms(2) pos, of wk] by blast
    have q: "queued l = executed l1" using i assms(2) l1(3) by (simp add: el_inv_def)
    have "loop_steps wk {} l (loop_test l1)" using l1(1) loop_step.test [OF l1(2)] by (rule rtranclp.rtrancl_into_rtrancl)
    moreover have "executed (loop_test l1) = executed l1" "quit l \<longrightarrow> at_pc (loop_test l1) = Stopped"
      using l1(4) by (simp_all add: loop_test_def)
    ultimately show ?thesis using q by (intro exI [of _ "loop_test l1"]) simp
  qed
  have "(\<exists>ds. executed l' = queued l @ ds) \<and> (quit l \<longrightarrow> iteration l' = iteration l + 1 \<and> at_pc l' \<noteq> Polling)"
    if h: "(during_loop wk)\<^sup>*\<^sup>* l l' \<and> iteration l < iteration l' \<and> at_pc l' \<in> {LoopTest, Polling, Stopped}" for l'
    using served_round [OF h [THEN conjunct1] h [THEN conjunct2, THEN conjunct1] h [THEN conjunct2, THEN conjunct2] i assms(2)]
    by blast
  then have b: "\<forall>l'. (during_loop wk)\<^sup>*\<^sup>* l l' \<and> iteration l < iteration l' \<and> at_pc l' \<in> {LoopTest, Polling, Stopped} \<longrightarrow>
      (\<exists>ds. executed l' = queued l @ ds) \<and> (quit l \<longrightarrow> iteration l' = iteration l + 1 \<and> at_pc l' \<noteq> Polling)"
    by (intro allI impI)
  show ?thesis by (rule conjI [OF w conjI [OF impI b]]) (rule a)
qed

theorem event_loop_no_lost_wakeup_witness:
  "reach new_loop (el_step 0) woken_loop \<and> (\<exists>l'. loop_steps 0 {} woken_loop l' \<and> executed l' = [7])"
proof -
  have w: "at_pc woken_loop = Polling" "pendingFunctors woken_loop \<noteq> [] \<and> \<not> early woken_loop \<or> quit woken_loop"
    "0 < wakeupFd woken_loop" "queued woken_loop = [7]"
    by (simp_all add: woken_loop_def fresh_loop_def)
  have "\<exists>l'. loop_steps 0 {} woken_loop l' \<and> executed l' = queued woken_loop \<and> (quit woken_loop \<longrightarrow> at_pc l' = Stopped)"
    by (rule event_loop_no_lost_wakeup [OF woken_loop_reach w(1,2), THEN conjunct2, THEN conjunct1, rule_format, OF w(3)])
  then show ?thesis using w(4) woken_loop_reach by metis
qed

end
