(* ===== verification/TcpConnection.thy ===== *)
theory TcpConnection
  imports Buffer Channel
begin

text \<open>
  \<^verbatim>\<open>muduo/net/TcpConnection\<close>: the life of a connection from \<^verbatim>\<open>connectEstablished\<close> to \<^verbatim>\<open>connectDestroyed\<close>, and the
  stream of bytes from \<^verbatim>\<open>send\<close> through the output buffer to the socket. It is built from the models of \<^verbatim>\<open>Buffer\<close> and
  \<^verbatim>\<open>Channel\<close>. Calls from another thread than the loop's are queued in the loop, which runs them in order; \<^verbatim>\<open>shutdown\<close>,
  \<^verbatim>\<open>forceClose\<close> and \<^verbatim>\<open>forceCloseWithDelay\<close> from another thread read and write \<^verbatim>\<open>state_\<close> in two steps, between which the
  loop may run.
\<close>

section \<open>State\<close>

datatype StateE = kDisconnected | kConnecting | kConnected | kDisconnecting

text \<open>Functors queued in the loop, and what \<^verbatim>\<open>write(2)\<close> returns: a number of bytes or an \<^verbatim>\<open>errno\<close>.\<close>

datatype conn_call =
    SendInLoop string
  | ShutdownInLoop
  | ForceCloseInLoop
  | StartReadInLoop
  | StopReadInLoop
  | WriteCompleteCall
  | HighWaterMarkCall nat

datatype write_result = Wrote nat | WriteErr int

definition EWOULDBLOCK :: int where "EWOULDBLOCK = 11"
definition EPIPE :: int where "EPIPE = 32"
definition ECONNRESET :: int where "ECONNRESET = 104"

text \<open>
  The callbacks of the user: \<^verbatim>\<open>connectionCallback_\<close> (with \<^verbatim>\<open>connected()\<close>), \<^verbatim>\<open>messageCallback_\<close> (with the bytes in
  the input buffer), \<^verbatim>\<open>closeCallback_\<close>, and the two that are called from the loop's queue.
\<close>

datatype conn_note = Connection bool | Message string | Close | WriteComplete | HighWaterMark nat

text \<open>
  What a callback, or any other code, does to a connection. \<open>Consume n\<close> retrieves up to \<open>n\<close> bytes of the input buffer.
\<close>

datatype user_call =
    Send write_result string
  | Shutdown
  | ForceClose
  | ForceCloseWithDelay
  | StartRead
  | StopRead
  | Consume nat

text \<open>
  \<open>posted\<close> are the functors queued in the loop, \<open>delayed\<close> the timers of \<^verbatim>\<open>forceCloseWithDelay\<close>, \<open>halfClosed\<close> tells
  that \<^verbatim>\<open>shutdownWrite\<close> has been called. \<open>accepted\<close> are all bytes given to \<^verbatim>\<open>sendInLoop\<close> while the connection was up,
  \<open>sent\<close> those the socket has taken, \<open>received\<close> those read from it; \<open>faulted\<close> is set when a broken connection made
  \<^verbatim>\<open>sendInLoop\<close> drop bytes. \<open>racing\<close> are the calls in other threads that have read \<^verbatim>\<open>state_\<close> and are about to write it.
\<close>

record TcpConnection =
  state :: StateE
  reading :: bool
  channel :: Channel
  inputBuffer :: Buffer
  outputBuffer :: Buffer
  highWaterMark :: nat
  hasWriteComplete :: bool
  hasHighWaterMark :: bool
  halfClosed :: bool
  posted :: "conn_call list"
  racing :: "user_call list"
  delayed :: nat
  destroyed :: bool
  accepted :: string
  sent :: string
  received :: string
  faulted :: bool
  noted :: "conn_note list"

definition mkTcpConnection :: "int \<Rightarrow> TcpConnection res" where
  "mkTcpConnection sockfd =
    bindE (mkBuffer kInitialSize) (\<lambda>b.
    Inr \<lparr>state = kConnecting, reading = True,
      channel = setCallback ErrorCallback (setCallback CloseCallback (setCallback WriteCallback
        (setCallback ReadCallback (mkChannel sockfd)))),
      inputBuffer = b, outputBuffer = b, highWaterMark = 64 * 1024 * 1024,
      hasWriteComplete = False, hasHighWaterMark = False, halfClosed = False, posted = [], racing = [], delayed = 0,
      destroyed = False, accepted = [], sent = [], received = [], faulted = False, noted = []\<rparr>)"

definition connected :: "TcpConnection \<Rightarrow> bool" where
  "connected c \<longleftrightarrow> state c = kConnected"

definition disconnected :: "TcpConnection \<Rightarrow> bool" where
  "disconnected c \<longleftrightarrow> state c = kDisconnected"

definition setState :: "StateE \<Rightarrow> TcpConnection \<Rightarrow> TcpConnection" where
  "setState s c = c\<lparr>state := s\<rparr>"

definition setWriteCompleteCallback :: "TcpConnection \<Rightarrow> TcpConnection" where
  "setWriteCompleteCallback c = c\<lparr>hasWriteComplete := True\<rparr>"

definition setHighWaterMarkCallback :: "nat \<Rightarrow> TcpConnection \<Rightarrow> TcpConnection" where
  "setHighWaterMarkCallback mark c = c\<lparr>hasHighWaterMark := True, highWaterMark := mark\<rparr>"

definition stateToString :: "TcpConnection \<Rightarrow> string" where
  "stateToString c = (case state c of
       kDisconnected \<Rightarrow> ''kDisconnected'' | kConnecting \<Rightarrow> ''kConnecting''
     | kConnected \<Rightarrow> ''kConnected'' | kDisconnecting \<Rightarrow> ''kDisconnecting'')"

text \<open>The channel's operations, up to the registration with the poller.\<close>

definition ch_update :: "interest \<Rightarrow> TcpConnection \<Rightarrow> TcpConnection" where
  "ch_update i c = c\<lparr>channel := (set_interest i (channel c))\<lparr>addedToLoop := True\<rparr>\<rparr>"

definition ch_remove :: "TcpConnection \<Rightarrow> TcpConnection res" where
  "ch_remove c = bindE (assertE (isNoneEvent (channel c))) (\<lambda>_. Inr (c\<lparr>channel := (channel c)\<lparr>addedToLoop := False\<rparr>\<rparr>))"

definition queue :: "conn_call \<Rightarrow> TcpConnection \<Rightarrow> TcpConnection" where
  "queue f c = c\<lparr>posted := posted c @ [f]\<rparr>"

definition notify :: "conn_note \<Rightarrow> TcpConnection \<Rightarrow> TcpConnection" where
  "notify n c = c\<lparr>noted := noted c @ [n]\<rparr>"

section \<open>Sending\<close>

text \<open>
  If nothing waits in the output buffer, \<^verbatim>\<open>sendInLoop\<close> tries to write directly: \<open>w\<close> is what \<^verbatim>\<open>write\<close> returns, which
  takes at most the bytes offered. The result is \<^verbatim>\<open>nwrote\<close> and \<^verbatim>\<open>faultError\<close>.
\<close>

definition direct_write :: "write_result \<Rightarrow> string \<Rightarrow> TcpConnection \<Rightarrow> nat \<times> bool \<times> TcpConnection" where
  "direct_write w data c =
    (if \<not> isWriting (channel c) \<and> readableBytes (outputBuffer c) = 0
     then (case w of
         Wrote k \<Rightarrow>
           let n = min k (length data); c = c\<lparr>sent := sent c @ take n data\<rparr> in
           (n, False, if length data - n = 0 \<and> hasWriteComplete c then queue WriteCompleteCall c else c)
       | WriteErr e \<Rightarrow> (0, e \<noteq> EWOULDBLOCK \<and> (e = EPIPE \<or> e = ECONNRESET), c))
     else (0, False, c))"

text \<open>What was not written goes to the output buffer.\<close>

definition append_remaining :: "string \<Rightarrow> TcpConnection \<Rightarrow> TcpConnection res" where
  "append_remaining data c =
    (let remaining = length data;
         oldLen = readableBytes (outputBuffer c);
         c = (if oldLen + remaining \<ge> highWaterMark c \<and> oldLen < highWaterMark c \<and> hasHighWaterMark c
              then queue (HighWaterMarkCall (oldLen + remaining)) c else c) in
     bindE (append_bytes (outputBuffer c) data) (\<lambda>b.
     let c = c\<lparr>outputBuffer := b\<rparr> in
     Inr (if \<not> isWriting (channel c) then ch_update EnableWriting c else c)))"

definition sendInLoop :: "write_result \<Rightarrow> string \<Rightarrow> TcpConnection \<Rightarrow> TcpConnection res" where
  "sendInLoop w data c =
    (if state c = kDisconnected then Inr c
     else
       (case direct_write w data (c\<lparr>accepted := accepted c @ data\<rparr>) of (nwrote, faultError, c) \<Rightarrow>
        let remaining = length data - nwrote in
        bindE (assertE (remaining \<le> length data)) (\<lambda>_.
        if \<not> faultError \<and> remaining > 0 then append_remaining (drop nwrote data) c
        else Inr (if faultError then c\<lparr>faulted := True\<rparr> else c))))"

definition tc_send :: "bool \<Rightarrow> write_result \<Rightarrow> string \<Rightarrow> TcpConnection \<Rightarrow> TcpConnection res" where
  "tc_send inLoop w message c =
    (if state c = kConnected
     then if inLoop then sendInLoop w message c else Inr (queue (SendInLoop message) c)
     else Inr c)"

text \<open>\<^verbatim>\<open>send(Buffer*)\<close> also empties the caller's buffer.\<close>

definition tc_send_buffer :: "bool \<Rightarrow> write_result \<Rightarrow> Buffer \<Rightarrow> TcpConnection \<Rightarrow> (Buffer \<times> TcpConnection) res" where
  "tc_send_buffer inLoop w buf c =
    (if state c = kConnected
     then
       if inLoop
       then bindE (sendInLoop w (content buf) c) (\<lambda>c. Inr (retrieveAll buf, c))
       else bindE (retrieveAllAsString buf) (\<lambda>(message, buf). Inr (buf, queue (SendInLoop message) c))
     else Inr (buf, c))"

section \<open>Closing\<close>

definition shutdownInLoop :: "TcpConnection \<Rightarrow> TcpConnection" where
  "shutdownInLoop c = (if \<not> isWriting (channel c) then c\<lparr>halfClosed := True\<rparr> else c)"

text \<open>
  The three calls that start to close a connection test \<^verbatim>\<open>state_\<close>, and if it is right, store \<^verbatim>\<open>kDisconnecting\<close> and go on.
\<close>

definition shutdown_store :: "bool \<Rightarrow> TcpConnection \<Rightarrow> TcpConnection" where
  "shutdown_store inLoop c =
    (let c = setState kDisconnecting c in if inLoop then shutdownInLoop c else queue ShutdownInLoop c)"

definition tc_shutdown :: "bool \<Rightarrow> TcpConnection \<Rightarrow> TcpConnection" where
  "tc_shutdown inLoop c = (if state c = kConnected then shutdown_store inLoop c else c)"

definition forceClose_store :: "TcpConnection \<Rightarrow> TcpConnection" where
  "forceClose_store c = queue ForceCloseInLoop (setState kDisconnecting c)"

definition forceClose :: "TcpConnection \<Rightarrow> TcpConnection" where
  "forceClose c = (if state c = kConnected \<or> state c = kDisconnecting then forceClose_store c else c)"

definition forceCloseWithDelay_store :: "TcpConnection \<Rightarrow> TcpConnection" where
  "forceCloseWithDelay_store c = (setState kDisconnecting c)\<lparr>delayed := delayed c + 1\<rparr>"

definition forceCloseWithDelay :: "TcpConnection \<Rightarrow> TcpConnection" where
  "forceCloseWithDelay c = (if state c = kConnected \<or> state c = kDisconnecting then forceCloseWithDelay_store c else c)"

text \<open>From another thread the two halves are steps of their own.\<close>

definition close_test :: "user_call \<Rightarrow> TcpConnection \<Rightarrow> bool" where
  "close_test u c = (case u of
       Shutdown \<Rightarrow> state c = kConnected
     | ForceClose \<Rightarrow> state c = kConnected \<or> state c = kDisconnecting
     | ForceCloseWithDelay \<Rightarrow> state c = kConnected \<or> state c = kDisconnecting
     | _ \<Rightarrow> False)"

definition begin_close :: "user_call \<Rightarrow> TcpConnection \<Rightarrow> TcpConnection" where
  "begin_close u c = (if close_test u c then c\<lparr>racing := racing c @ [u]\<rparr> else c)"

definition close_store :: "user_call \<Rightarrow> TcpConnection \<Rightarrow> TcpConnection" where
  "close_store u c = (case u of
       Shutdown \<Rightarrow> shutdown_store False c
     | ForceClose \<Rightarrow> forceClose_store c
     | ForceCloseWithDelay \<Rightarrow> forceCloseWithDelay_store c
     | _ \<Rightarrow> c)"

definition startReadInLoop :: "TcpConnection \<Rightarrow> TcpConnection" where
  "startReadInLoop c =
    (if \<not> reading c \<or> \<not> isReading (channel c) then (ch_update EnableReading c)\<lparr>reading := True\<rparr> else c)"

definition stopReadInLoop :: "TcpConnection \<Rightarrow> TcpConnection" where
  "stopReadInLoop c =
    (if reading c \<or> isReading (channel c) then (ch_update DisableReading c)\<lparr>reading := False\<rparr> else c)"

definition startRead :: "bool \<Rightarrow> TcpConnection \<Rightarrow> TcpConnection" where
  "startRead inLoop c = (if inLoop then startReadInLoop c else queue StartReadInLoop c)"

definition stopRead :: "bool \<Rightarrow> TcpConnection \<Rightarrow> TcpConnection" where
  "stopRead inLoop c = (if inLoop then stopReadInLoop c else queue StopReadInLoop c)"

section \<open>User code\<close>

definition user_call :: "bool \<Rightarrow> TcpConnection \<Rightarrow> user_call \<Rightarrow> TcpConnection res" where
  "user_call inLoop c u = (case u of
       Send w message \<Rightarrow> tc_send inLoop w message c
     | Shutdown \<Rightarrow> Inr (if inLoop then tc_shutdown inLoop c else begin_close u c)
     | ForceClose \<Rightarrow> Inr (if inLoop then forceClose c else begin_close u c)
     | ForceCloseWithDelay \<Rightarrow> Inr (if inLoop then forceCloseWithDelay c else begin_close u c)
     | StartRead \<Rightarrow> Inr (startRead inLoop c)
     | StopRead \<Rightarrow> Inr (stopRead inLoop c)
     | Consume n \<Rightarrow>
         bindE (retrieve (inputBuffer c) (min n (readableBytes (inputBuffer c)))) (\<lambda>b. Inr (c\<lparr>inputBuffer := b\<rparr>)))"

abbreviation user_code :: "user_call list \<Rightarrow> TcpConnection \<Rightarrow> TcpConnection res" where
  "user_code us c \<equiv> foldE (user_call True) c us"

section \<open>Handlers\<close>

text \<open>\<open>up\<close> and \<open>down\<close> are what the connection callback does when the connection comes up and goes down.\<close>

definition connectEstablished :: "user_call list \<Rightarrow> TcpConnection \<Rightarrow> TcpConnection res" where
  "connectEstablished up c =
    bindE (assertE (state c = kConnecting)) (\<lambda>_.
    let c = setState kConnected c;
        c = c\<lparr>channel := tie (channel c)\<rparr>;
        c = ch_update EnableReading c in
    user_code up (notify (Connection (connected c)) c))"

definition connectDestroyed :: "user_call list \<Rightarrow> TcpConnection \<Rightarrow> TcpConnection res" where
  "connectDestroyed down c =
    bindE
      (if state c = kConnected
       then
         let c = ch_update DisableAll (setState kDisconnected c) in
         user_code down (notify (Connection (connected c)) c)
       else Inr c) (\<lambda>c.
    bindE (ch_remove c) (\<lambda>c. Inr (c\<lparr>destroyed := True\<rparr>)))"

definition handleClose :: "user_call list \<Rightarrow> TcpConnection \<Rightarrow> TcpConnection res" where
  "handleClose down c =
    bindE (assertE (state c = kConnected \<or> state c = kDisconnecting)) (\<lambda>_.
    let c = ch_update DisableAll (setState kDisconnected c) in
    bindE (user_code down (notify (Connection (connected c)) c)) (\<lambda>c.
    Inr (notify Close c)))"

definition forceCloseInLoop :: "user_call list \<Rightarrow> TcpConnection \<Rightarrow> TcpConnection res" where
  "forceCloseInLoop down c =
    (if state c = kConnected \<or> state c = kDisconnecting then handleClose down c else Inr c)"

text \<open>\<open>msg\<close> is what the message callback does.\<close>

definition tc_handleRead :: "(nat \<Rightarrow> readv_result) \<Rightarrow> user_call list \<Rightarrow> user_call list \<Rightarrow> TcpConnection \<Rightarrow> TcpConnection res" where
  "tc_handleRead readv msg down c =
    bindE (readFd readv (inputBuffer c)) (\<lambda>(n, savedErrno, b).
    let c = c\<lparr>inputBuffer := b, received := received c @ drop (readableBytes (inputBuffer c)) (content b)\<rparr> in
    if n > 0 then user_code msg (notify (Message (content b)) c)
    else if n = 0 then handleClose down c
    else Inr c)"

definition handleWrite :: "write_result \<Rightarrow> TcpConnection \<Rightarrow> TcpConnection res" where
  "handleWrite w c =
    (if isWriting (channel c)
     then
       case w of
         Wrote k \<Rightarrow>
           let n = min k (readableBytes (outputBuffer c)) in
           if n > 0
           then
             let c = c\<lparr>sent := sent c @ take n (content (outputBuffer c))\<rparr> in
             bindE (retrieve (outputBuffer c) n) (\<lambda>b.
             let c = c\<lparr>outputBuffer := b\<rparr> in
             if readableBytes b = 0
             then
               let c = ch_update DisableWriting c;
                   c = (if hasWriteComplete c then queue WriteCompleteCall c else c) in
               Inr (if state c = kDisconnecting then shutdownInLoop c else c)
             else Inr c)
           else Inr c
       | WriteErr e \<Rightarrow> Inr c
     else Inr c)"


text \<open>
  \<^verbatim>\<open>Channel::handleEvent\<close> with the callbacks of the connection, and the functors the loop runs.
\<close>

record io =
  io_readv :: "nat \<Rightarrow> readv_result"
  io_write :: write_result
  io_message :: "user_call list"
  io_down :: "user_call list"

definition conn_callback :: "io \<Rightarrow> TcpConnection \<Rightarrow> callback \<Rightarrow> TcpConnection res" where
  "conn_callback i c cb = (case cb of
       ReadCallback \<Rightarrow> tc_handleRead (io_readv i) (io_message i) (io_down i) c
     | WriteCallback \<Rightarrow> handleWrite (io_write i) c
     | CloseCallback \<Rightarrow> handleClose (io_down i) c
     | ErrorCallback \<Rightarrow> Inr c)"

definition dispatch :: "32 word \<Rightarrow> io \<Rightarrow> TcpConnection \<Rightarrow> TcpConnection res" where
  "dispatch revt i c = foldE (conn_callback i) c (handleEvent True (set_revents revt (channel c)))"

definition run_posted :: "io \<Rightarrow> TcpConnection \<Rightarrow> TcpConnection res" where
  "run_posted i c = (case posted c of
       [] \<Rightarrow> Inr c
     | f # fs \<Rightarrow> let c = c\<lparr>posted := fs\<rparr> in
         (case f of
            SendInLoop message \<Rightarrow> sendInLoop (io_write i) message c
          | ShutdownInLoop \<Rightarrow> Inr (shutdownInLoop c)
          | ForceCloseInLoop \<Rightarrow> forceCloseInLoop (io_down i) c
          | StartReadInLoop \<Rightarrow> Inr (startReadInLoop c)
          | StopReadInLoop \<Rightarrow> Inr (stopReadInLoop c)
          | WriteCompleteCall \<Rightarrow> user_code (io_message i) (notify WriteComplete c)
          | HighWaterMarkCall n \<Rightarrow> user_code (io_message i) (notify (HighWaterMark n) c)))"

section \<open>Events\<close>

datatype conn_event =
    Establish "user_call list"
  | Dispatch "32 word" io
  | Posted io
  | User bool user_call
  | CloseStore user_call
  | Delayed
  | Destroy "user_call list"

definition conn_event :: "TcpConnection \<Rightarrow> conn_event \<Rightarrow> TcpConnection res" where
  "conn_event c e = (case e of
       Establish up \<Rightarrow> connectEstablished up c
     | Dispatch revt i \<Rightarrow> dispatch revt i c
     | Posted i \<Rightarrow> run_posted i c
     | User inLoop u \<Rightarrow> user_call inLoop c u
     | CloseStore u \<Rightarrow> Inr (close_store u (c\<lparr>racing := remove1 u (racing c)\<rparr>))
     | Delayed \<Rightarrow> Inr (forceClose (c\<lparr>delayed := delayed c - 1\<rparr>))
     | Destroy down \<Rightarrow> connectDestroyed down c)"

definition up :: "TcpConnection \<Rightarrow> bool" where
  "up c \<longleftrightarrow> state c = kConnected \<or> state c = kDisconnecting"

definition quiet :: "user_call list \<Rightarrow> bool" where
  "quiet us \<longleftrightarrow> StartRead \<notin> set us \<and> StopRead \<notin> set us"

text \<open>
  What the kernel is trusted with: it reports a hang-up without readable data only if there is nothing urgent to read and
  no half-close either.
\<close>

definition kernel_events :: "32 word \<Rightarrow> bool" where
  "kernel_events revt \<longleftrightarrow> has revt POLLIN \<or> \<not> has revt POLLHUP \<or> \<not> has revt (POLLIN OR POLLPRI OR POLLRDHUP)"

text \<open>
  The contract, when the library and its user may cause an event. A connection is established once, before anything else.
  The poller reports it only while some event is wanted. Reading is not started or stopped on a closed connection, nor by
  the connection callback when it goes down. A thread that has found the connection up in \<^verbatim>\<open>shutdown\<close>, \<^verbatim>\<open>forceClose\<close> or
  \<^verbatim>\<open>forceCloseWithDelay\<close> stores \<^verbatim>\<open>kDisconnecting\<close> before the loop closes the connection. And it is destroyed once, after it was closed or
  while it is connected.
\<close>

definition allowed :: "TcpConnection \<Rightarrow> conn_event \<Rightarrow> bool" where
  "allowed c e = (case e of
       Establish us \<Rightarrow> state c = kConnecting
     | Dispatch revt i \<Rightarrow> \<not> isNoneEvent (channel c) \<and> kernel_events revt \<and> quiet (io_down i)
     | Posted i \<Rightarrow> posted c \<noteq> [] \<and> quiet (io_down i) \<and>
         (up c \<or> quiet (io_message i) \<and> hd (posted c) \<noteq> StartReadInLoop \<and> hd (posted c) \<noteq> StopReadInLoop)
     | User inLoop u \<Rightarrow> state c \<noteq> kConnecting \<and> (up c \<or> \<not> inLoop \<or> quiet [u])
     | CloseStore u \<Rightarrow> u \<in> set (racing c) \<and> up c
     | Delayed \<Rightarrow> 0 < delayed c
     | Destroy us \<Rightarrow> quiet us \<and> \<not> destroyed c \<and> (state c = kConnected \<or> state c = kDisconnected))"

inductive conn_reach :: "TcpConnection \<Rightarrow> bool" where
  conn_new: "mkTcpConnection fd = Inr c \<Longrightarrow> conn_reach (c\<lparr>hasWriteComplete := wc, hasHighWaterMark := hw, highWaterMark := mark\<rparr>)"
| conn_next: "conn_reach c \<Longrightarrow> allowed c e \<Longrightarrow> conn_event c e = Inr c' \<Longrightarrow> conn_reach c'"

section \<open>Invariant\<close>

definition connections :: "conn_note list \<Rightarrow> bool list" where
  "connections ns = concat (map (\<lambda>n. case n of Connection b \<Rightarrow> [b] | _ \<Rightarrow> []) ns)"

text \<open>
  While the connection is up, writing is watched exactly when output is waiting; when it is down, nothing is watched. The
  connection callback has been called once with up and once with down, and the close callback at most once, when down.
\<close>

definition conn_inv :: "TcpConnection \<Rightarrow> bool" where
  "conn_inv c \<longleftrightarrow> binv (inputBuffer c) \<and> binv (outputBuffer c) \<and> event_ok (channel c) \<and> callbacks (channel c) = UNIV
    \<and> (faulted c \<or> sent c @ content (outputBuffer c) = accepted c)
    \<and> (case state c of
         kConnecting \<Rightarrow> isNoneEvent (channel c) \<and> content (outputBuffer c) = [] \<and> posted c = [] \<and> delayed c = 0
           \<and> \<not> destroyed c \<and> connections (noted c) = [] \<and> count_list (noted c) Close = 0
       | kDisconnected \<Rightarrow> isNoneEvent (channel c) \<and> (destroyed c \<longrightarrow> \<not> addedToLoop (channel c))
           \<and> connections (noted c) = [True, False] \<and> count_list (noted c) Close \<le> 1
       | _ \<Rightarrow> isWriting (channel c) = (content (outputBuffer c) \<noteq> []) \<and> \<not> destroyed c
           \<and> connections (noted c) = [True] \<and> count_list (noted c) Close = 0)"

lemma connections_append [simp]: "connections (xs @ ys) = connections xs @ connections ys"
  by (simp add: connections_def)

lemma connections_one [simp]:
  "connections [] = []" "connections [Connection b] = [b]" "connections [Message s] = []" "connections [Close] = []"
  "connections [WriteComplete] = []" "connections [HighWaterMark n] = []"
  by (simp_all add: connections_def)

lemma masks [simp]:
  assumes "event_ok ch"
  shows "isWriting (set_interest EnableReading ch) = isWriting ch" "isWriting (set_interest DisableReading ch) = isWriting ch"
    "isWriting (set_interest EnableWriting ch)" "\<not> isWriting (set_interest DisableWriting ch)"
    "isNoneEvent (set_interest DisableAll ch)" "\<not> isNoneEvent (set_interest EnableReading ch)"
proof -
  obtain r w where m: "events ch = mask_of r w" using assms by (auto simp: event_ok_iff)
  note s = set_interest_mask [OF m]
  show "isWriting (set_interest EnableReading ch) = isWriting ch" "isWriting (set_interest DisableReading ch) = isWriting ch"
    "isWriting (set_interest EnableWriting ch)" "\<not> isWriting (set_interest DisableWriting ch)"
    "isNoneEvent (set_interest DisableAll ch)" "\<not> isNoneEvent (set_interest EnableReading ch)"
    by (simp_all add: isWriting_def isNoneEvent_def s m)
qed

lemma interest_fields [simp]:
  "addedToLoop (set_interest i ch) = addedToLoop ch" "callbacks (set_interest i ch) = callbacks ch"
  "isWriting (ch\<lparr>addedToLoop := b\<rparr>) = isWriting ch" "isNoneEvent (ch\<lparr>addedToLoop := b\<rparr>) = isNoneEvent ch"
  "isReading (ch\<lparr>addedToLoop := b\<rparr>) = isReading ch" "event_ok (ch\<lparr>addedToLoop := b\<rparr>) = event_ok ch"
  "isWriting (tie ch) = isWriting ch" "isNoneEvent (tie ch) = isNoneEvent ch" "event_ok (tie ch) = event_ok ch"
  "callbacks (tie ch) = callbacks ch"
  by (simp_all add: set_interest_def isWriting_def isNoneEvent_def isReading_def event_ok_def tie_def)

lemma none_not_writing: "isNoneEvent ch \<Longrightarrow> \<not> isWriting ch"
  by (simp add: isNoneEvent_def isWriting_def has_def kNoneEvent_def)

lemma readable_content: "binv b \<Longrightarrow> readableBytes b = length (content b)"
  by simp

text \<open>Fields the invariant does not mention.\<close>

lemma conn_inv_fields [simp]:
  "conn_inv (c\<lparr>halfClosed := h\<rparr>) = conn_inv c" "conn_inv (c\<lparr>reading := b\<rparr>) = conn_inv c"
  "conn_inv (c\<lparr>received := r\<rparr>) = conn_inv c" "conn_inv (c\<lparr>racing := us\<rparr>) = conn_inv c"
  "state c \<noteq> kConnecting \<Longrightarrow> conn_inv (c\<lparr>posted := p\<rparr>) = conn_inv c"
  "state c \<noteq> kConnecting \<Longrightarrow> conn_inv (c\<lparr>delayed := d\<rparr>) = conn_inv c"
  by (simp_all add: conn_inv_def split: StateE.splits)

section \<open>The operations keep the invariant\<close>

text \<open>What user code does not change: whether the connection is up or down, and what has been noted.\<close>

definition steady :: "TcpConnection \<Rightarrow> TcpConnection \<Rightarrow> bool" where
  "steady c c' \<longleftrightarrow> up c' = up c \<and> (state c' = kDisconnected) = (state c = kDisconnected) \<and> noted c' = noted c
    \<and> destroyed c' = destroyed c \<and> (state c' = kConnected \<longrightarrow> state c = kConnected)"

lemma steady_refl [simp]: "steady c c"
  by (simp add: steady_def)

lemma steady_trans: "steady a b \<Longrightarrow> steady b c \<Longrightarrow> steady a c"
  by (auto simp: steady_def)

lemma up_not_connecting: "up c \<Longrightarrow> state c \<noteq> kConnecting"
  by (auto simp: up_def)

lemma not_connecting_iff: "state c \<noteq> kConnecting \<longleftrightarrow> up c \<or> state c = kDisconnected"
  by (cases "state c") (simp_all add: up_def)

lemma steady_not_connecting: "steady c c' \<Longrightarrow> state c \<noteq> kConnecting \<Longrightarrow> state c' \<noteq> kConnecting"
  unfolding not_connecting_iff by (auto simp: steady_def)

lemma conn_inv_up:
  assumes "conn_inv c" "up c"
  shows "isWriting (channel c) = (content (outputBuffer c) \<noteq> [])"
  using assms by (auto simp: conn_inv_def up_def)

lemma queue_fields [simp]:
  "state (queue f c) = state c" "channel (queue f c) = channel c" "inputBuffer (queue f c) = inputBuffer c"
  "outputBuffer (queue f c) = outputBuffer c" "accepted (queue f c) = accepted c" "sent (queue f c) = sent c"
  "faulted (queue f c) = faulted c" "noted (queue f c) = noted c" "destroyed (queue f c) = destroyed c"
  "highWaterMark (queue f c) = highWaterMark c" "hasHighWaterMark (queue f c) = hasHighWaterMark c"
  "posted (queue f c) = posted c @ [f]" "delayed (queue f c) = delayed c" "halfClosed (queue f c) = halfClosed c"
  "hasWriteComplete (queue f c) = hasWriteComplete c"
  by (simp_all add: queue_def)

lemma conn_inv_queue: "state c \<noteq> kConnecting \<Longrightarrow> conn_inv (queue f c) = conn_inv c"
  by (simp add: queue_def)

text \<open>Appending what the socket did not take, and writing directly.\<close>

definition same_but :: "TcpConnection \<Rightarrow> TcpConnection \<Rightarrow> bool" where
  "same_but c0 c \<longleftrightarrow> noted c = noted c0 \<and> destroyed c = destroyed c0 \<and> state c = state c0 \<and> inputBuffer c = inputBuffer c0
    \<and> channel c = channel c0 \<and> outputBuffer c = outputBuffer c0 \<and> faulted c = faulted c0 \<and> halfClosed c = halfClosed c0"

lemma same_but_inv:
  assumes "conn_inv c0" "up c0" "same_but c0 c" "faulted c \<or> sent c @ content (outputBuffer c) = accepted c"
  shows "conn_inv c" "steady c0 c"
  using assms by (auto simp: conn_inv_def up_def same_but_def steady_def split: StateE.splits)

lemma append_output:
  assumes "conn_inv c0" "up c0" "same_but c0 c" "rest \<noteq> []" "faulted c0 \<or> sent c @ content (outputBuffer c0) @ rest = accepted c"
  shows "\<exists>c'. bindE (append_bytes (outputBuffer c) rest) (\<lambda>b. let c = c\<lparr>outputBuffer := b\<rparr> in
      Inr (if \<not> isWriting (channel c) then ch_update EnableWriting c else c)) = Inr c' \<and> conn_inv c' \<and> steady c0 c'
      \<and> accepted c' = accepted c \<and> halfClosed c' = halfClosed c"
proof -
  have b: "binv (outputBuffer c)" "event_ok (channel c)" using assms by (simp_all add: conn_inv_def same_but_def)
  obtain b' where b': "append_bytes (outputBuffer c) rest = Inr b'" "binv b'" "content b' = content (outputBuffer c) @ rest"
    using bb.append_law [OF b(1), of rest] by (auto simp: okE_iff)
  show ?thesis
    using assms b b' event_ok_step [OF b(2)]
    by (auto simp: conn_inv_def up_def steady_def ch_update_def Let_def same_but_def split: StateE.splits)
qed

lemma append_remaining_ok:
  assumes "conn_inv c0" "up c0" "same_but c0 c" "rest \<noteq> []" "faulted c0 \<or> sent c @ content (outputBuffer c0) @ rest = accepted c"
  shows "\<exists>c'. append_remaining rest c = Inr c' \<and> conn_inv c' \<and> steady c0 c' \<and> accepted c' = accepted c \<and> halfClosed c' = halfClosed c"
proof -
  have q: "same_but c0 (queue f c)" for f using assms(3) by (simp add: same_but_def)
  have a: "faulted c0 \<or> sent (queue f c) @ content (outputBuffer c0) @ rest = accepted (queue f c)" for f using assms(5) by simp
  show ?thesis
    using append_output [OF assms] append_output [OF assms(1,2) q assms(4) a]
    unfolding append_remaining_def Let_def by simp
qed

lemma direct_write_ok:
  assumes "conn_inv c0" "up c0" "same_but c0 c" "faulted c0 \<or> sent c @ content (outputBuffer c0) @ data = accepted c"
    and "direct_write w data c = (n, fault, c')"
  shows "same_but c0 c'" "accepted c' = accepted c" "n \<le> length data" "fault \<Longrightarrow> n = 0"
    "faulted c0 \<or> sent c' @ content (outputBuffer c0) @ drop n data = accepted c'"
proof -
  have b: "binv (outputBuffer c)" "outputBuffer c = outputBuffer c0" using assms(1,3) by (simp_all add: conn_inv_def same_but_def)
  have *: "same_but c0 c' \<and> accepted c' = accepted c \<and> n \<le> length data \<and> (fault \<longrightarrow> n = 0)
    \<and> (faulted c0 \<or> sent c' @ content (outputBuffer c0) @ drop n data = accepted c')"
  proof (cases "\<not> isWriting (channel c) \<and> readableBytes (outputBuffer c) = 0")
    case False
    then have "n = 0" "\<not> fault" "c' = c" using assms(5) unfolding direct_write_def by auto
    with assms(3,4) show ?thesis by simp
  next
    case True
    then have e: "content (outputBuffer c0) = []" using readable_content [OF b(1)] b(2) by simp
    show ?thesis
    proof (cases w)
      case (Wrote k)
      let ?c = "c\<lparr>sent := sent c @ take (min k (length data)) data\<rparr>"
      have n: "n = min k (length data)" "\<not> fault" "c' = ?c \<or> c' = queue WriteCompleteCall ?c"
        using assms(5) True Wrote by (auto simp: direct_write_def Let_def split: if_splits)
      have f: "same_but c0 c'" "accepted c' = accepted c" "sent c' = sent c @ take n data"
        using n assms(3) by (auto simp: same_but_def)
      show ?thesis using n(1,2) f assms(4) e by simp
    next
      case (WriteErr k)
      then have "n = 0" "c' = c" using assms(5) True by (simp_all add: direct_write_def)
      with assms(3,4) show ?thesis by simp
    qed
  qed
  then show "same_but c0 c'" "accepted c' = accepted c" "n \<le> length data" "fault \<Longrightarrow> n = 0"
    "faulted c0 \<or> sent c' @ content (outputBuffer c0) @ drop n data = accepted c'" by blast+
qed

lemma sendInLoop_ok:
  assumes "conn_inv c" "state c \<noteq> kConnecting"
  shows "\<exists>c'. sendInLoop w data c = Inr c' \<and> conn_inv c' \<and> steady c c' \<and> halfClosed c' = halfClosed c
    \<and> accepted c' = (if state c = kDisconnected then accepted c else accepted c @ data)"
proof (cases "state c = kDisconnected")
  case True
  with assms(1) show ?thesis by (simp add: sendInLoop_def)
next
  case False
  with assms(2) have u: "up c" by (cases "state c") (simp_all add: up_def)
  let ?c = "c\<lparr>accepted := accepted c @ data\<rparr>"
  obtain n fault c1 where d: "direct_write w data ?c = (n, fault, c1)" by (cases "direct_write w data ?c") auto
  have s: "same_but c ?c" "faulted c \<or> sent ?c @ content (outputBuffer c) @ data = accepted ?c"
    using assms(1) by (auto simp: same_but_def conn_inv_def)
  note w = direct_write_ok [OF assms(1) u s d]
  have h: "halfClosed c1 = halfClosed c" using w(1) by (simp add: same_but_def)
  show ?thesis
  proof (cases "fault \<or> n = length data")
    case True
    let ?c' = "if fault then c1\<lparr>faulted := True\<rparr> else c1"
    have r: "sendInLoop w data c = Inr ?c'" using False True d by (auto simp: sendInLoop_def Let_def)
    have i: "conn_inv ?c'" "steady c ?c'"
      using assms(1) u w True by (auto simp: conn_inv_def same_but_def steady_def up_def split: StateE.splits)
    show ?thesis using r i w(2) h False by (intro exI [of _ ?c']) simp
  next
    case nf: False
    then have "drop n data \<noteq> []" using w(3) by auto
    from append_remaining_ok [OF assms(1) u w(1) this w(5)] nf False d w(2,3) h show ?thesis
      by (auto simp: sendInLoop_def Let_def)
  qed
qed

text \<open>The other operations.\<close>

lemma tc_send_ok:
  assumes "conn_inv c" "state c \<noteq> kConnecting"
  shows "\<exists>c'. tc_send inLoop w message c = Inr c' \<and> conn_inv c' \<and> steady c c'"
proof (cases "state c = kConnected \<and> inLoop")
  case True
  with sendInLoop_ok [OF assms, of w message] show ?thesis by (auto simp: tc_send_def)
next
  case False
  with assms show ?thesis by (auto simp: tc_send_def conn_inv_queue steady_def up_def)
qed

lemma shutdownInLoop_ok:
  "conn_inv c \<Longrightarrow> conn_inv (shutdownInLoop c) \<and> steady c (shutdownInLoop c)"
  by (simp add: shutdownInLoop_def steady_def up_def)

lemma disconnecting_ok:
  assumes "conn_inv c" "up c"
  shows "conn_inv (setState kDisconnecting c) \<and> steady c (setState kDisconnecting c)"
  using assms by (auto simp: conn_inv_def up_def steady_def setState_def)

lemma halves_ok:
  assumes "conn_inv c" "up c"
  shows "conn_inv (shutdown_store inLoop c) \<and> steady c (shutdown_store inLoop c)"
    "conn_inv (forceClose_store c) \<and> steady c (forceClose_store c)"
    "conn_inv (forceCloseWithDelay_store c) \<and> steady c (forceCloseWithDelay_store c)"
proof -
  note d = disconnecting_ok [OF assms]
  have n: "state (setState kDisconnecting c) \<noteq> kConnecting" by (simp add: setState_def)
  have q: "conn_inv (queue f (setState kDisconnecting c)) \<and> steady c (queue f (setState kDisconnecting c))" for f
    using d n by (simp add: conn_inv_queue steady_def up_def)
  show "conn_inv (shutdown_store inLoop c) \<and> steady c (shutdown_store inLoop c)"
    using d q shutdownInLoop_ok [of "setState kDisconnecting c"] steady_trans by (auto simp: shutdown_store_def Let_def)
  show "conn_inv (forceClose_store c) \<and> steady c (forceClose_store c)" using q by (simp add: forceClose_store_def)
  have "conn_inv ((setState kDisconnecting c)\<lparr>delayed := k\<rparr>) \<and> steady c ((setState kDisconnecting c)\<lparr>delayed := k\<rparr>)" for k
    using d n by (simp add: steady_def up_def)
  then show "conn_inv (forceCloseWithDelay_store c) \<and> steady c (forceCloseWithDelay_store c)"
    by (simp add: forceCloseWithDelay_store_def)
qed

lemma tc_shutdown_ok:
  assumes "conn_inv c"
  shows "conn_inv (tc_shutdown inLoop c) \<and> steady c (tc_shutdown inLoop c)"
  using halves_ok(1) [OF assms, of inLoop] assms by (simp add: tc_shutdown_def up_def)

lemma forceClose_ok:
  assumes "conn_inv c"
  shows "conn_inv (forceClose c) \<and> steady c (forceClose c)"
  using halves_ok(2) [OF assms] assms by (simp add: forceClose_def up_def)

lemma forceCloseWithDelay_ok:
  assumes "conn_inv c"
  shows "conn_inv (forceCloseWithDelay c) \<and> steady c (forceCloseWithDelay c)"
  using halves_ok(3) [OF assms] assms by (simp add: forceCloseWithDelay_def up_def)

lemma begin_close_ok: "conn_inv c \<Longrightarrow> conn_inv (begin_close u c) \<and> steady c (begin_close u c)"
  by (simp add: begin_close_def steady_def up_def)

lemma close_store_ok:
  assumes "conn_inv c" "up c"
  shows "conn_inv (close_store u c) \<and> steady c (close_store u c)"
  using halves_ok [OF assms] assms by (cases u) (simp_all add: close_store_def)

lemma ch_update_read:
  assumes "conn_inv c" "up c" "i = EnableReading \<or> i = DisableReading"
  shows "conn_inv ((ch_update i c)\<lparr>reading := b\<rparr>) \<and> steady c ((ch_update i c)\<lparr>reading := b\<rparr>)"
proof -
  have e: "event_ok (channel c)" using assms(1) by (simp add: conn_inv_def)
  have "isWriting (set_interest i (channel c)) = isWriting (channel c)" using assms(3) e by auto
  then show ?thesis using assms(1,2) event_ok_step [OF e, of i]
    by (auto simp: conn_inv_def up_def steady_def ch_update_def)
qed

lemma startRead_ok:
  assumes "conn_inv c" "up c \<or> \<not> inLoop" "state c \<noteq> kConnecting"
  shows "conn_inv (startRead inLoop c) \<and> steady c (startRead inLoop c)"
    "conn_inv (stopRead inLoop c) \<and> steady c (stopRead inLoop c)"
proof -
  have q: "conn_inv (queue f c) \<and> steady c (queue f c)" for f using assms(1,3) by (simp add: conn_inv_queue steady_def up_def)
  note r = ch_update_read [OF assms(1)]
  show "conn_inv (startRead inLoop c) \<and> steady c (startRead inLoop c)"
    using assms(1,2) q [of StartReadInLoop] r [of EnableReading True] by (auto simp: startRead_def startReadInLoop_def)
  show "conn_inv (stopRead inLoop c) \<and> steady c (stopRead inLoop c)"
    using assms(1,2) q [of StopReadInLoop] r [of DisableReading False] by (auto simp: stopRead_def stopReadInLoop_def)
qed

lemma conn_inv_input: "conn_inv c \<Longrightarrow> binv b \<Longrightarrow> conn_inv (c\<lparr>inputBuffer := b\<rparr>)"
  by (simp add: conn_inv_def split: StateE.splits)

lemma consume_ok:
  assumes "conn_inv c"
  shows "\<exists>c'. user_call inLoop c (Consume n) = Inr c' \<and> conn_inv c' \<and> steady c c'"
proof -
  have b: "binv (inputBuffer c)" using assms by (simp add: conn_inv_def)
  then obtain b' where "retrieve (inputBuffer c) (min n (readableBytes (inputBuffer c))) = Inr b'" "binv b'"
    using bb.retr_law [OF b, of "min n (readableBytes (inputBuffer c))"] by (auto simp: okE_iff)
  with conn_inv_input [OF assms] show ?thesis by (simp add: user_call_def steady_def up_def)
qed

lemma user_call_ok:
  assumes "conn_inv c" "state c \<noteq> kConnecting" "up c \<or> \<not> inLoop \<or> quiet [u]"
  shows "\<exists>c'. user_call inLoop c u = Inr c' \<and> conn_inv c' \<and> steady c c'"
proof (cases u)
  case (Send w message)
  with tc_send_ok [OF assms(1,2), of inLoop w message] show ?thesis by (simp add: user_call_def)
next
  case (Consume n)
  with consume_ok [OF assms(1)] show ?thesis by simp
next
  case StartRead
  with startRead_ok(1) [OF assms(1) _ assms(2), of inLoop] assms(3) show ?thesis by (simp add: user_call_def quiet_def)
next
  case StopRead
  with startRead_ok(2) [OF assms(1) _ assms(2), of inLoop] assms(3) show ?thesis by (simp add: user_call_def quiet_def)
qed (use tc_shutdown_ok [OF assms(1)] forceClose_ok [OF assms(1)] forceCloseWithDelay_ok [OF assms(1)]
    begin_close_ok [OF assms(1)] in \<open>simp_all add: user_call_def\<close>)

lemma user_code_ok:
  assumes "conn_inv c" "state c \<noteq> kConnecting" "up c \<or> quiet us"
  shows "\<exists>c'. user_code us c = Inr c' \<and> conn_inv c' \<and> steady c c'"
  using assms
proof (induction us arbitrary: c)
  case (Cons u us)
  have "up c \<or> \<not> True \<or> quiet [u]" using Cons.prems(3) by (auto simp: quiet_def)
  then obtain c1 where c1: "user_call True c u = Inr c1" "conn_inv c1" "steady c c1"
    using user_call_ok [OF Cons.prems(1,2)] by blast
  have "state c1 \<noteq> kConnecting" using steady_not_connecting [OF c1(3) Cons.prems(2)] .
  moreover have "up c1 \<or> quiet us" using c1(3) Cons.prems(3) by (auto simp: steady_def quiet_def)
  ultimately obtain c2 where "user_code us c1 = Inr c2" "conn_inv c2" "steady c1 c2" using Cons.IH [OF c1(2)] by blast
  with c1 show ?case using steady_trans [OF c1(3)] by auto
qed simp

section \<open>The handlers keep the invariant\<close>

lemma establish_ok:
  assumes "conn_inv c" "state c = kConnecting"
  shows "\<exists>c'. connectEstablished us c = Inr c' \<and> conn_inv c' \<and> up c'"
proof -
  have e: "event_ok (channel c)" "isNoneEvent (channel c)" using assms by (simp_all add: conn_inv_def)
  let ?c = "ch_update EnableReading ((setState kConnected c)\<lparr>channel := tie (channel c)\<rparr>)"
  have "conn_inv (notify (Connection True) ?c)" "up (notify (Connection True) ?c)"
    using assms e none_not_writing [OF e(2)] event_ok_step [of "tie (channel c)" EnableReading]
    by (auto simp: conn_inv_def notify_def ch_update_def setState_def up_def)
  then obtain c' where "user_code us (notify (Connection True) ?c) = Inr c'" "conn_inv c'" "steady (notify (Connection True) ?c) c'"
    using user_code_ok [of "notify (Connection True) ?c" us] up_not_connecting by blast
  moreover have "up c'" using calculation(3) \<open>up (notify (Connection True) ?c)\<close> by (simp add: steady_def)
  moreover have "connected ?c" by (simp add: connected_def setState_def ch_update_def)
  ultimately show ?thesis using assms(2) by (simp add: connectEstablished_def Let_def setState_def)
qed

text \<open>Going down, from \<^verbatim>\<open>handleClose\<close> and from \<^verbatim>\<open>connectDestroyed\<close>.\<close>

lemma down_ok:
  assumes "conn_inv c" "up c" "quiet down"
  shows "\<exists>c'. user_code down (notify (Connection False) (ch_update DisableAll (setState kDisconnected c))) = Inr c'
    \<and> conn_inv c' \<and> state c' = kDisconnected \<and> \<not> destroyed c' \<and> count_list (noted c') Close = 0"
proof -
  let ?c = "notify (Connection False) (ch_update DisableAll (setState kDisconnected c))"
  have e: "event_ok (channel c)" using assms(1) by (simp add: conn_inv_def)
  have n: "\<not> destroyed c" "count_list (noted c) Close = 0" using assms(1,2) by (auto simp: conn_inv_def up_def)
  have i: "conn_inv ?c" using assms e event_ok_step [OF e, of DisableAll]
    by (auto simp: conn_inv_def notify_def ch_update_def setState_def up_def)
  have d: "state ?c = kDisconnected" "destroyed ?c = destroyed c" "noted ?c = noted c @ [Connection False]"
    by (simp_all add: notify_def ch_update_def setState_def)
  then obtain c' where c': "user_code down ?c = Inr c'" "conn_inv c'" "steady ?c c'"
    using user_code_ok [OF i, of down] assms(3) by auto
  with d n show ?thesis by (auto simp: steady_def)
qed

lemma handleClose_ok:
  assumes "conn_inv c" "up c" "quiet down"
  shows "\<exists>c'. handleClose down c = Inr c' \<and> conn_inv c' \<and> state c' = kDisconnected"
proof -
  obtain c' where c': "user_code down (notify (Connection False) (ch_update DisableAll (setState kDisconnected c))) = Inr c'"
    "conn_inv c'" "state c' = kDisconnected" "count_list (noted c') Close = 0"
    using down_ok [OF assms] by blast
  have "\<not> connected (ch_update DisableAll (setState kDisconnected c))" by (simp add: connected_def setState_def ch_update_def)
  then have "handleClose down c = Inr (notify Close c')"
    using assms(2) c'(1) by (simp add: handleClose_def up_def Let_def)
  moreover have "conn_inv (notify Close c')" "state (notify Close c') = kDisconnected"
    using c'(2-4) by (simp_all add: conn_inv_def notify_def)
  ultimately show ?thesis by blast
qed

lemma tc_handleRead_ok:
  assumes "conn_inv c" "up c" "quiet down"
  shows "\<exists>c'. tc_handleRead readv msg down c = Inr c' \<and> conn_inv c' \<and> (up c' \<or> state c' = kDisconnected)"
proof (cases "readv (readv_capacity (inputBuffer c))")
  case (ReadvErr e)
  have "conn_inv (c\<lparr>inputBuffer := inputBuffer c, received := r\<rparr>)" "up (c\<lparr>inputBuffer := inputBuffer c, received := r\<rparr>)" for r
    using assms(1,2) by (simp_all add: up_def)
  then show ?thesis unfolding tc_handleRead_def readFd_error [of readv, OF ReadvErr] by (auto simp: Let_def)
next
  case (ReadvOk data)
  have b: "binv (inputBuffer c)" using assms(1) by (simp add: conn_inv_def)
  obtain b' where b': "readFd readv (inputBuffer c) = Inr (int (length data), None, b')" "binv b'"
    using readFd_data_ok [of "inputBuffer c" readv, OF b ReadvOk] by (auto simp: okE_iff)
  let ?c = "c\<lparr>inputBuffer := b', received := received c @ drop (readableBytes (inputBuffer c)) (content b')\<rparr>"
  have c: "conn_inv ?c" "up ?c" using conn_inv_input [OF assms(1) b'(2)] assms(2) by (simp_all add: up_def)
  show ?thesis
  proof (cases "data = []")
    case True
    with handleClose_ok [OF c assms(3)] b'(1) show ?thesis by (auto simp: tc_handleRead_def Let_def)
  next
    case False
    let ?m = "notify (Message (content b')) ?c"
    have m: "conn_inv ?m" "up ?m" using c by (auto simp: conn_inv_def notify_def up_def)
    then obtain c' where "user_code msg ?m = Inr c'" "conn_inv c'" "steady ?m c'"
      using user_code_ok [of ?m msg] up_not_connecting by blast
    with False m(2) b'(1) show ?thesis by (auto simp: tc_handleRead_def Let_def steady_def)
  qed
qed

lemma handleWrite_ok:
  assumes "conn_inv c" "state c \<noteq> kConnecting"
  shows "\<exists>c'. handleWrite w c = Inr c' \<and> conn_inv c' \<and> steady c c'"
proof (cases "isWriting (channel c) \<and> (\<exists>k. w = Wrote k \<and> min k (readableBytes (outputBuffer c)) > 0)")
  case False
  with assms(1) show ?thesis by (auto simp: handleWrite_def Let_def split: write_result.splits)
next
  case True
  then obtain k where k: "w = Wrote k" "min k (readableBytes (outputBuffer c)) > 0" by blast
  define n where "n = min k (readableBytes (outputBuffer c))"
  have "\<not> isNoneEvent (channel c)" using True none_not_writing by blast
  then have u: "up c" using assms by (cases "state c") (auto simp: conn_inv_def up_def)
  have b: "binv (outputBuffer c)" "event_ok (channel c)" using assms(1) by (simp_all add: conn_inv_def)
  have "n \<le> length (content (outputBuffer c))" using b(1) by (simp add: n_def)
  then obtain b' where b': "retrieve (outputBuffer c) n = Inr b'" "binv b'" "content b' = drop n (content (outputBuffer c))"
    using bb.retr_law [OF b(1)] by (auto simp: okE_iff)
  let ?c = "c\<lparr>sent := sent c @ take n (content (outputBuffer c)), outputBuffer := b'\<rparr>"
  have l: "readableBytes b' = length (content b')" using b'(2) by simp
  show ?thesis
  proof (cases "content b' = []")
    case False
    have "conn_inv ?c" "steady c ?c" using assms(1) u True b'(2,3) False by (auto simp: conn_inv_def up_def steady_def)
    moreover have "handleWrite w c = Inr ?c"
      using True k b'(1) l False by (simp add: handleWrite_def n_def [symmetric] Let_def)
    ultimately show ?thesis by blast
  next
    case empty: True
    let ?d = "ch_update DisableWriting ?c"
    let ?q = "if hasWriteComplete c then queue WriteCompleteCall ?d else ?d"
    have d: "conn_inv ?d" "steady c ?d" using assms(1) u b(2) b'(2,3) empty event_ok_step [OF b(2), of DisableWriting]
      by (auto simp: conn_inv_def up_def steady_def ch_update_def)
    have "state ?d \<noteq> kConnecting" using u by (auto simp: up_def ch_update_def)
    with d have q: "conn_inv ?q" "steady c ?q" by (auto simp: conn_inv_queue steady_def up_def)
    have "handleWrite w c = Inr (if state ?q = kDisconnecting then shutdownInLoop ?q else ?q)"
      using True k b'(1) l empty by (simp add: handleWrite_def n_def [symmetric] Let_def ch_update_def)
    with q shutdownInLoop_ok [OF q(1)] steady_trans [OF q(2)] show ?thesis by auto
  qed
qed

definition live_ok :: "TcpConnection \<Rightarrow> bool" where
  "live_ok c \<longleftrightarrow> conn_inv c \<and> state c \<noteq> kConnecting"

lemma live_ok_steady: "conn_inv c' \<Longrightarrow> steady c c' \<Longrightarrow> state c \<noteq> kConnecting \<Longrightarrow> live_ok c'"
  using steady_not_connecting by (auto simp: live_ok_def)

lemma tail_ok: "live_ok c \<Longrightarrow> set cbs \<subseteq> {ErrorCallback, WriteCallback} \<Longrightarrow> okE (foldE (conn_callback i) c cbs) live_ok"
proof (induction cbs arbitrary: c)
  case (Cons cb cbs)
  have "\<exists>c'. conn_callback i c cb = Inr c' \<and> live_ok c'"
    using Cons.prems handleWrite_ok [of c "io_write i"] live_ok_steady by (auto simp: conn_callback_def live_ok_def)
  with Cons show ?case by auto
qed simp

lemma dispatch_ok:
  assumes "conn_inv c" "up c" "kernel_events revt" "quiet (io_down i)"
  shows "okE (dispatch revt i c) live_ok"
proof -
  have l: "live_ok c" using assms(1,2) up_not_connecting by (auto simp: live_ok_def)
  define C where "C = (has revt POLLHUP \<and> \<not> has revt POLLIN)"
  define R where "R = has revt (POLLIN OR POLLPRI OR POLLRDHUP)"
  define E where "E = (if has revt (POLLERR OR POLLNVAL) then [ErrorCallback] else [])"
  define W where "W = (if has revt POLLOUT then [WriteCallback] else [])"
  have cb: "callbacks (channel c) = UNIV" using assms(1) by (simp add: conn_inv_def)
  have h: "handleEvent True (set_revents revt (channel c))
      = (if C then [CloseCallback] else []) @ E @ (if R then [ReadCallback] else []) @ W"
    using cb by (simp add: handleEvent_def handleEventWithGuard_def Let_def set_revents_def C_def E_def R_def W_def)
  have t: "set E \<subseteq> {ErrorCallback, WriteCallback}" "set W \<subseteq> {ErrorCallback, WriteCallback}" by (auto simp: E_def W_def)
  have E: "foldE (conn_callback i) c E = Inr c" for c by (simp add: E_def conn_callback_def)
  show ?thesis
  proof (cases C)
    case True
    then have "\<not> R" using assms(3) by (auto simp: kernel_events_def C_def R_def)
    then have s: "handleEvent True (set_revents revt (channel c)) = CloseCallback # E @ W" using h True by simp
    obtain c' where "handleClose (io_down i) c = Inr c'" "live_ok c'"
      using handleClose_ok [OF assms(1,2,4)] by (auto simp: live_ok_def)
    with tail_ok [of c' W i] t(2) show ?thesis by (simp add: dispatch_def s foldE_append E conn_callback_def)
  next
    case nc: False
    show ?thesis
    proof (cases R)
      case True
      then have s: "handleEvent True (set_revents revt (channel c)) = E @ ReadCallback # W" using h nc by simp
      obtain c' where c': "tc_handleRead (io_readv i) (io_message i) (io_down i) c = Inr c'" "live_ok c'"
        using tc_handleRead_ok [OF assms(1,2,4), of "io_readv i" "io_message i"] not_connecting_iff by (auto simp: live_ok_def)
      with tail_ok [of c' W i] t(2) show ?thesis by (simp add: dispatch_def s foldE_append E conn_callback_def)
    next
      case False
      then have s: "handleEvent True (set_revents revt (channel c)) = E @ W" using h nc by simp
      with tail_ok [OF l t(2)] show ?thesis by (simp add: dispatch_def foldE_append E)
    qed
  qed
qed

lemma notify_ok: "live_ok c \<Longrightarrow> connections [n] = [] \<Longrightarrow> n \<noteq> Close \<Longrightarrow> live_ok (notify n c)"
  by (auto simp: live_ok_def conn_inv_def notify_def split: StateE.splits)

lemma run_posted_ok:
  assumes "live_ok c" "quiet (io_down i)" "posted c = f # fs"
    and "up c \<or> quiet (io_message i) \<and> f \<noteq> StartReadInLoop \<and> f \<noteq> StopReadInLoop"
  shows "okE (run_posted i c) live_ok"
proof -
  let ?c = "c\<lparr>posted := fs\<rparr>"
  have c: "conn_inv ?c" "state ?c \<noteq> kConnecting" "up ?c = up c" "live_ok ?c"
    using assms(1) by (auto simp: live_ok_def up_def)
  have l: "live_ok c'" if "conn_inv c'" "steady ?c c'" for c' using live_ok_steady [OF that c(2)] .
  have u: "okE (user_code (io_message i) (notify n ?c)) live_ok" if n: "connections [n] = []" "n \<noteq> Close" "up c \<or> quiet (io_message i)" for n
  proof -
    have m: "conn_inv (notify n ?c)" "state (notify n ?c) \<noteq> kConnecting" using notify_ok [OF c(4) n(1,2)] by (simp_all add: live_ok_def)
    moreover have "up (notify n ?c) = up c" by (simp add: notify_def up_def)
    ultimately show ?thesis using user_code_ok [OF m, of "io_message i"] n(3) live_ok_steady by (auto simp: okE_iff)
  qed
  have r: "okE (case f of SendInLoop message \<Rightarrow> sendInLoop (io_write i) message ?c
     | ShutdownInLoop \<Rightarrow> Inr (shutdownInLoop ?c) | ForceCloseInLoop \<Rightarrow> forceCloseInLoop (io_down i) ?c
     | StartReadInLoop \<Rightarrow> Inr (startReadInLoop ?c) | StopReadInLoop \<Rightarrow> Inr (stopReadInLoop ?c)
     | WriteCompleteCall \<Rightarrow> user_code (io_message i) (notify WriteComplete ?c)
     | HighWaterMarkCall n \<Rightarrow> user_code (io_message i) (notify (HighWaterMark n) ?c)) live_ok"
  proof (cases f)
    case (SendInLoop message)
    then show ?thesis using sendInLoop_ok [OF c(1,2), of "io_write i" message] l by (auto simp: okE_iff)
  next
    case ShutdownInLoop
    then show ?thesis using shutdownInLoop_ok [OF c(1)] l by simp
  next
    case ForceCloseInLoop
    then show ?thesis using handleClose_ok [OF c(1) _ assms(2)] c by (auto simp: forceCloseInLoop_def okE_iff live_ok_def up_def)
  next
    case StartReadInLoop
    with assms(4) startRead_ok(1) [OF c(1) _ c(2), of True] c(3) l show ?thesis by (simp add: startRead_def)
  next
    case StopReadInLoop
    with assms(4) startRead_ok(2) [OF c(1) _ c(2), of True] c(3) l show ?thesis by (simp add: stopRead_def)
  next
    case WriteCompleteCall
    with u [of WriteComplete] assms(4) show ?thesis by simp
  next
    case (HighWaterMarkCall n)
    with u [of "HighWaterMark n"] assms(4) show ?thesis by simp
  qed
  then show ?thesis using assms(3) by (simp add: run_posted_def Let_def)
qed

lemma destroy_ok:
  assumes "conn_inv c" "quiet down" "state c = kConnected \<or> state c = kDisconnected"
  shows "okE (connectDestroyed down c) live_ok"
proof -
  have r: "okE (bindE (ch_remove c') (\<lambda>c. Inr (c\<lparr>destroyed := True\<rparr>))) live_ok" if "conn_inv c'" "state c' = kDisconnected" for c'
    using that by (simp add: ch_remove_def conn_inv_def live_ok_def)
  show ?thesis
  proof (cases "state c = kConnected")
    case True
    have "\<not> connected (ch_update DisableAll (setState kDisconnected c))" by (simp add: connected_def setState_def ch_update_def)
    with down_ok [OF assms(1) _ assms(2)] r True show ?thesis by (auto simp: connectDestroyed_def Let_def up_def)
  next
    case False
    with r [OF assms(1)] assms(3) show ?thesis by (simp add: connectDestroyed_def)
  qed
qed

lemma conn_event_ok:
  assumes "conn_inv c" "allowed c e"
  shows "okE (conn_event c e) live_ok"
proof (cases e)
  case (Establish us)
  with assms establish_ok [of c us] up_not_connecting show ?thesis by (auto simp: conn_event_def allowed_def okE_iff live_ok_def)
next
  case (Dispatch revt i)
  with assms have "\<not> isNoneEvent (channel c)" by (simp add: allowed_def)
  then have "up c" using assms(1) by (cases "state c") (auto simp: conn_inv_def up_def)
  with assms Dispatch dispatch_ok [of c revt i] show ?thesis by (simp add: conn_event_def allowed_def)
next
  case (Posted i)
  with assms have p: "posted c \<noteq> []" by (simp add: allowed_def)
  then have "state c \<noteq> kConnecting" using assms(1) by (auto simp: conn_inv_def)
  then have "live_ok c" using assms(1) by (simp add: live_ok_def)
  with assms Posted p run_posted_ok [of c i "hd (posted c)" "tl (posted c)"] show ?thesis by (simp add: conn_event_def allowed_def)
next
  case (User inLoop u)
  with assms have n: "state c \<noteq> kConnecting" "up c \<or> \<not> inLoop \<or> quiet [u]" by (auto simp: allowed_def)
  from user_call_ok [OF assms(1) n] live_ok_steady n(1) User show ?thesis by (auto simp: conn_event_def okE_iff)
next
  case (CloseStore u)
  then have u: "up (c\<lparr>racing := remove1 u (racing c)\<rparr>)" using assms(2) by (simp add: allowed_def up_def)
  have i: "conn_inv (c\<lparr>racing := remove1 u (racing c)\<rparr>)" using assms(1) by simp
  from close_store_ok [OF i u] live_ok_steady [OF _ _ up_not_connecting [OF u]] CloseStore show ?thesis by (simp add: conn_event_def)
next
  case Delayed
  then have "state c \<noteq> kConnecting" using assms by (auto simp: conn_inv_def allowed_def)
  then have d: "conn_inv (c\<lparr>delayed := delayed c - 1\<rparr>)" "state (c\<lparr>delayed := delayed c - 1\<rparr>) \<noteq> kConnecting" using assms(1) by simp_all
  from forceClose_ok [OF d(1)] live_ok_steady [OF _ _ d(2)] Delayed show ?thesis by (simp add: conn_event_def)
next
  case (Destroy us)
  with assms destroy_ok [of c us] show ?thesis by (simp add: conn_event_def allowed_def)
qed

lemma conn_new_ok:
  assumes "mkTcpConnection fd = Inr c"
  shows "conn_inv (c\<lparr>hasWriteComplete := wc, hasHighWaterMark := hw, highWaterMark := mark\<rparr>)"
proof -
  obtain b where b: "mkBuffer kInitialSize = Inr b" "binv b" "content b = []"
    using mkBuffer_ok [of kInitialSize] by (auto simp: okE_iff)
  have "callback = ReadCallback \<or> callback = WriteCallback \<or> callback = CloseCallback \<or> callback = ErrorCallback" for callback
    by (cases callback) simp_all
  then have "{ErrorCallback, CloseCallback, WriteCallback, ReadCallback} = UNIV" by auto
  then show ?thesis using assms b
    by (auto simp: mkTcpConnection_def conn_inv_def isNoneEvent_def setCallback_def mkChannel_def event_ok_def mask_simps)
qed

lemma conn_reach_inv: "conn_reach c \<Longrightarrow> conn_inv c"
proof (induction rule: conn_reach.induct)
  case (conn_new fd c wc hw mark)
  then show ?case by (rule conn_new_ok)
next
  case (conn_next c e c')
  with conn_event_ok [of c e] show ?case by (simp add: live_ok_def)
qed

text \<open>A connection that takes 2 of the 5 bytes it is given at once and is told to shut down; and one that is closed.\<close>

lemma busy_connection:
  "\<exists>c. conn_reach c \<and> state c = kDisconnecting \<and> isReading (channel c) \<and> content (outputBuffer c) = ''llo''
    \<and> sent c = ''he'' \<and> accepted c = ''hello'' \<and> \<not> faulted c \<and> \<not> halfClosed c \<and> posted c = []"
proof -
  obtain b where b: "mkBuffer kInitialSize = Inr b" "binv b" "content b = []"
    using mkBuffer_ok [of kInitialSize] by (auto simp: okE_iff)
  then obtain b' where b': "append_bytes b ''llo'' = Inr b'" "content b' = ''llo''" using bb.append_law [OF b(2), of "''llo''"] by (auto simp: okE_iff)
  have r: "readableBytes b = 0" using readable_content [OF b(2)] b(3) by simp
  obtain c where c: "mkTcpConnection 7 = Inr c" using b(1) by (simp add: mkTcpConnection_def)
  define c0 where "c0 = c\<lparr>hasWriteComplete := False, hasHighWaterMark := False, highWaterMark := 100\<rparr>"
  have r0: "conn_reach c0" unfolding c0_def by (rule conn_new [OF c])
  have f0: "state c0 = kConnecting" "events (channel c0) = 0" "outputBuffer c0 = b" "sent c0 = []" "accepted c0 = []" "\<not> faulted c0"
    "\<not> halfClosed c0" "posted c0 = []" "\<not> hasWriteComplete c0" "\<not> hasHighWaterMark c0"
    using c b(1) by (auto simp: c0_def mkTcpConnection_def setCallback_def mkChannel_def)
  define c1 where "c1 = notify (Connection True) (ch_update EnableReading ((setState kConnected c0)\<lparr>channel := tie (channel c0)\<rparr>))"
  have "conn_event c0 (Establish []) = Inr c1"
    using f0(1) by (simp add: conn_event_def connectEstablished_def c1_def Let_def connected_def setState_def ch_update_def)
  then have r1: "conn_reach c1" using conn_next [OF r0, of "Establish []"] f0(1) by (simp add: allowed_def)
  have f1: "state c1 = kConnected" "events (channel c1) = kReadEvent" "outputBuffer c1 = b" "sent c1 = []" "accepted c1 = []" "\<not> faulted c1"
    "\<not> halfClosed c1" "posted c1 = []" "\<not> hasWriteComplete c1" "\<not> hasHighWaterMark c1"
    using f0 by (simp_all add: c1_def notify_def ch_update_def setState_def tie_def set_interest_def)
  define c2 where "c2 = ch_update EnableWriting (c1\<lparr>accepted := ''hello'', sent := ''he'', outputBuffer := b'\<rparr>)"
  have nw: "\<not> isWriting (channel c1)" by (simp add: isWriting_def f1(2) mask_simps)
  have "conn_event c1 (User True (Send (Wrote 2) ''hello'')) = Inr c2"
    using f1 r b'(1) nw by (simp add: conn_event_def user_call_def tc_send_def sendInLoop_def direct_write_def append_remaining_def
        Let_def c2_def)
  then have r2: "conn_reach c2" using conn_next [OF r1, of "User True (Send (Wrote 2) ''hello'')"] f1(1) by (simp add: allowed_def up_def)
  have f2: "state c2 = kConnected" "events (channel c2) = kReadEvent OR kWriteEvent" "outputBuffer c2 = b'" "sent c2 = ''he''"
    "accepted c2 = ''hello''" "\<not> faulted c2" "\<not> halfClosed c2" "posted c2 = []"
    using f1 by (simp_all add: c2_def ch_update_def set_interest_def)
  have "conn_event c2 (User True Shutdown) = Inr (setState kDisconnecting c2)"
    using f2 by (simp add: conn_event_def user_call_def tc_shutdown_def shutdown_store_def shutdownInLoop_def Let_def setState_def
        isWriting_def mask_simps)
  then have "conn_reach (setState kDisconnecting c2)" using conn_next [OF r2, of "User True Shutdown"] f2(1) by (simp add: allowed_def up_def)
  with f2 b'(2) show ?thesis
    by (intro exI [of _ "setState kDisconnecting c2"]) (simp add: setState_def isReading_def mask_simps)
qed

lemma closed_connection: "\<exists>c. conn_reach c \<and> state c = kDisconnected"
proof -
  obtain c where c: "conn_reach c" "state c = kDisconnecting" "posted c = []" using busy_connection by blast
  let ?c = "queue ForceCloseInLoop (setState kDisconnecting c)"
  let ?i = "\<lparr>io_readv = (\<lambda>_. ReadvOk []), io_write = Wrote 0, io_message = [], io_down = []\<rparr>"
  have "conn_event c (User True ForceClose) = Inr ?c"
    using c(2) by (simp add: conn_event_def user_call_def forceClose_def forceClose_store_def)
  then have r: "conn_reach ?c" using conn_next [OF c(1), of "User True ForceClose"] c(2) by (simp add: allowed_def up_def)
  have p: "posted ?c = [ForceCloseInLoop]" using c(3) by (simp add: setState_def)
  have "up (?c\<lparr>posted := []\<rparr>)" "conn_inv (?c\<lparr>posted := []\<rparr>)"
    using conn_reach_inv [OF r] by (simp_all add: up_def setState_def)
  from handleClose_ok [OF this(2,1), of "[]"] obtain c' where c': "handleClose [] (?c\<lparr>posted := []\<rparr>) = Inr c'" "state c' = kDisconnected"
    by (auto simp: quiet_def)
  have "conn_event ?c (Posted ?i) = Inr c'"
    using p c'(1) by (simp add: conn_event_def run_posted_def Let_def forceCloseInLoop_def setState_def)
  then have "conn_reach c'" using conn_next [OF r, of "Posted ?i"] p by (simp add: allowed_def quiet_def)
  with c'(2) show ?thesis by blast
qed

text \<open>
  Outside the contract. A thread that finds the connection up in \<^verbatim>\<open>forceClose\<close> and stores \<^verbatim>\<open>kDisconnecting\<close> only after the
  loop has closed the connection brings it up again, and it is closed a second time. And a hang-up reported with urgent
  but no readable data calls the close and the read callback; the latter finds the end of the stream and closes again.
\<close>

lemma handleClose_quiet:
  "up c \<Longrightarrow> handleClose [] c = Inr (notify Close (notify (Connection False) (ch_update DisableAll (setState kDisconnected c))))"
  by (simp add: handleClose_def up_def Let_def connected_def ch_update_def setState_def)

lemma close_race_hazard:
  "\<exists>c c'. conn_reach c \<and> ForceClose \<in> set (racing c) \<and> state c = kDisconnected \<and> count_list (noted c) Close = 1
    \<and> forceCloseInLoop [] (close_store ForceClose c) = Inr c' \<and> count_list (noted c') Close = 2"
proof -
  obtain c0 where c0: "conn_reach c0" "state c0 = kDisconnecting" "posted c0 = []" using busy_connection by blast
  define c1 where "c1 = c0\<lparr>racing := racing c0 @ [ForceClose]\<rparr>"
  define c2 where "c2 = queue ForceCloseInLoop (setState kDisconnecting c1)"
  define c3 where "c3 = notify Close (notify (Connection False) (ch_update DisableAll (setState kDisconnected (c2\<lparr>posted := []\<rparr>))))"
  define c4 where "c4 = close_store ForceClose c3"
  let ?i = "\<lparr>io_readv = (\<lambda>_. ReadvOk []), io_write = Wrote 0, io_message = [], io_down = []\<rparr>"
  have "conn_event c0 (User False ForceClose) = Inr c1"
    using c0(2) by (simp add: conn_event_def user_call_def begin_close_def close_test_def c1_def)
  then have r1: "conn_reach c1" using conn_next [OF c0(1), of "User False ForceClose"] c0(2) by (simp add: allowed_def)
  have "conn_event c1 (User True ForceClose) = Inr c2"
    using c0(2) by (simp add: conn_event_def user_call_def forceClose_def forceClose_store_def c1_def c2_def)
  then have r2: "conn_reach c2" using conn_next [OF r1, of "User True ForceClose"] c0(2) by (simp add: allowed_def up_def c1_def)
  have p: "posted c2 = [ForceCloseInLoop]" "up (c2\<lparr>posted := []\<rparr>)" "state c2 = kDisconnecting"
    using c0(3) by (simp_all add: c2_def c1_def setState_def up_def)
  have "conn_event c2 (Posted ?i) = Inr c3"
    using p handleClose_quiet [OF p(2)] by (simp add: conn_event_def run_posted_def Let_def forceCloseInLoop_def c3_def)
  then have r3: "conn_reach c3" using conn_next [OF r2, of "Posted ?i"] p(1) by (simp add: allowed_def quiet_def)
  have n: "count_list (noted c0) Close = 0" using conn_reach_inv [OF c0(1)] c0(2) by (simp add: conn_inv_def)
  have f3: "ForceClose \<in> set (racing c3)" "state c3 = kDisconnected" "count_list (noted c3) Close = 1"
    using n by (simp_all add: c3_def c2_def c1_def queue_def notify_def ch_update_def setState_def)
  have u: "up c4" "state c4 = kDisconnecting" "noted c4 = noted c3"
    by (simp_all add: c4_def close_store_def forceClose_store_def up_def setState_def)
  have "forceCloseInLoop [] c4 = Inr (notify Close (notify (Connection False) (ch_update DisableAll (setState kDisconnected c4))))"
    using handleClose_quiet [OF u(1)] u(2) by (simp add: forceCloseInLoop_def)
  moreover have "count_list (noted (notify Close (notify (Connection False) (ch_update DisableAll (setState kDisconnected c4))))) Close = 2"
    using f3(3) u(3) by (simp add: notify_def ch_update_def setState_def)
  ultimately show ?thesis using r3 f3 unfolding c4_def by blast
qed

lemma hangup_urgent_hazard:
  assumes "conn_reach c" "up c"
  shows "dispatch (POLLHUP OR POLLPRI) \<lparr>io_readv = (\<lambda>_. ReadvOk []), io_write = w, io_message = msg, io_down = []\<rparr> c = Inl AssertFailed"
proof -
  note i = conn_reach_inv [OF assms(1)]
  let ?c = "notify Close (notify (Connection False) (ch_update DisableAll (setState kDisconnected c)))"
  have f: "inputBuffer ?c = inputBuffer c" "state ?c = kDisconnected" by (simp_all add: notify_def ch_update_def setState_def)
  have cb: "callbacks (channel c) = UNIV" "binv (inputBuffer c)" using i by (simp_all add: conn_inv_def)
  have "handleEvent True (set_revents (POLLHUP OR POLLPRI) (channel c)) = [CloseCallback, ReadCallback]"
    using cb(1) by (simp add: handleEvent_def handleEventWithGuard_def Let_def set_revents_def has_def mask_simps)
  moreover obtain b' where "readFd (\<lambda>_. ReadvOk []) (inputBuffer c) = Inr (0, None, b')"
    using readFd_data_ok [of "inputBuffer c" "\<lambda>_. ReadvOk []" "[]", OF cb(2)] by (auto simp: okE_iff)
  ultimately show ?thesis using handleClose_quiet [OF assms(2)] f
    by (simp add: dispatch_def conn_callback_def tc_handleRead_def handleClose_def Let_def)
qed

section \<open>Properties\<close>



text \<open>
  C35: \<^verbatim>\<open>shutdown\<close> is graceful. Take a connection that is up (\<^verbatim>\<open>kConnected\<close> or \<^verbatim>\<open>kDisconnecting\<close>), reached
  within the contract, on which no write has failed with \<^verbatim>\<open>EPIPE\<close> or \<^verbatim>\<open>ECONNRESET\<close>. Then \<^verbatim>\<open>shutdownInLoop\<close> closes the write
  half of the socket only if every byte that reached \<^verbatim>\<open>sendInLoop\<close> so far has been taken by the socket; and if it is
  shutting down with output still waiting, the \<^verbatim>\<open>handleWrite\<close> that writes the last of it closes the write half.
\<close>

theorem graceful_shutdown:
  assumes "conn_reach c" "up c" "\<not> faulted c"
  shows "(halfClosed (shutdownInLoop c) \<and> \<not> halfClosed c \<longrightarrow> sent c = accepted c)
    \<and> (state c = kDisconnecting \<and> content (outputBuffer c) \<noteq> [] \<and> length (content (outputBuffer c)) \<le> k \<longrightarrow>
        (\<exists>c'. handleWrite (Wrote k) c = Inr c' \<and> halfClosed c' \<and> sent c' = accepted c))"
proof -
  note i = conn_reach_inv [OF assms(1)]
  note w = conn_inv_up [OF i assms(2)]
  have s: "sent c @ content (outputBuffer c) = accepted c" using i assms(3) by (simp add: conn_inv_def)
  have b: "binv (outputBuffer c)" "event_ok (channel c)" using i by (simp_all add: conn_inv_def)
  have 1: "sent c = accepted c" if "halfClosed (shutdownInLoop c)" "\<not> halfClosed c"
    using that s w by (auto simp: shutdownInLoop_def split: if_splits)
  have 2: "\<exists>c'. handleWrite (Wrote k) c = Inr c' \<and> halfClosed c' \<and> sent c' = accepted c"
    if d: "state c = kDisconnecting" "content (outputBuffer c) \<noteq> []" "length (content (outputBuffer c)) \<le> k"
  proof -
    have n: "min k (readableBytes (outputBuffer c)) = length (content (outputBuffer c))" "0 < length (content (outputBuffer c))"
      using d(2,3) readable_content [OF b(1)] by simp_all
    obtain b' where b': "retrieve (outputBuffer c) (length (content (outputBuffer c))) = Inr b'" "binv b'" "content b' = []"
      using bb.retr_law [OF b(1), of "length (content (outputBuffer c))"] by (auto simp: okE_iff)
    have "readableBytes b' = 0" using readable_content [OF b'(2)] b'(3) by simp
    then show ?thesis using w d(1,2) n b'(1) b(2) s
      by (simp add: handleWrite_def Let_def ch_update_def shutdownInLoop_def)
  qed
  from 1 2 show ?thesis by blast
qed

theorem graceful_shutdown_witness:
  "\<exists>c c'. conn_reach c \<and> state c = kDisconnecting \<and> handleWrite (Wrote 9) c = Inr c' \<and> halfClosed c' \<and> sent c' = ''hello''"
proof -
  obtain c where c: "conn_reach c" "state c = kDisconnecting" "content (outputBuffer c) = ''llo''" "accepted c = ''hello''" "\<not> faulted c"
    using busy_connection by blast
  have "up c" using c(2) by (simp add: up_def)
  from graceful_shutdown [OF c(1) this c(5), of 9] c show ?thesis by auto
qed

text \<open>
  C36: Two ways out of the contract fail an assertion. Destroying a connection that is shutting down but not
  yet closed, as \<^verbatim>\<open>~TcpServer\<close> does, leaves its channel enabled, and removing the channel asserts. And \<^verbatim>\<open>startRead\<close> on a closed
  connection enables the channel again; the next read finds the end of the stream and \<^verbatim>\<open>handleClose\<close> asserts.
\<close>

theorem closed_connection_hazards:
  assumes "conn_reach c"
  shows "(state c = kDisconnecting \<and> isReading (channel c) \<longrightarrow> connectDestroyed down c = Inl AssertFailed)
    \<and> (state c = kDisconnected \<longrightarrow> \<not> isNoneEvent (channel (startReadInLoop c))
        \<and> tc_handleRead (\<lambda>_. ReadvOk []) msg down (startReadInLoop c) = Inl AssertFailed)"
proof -
  note i = conn_reach_inv [OF assms]
  have 1: "connectDestroyed down c = Inl AssertFailed" if "state c = kDisconnecting" "isReading (channel c)"
  proof -
    have "\<not> isNoneEvent (channel c)" using that(2) by (auto simp: isReading_def isNoneEvent_def has_def kNoneEvent_def)
    with that(1) show ?thesis by (simp add: connectDestroyed_def ch_remove_def)
  qed
  have 2: "\<not> isNoneEvent (channel (startReadInLoop c)) \<and> tc_handleRead (\<lambda>_. ReadvOk []) msg down (startReadInLoop c) = Inl AssertFailed"
    if d: "state c = kDisconnected"
  proof -
    have e: "event_ok (channel c)" "isNoneEvent (channel c)" "binv (inputBuffer c)" using i d by (simp_all add: conn_inv_def)
    have "\<not> isReading (channel c)" using e(2) by (simp add: isReading_def isNoneEvent_def has_def kNoneEvent_def)
    then have s: "startReadInLoop c = (ch_update EnableReading c)\<lparr>reading := True\<rparr>" by (simp add: startReadInLoop_def)
    obtain b' where "readFd (\<lambda>_. ReadvOk []) (inputBuffer c) = Inr (0, None, b')"
      using readFd_data_ok [of "inputBuffer c" "\<lambda>_. ReadvOk []" "[]", OF e(3)] by (auto simp: okE_iff)
    then show ?thesis using d e(1) by (simp add: s ch_update_def tc_handleRead_def handleClose_def Let_def)
  qed
  from 1 2 show ?thesis by blast
qed

theorem closed_connection_hazards_witness:
  "(\<exists>c. conn_reach c \<and> connectDestroyed [] c = Inl AssertFailed)
    \<and> (\<exists>c. conn_reach c \<and> tc_handleRead (\<lambda>_. ReadvOk []) [] [] (startReadInLoop c) = Inl AssertFailed)"
proof -
  obtain c where c: "conn_reach c" "state c = kDisconnecting" "isReading (channel c)" using busy_connection by blast
  obtain d where d: "conn_reach d" "state d = kDisconnected" using closed_connection by blast
  from closed_connection_hazards [OF c(1), of "[]"] closed_connection_hazards [OF d(1), of "[]" "[]"] c d show ?thesis by blast
qed

end
