(* ===== verification/Connector.thy ===== *)
theory Connector
  imports Prelude
begin

text \<open>
  \<^verbatim>\<open>muduo/net/Connector\<close>: a non-blocking connect with retries, from \<^verbatim>\<open>start()\<close> to the callback that hands over the
  connected socket. Descriptors are numbered in the order they are created, so that each can be accounted for.
\<close>

section \<open>State\<close>

datatype States = kDisconnected | kConnecting | kConnected

text \<open>What \<^verbatim>\<open>connect(2)\<close> reports: success, or an \<^verbatim>\<open>errno\<close>.\<close>

datatype connect_errno =
    Success | EINPROGRESS | EINTR | EISCONN
  | EAGAIN | EADDRINUSE | EADDRNOTAVAIL | ECONNREFUSED | ENETUNREACH
  | EACCES | EPERM | EAFNOSUPPORT | EALREADY | EBADF | EFAULT | ENOTSOCK
  | OtherErrno

datatype connector_call = StartInLoop | StopInLoop | ResetChannel

text \<open>
  \<open>channel\<close> is \<^verbatim>\<open>channel_\<close>: its descriptor and whether it is enabled in the poller. \<open>posted\<close> are the functors queued in
  the loop, \<open>timers\<close> the delays of the retry timers that have not fired, in milliseconds. \<open>created\<close> counts the sockets
  created; \<open>closed\<close> and \<open>handed\<close> are those closed and those given to the callback, in order.
\<close>

record Connector =
  connect_flag :: bool
  state :: States
  channel :: "(nat \<times> bool) option"
  retryDelayMs :: int
  posted :: "connector_call list"
  timers :: "int list"
  created :: nat
  closed :: "nat list"
  handed :: "nat list"

definition kMaxRetryDelayMs :: int where "kMaxRetryDelayMs = 30 * 1000"
definition kInitRetryDelayMs :: int where "kInitRetryDelayMs = 500"

definition mkConnector :: Connector where
  "mkConnector = \<lparr>connect_flag = False, state = kDisconnected, channel = None, retryDelayMs = kInitRetryDelayMs,
     posted = [], timers = [], created = 0, closed = [], handed = []\<rparr>"

definition setState :: "States \<Rightarrow> Connector \<Rightarrow> Connector" where
  "setState s c = c\<lparr>state := s\<rparr>"

definition queue :: "connector_call \<Rightarrow> Connector \<Rightarrow> Connector" where
  "queue f c = c\<lparr>posted := posted c @ [f]\<rparr>"

definition close_socket :: "nat \<Rightarrow> Connector \<Rightarrow> Connector" where
  "close_socket sockfd c = c\<lparr>closed := closed c @ [sockfd]\<rparr>"

section \<open>Operations\<close>

definition retry :: "nat \<Rightarrow> Connector \<Rightarrow> Connector" where
  "retry sockfd c =
    (let c = setState kDisconnected (close_socket sockfd c) in
     if connect_flag c
     then c\<lparr>timers := timers c @ [retryDelayMs c], retryDelayMs := min (retryDelayMs c * 2) kMaxRetryDelayMs\<rparr>
     else c)"

definition connecting :: "nat \<Rightarrow> Connector \<Rightarrow> Connector res" where
  "connecting sockfd c =
    (let c = setState kConnecting c in
     bindE (assertE (channel c = None)) (\<lambda>_. Inr (c\<lparr>channel := Some (sockfd, True)\<rparr>)))"

definition connect :: "connect_errno \<Rightarrow> Connector \<Rightarrow> Connector res" where
  "connect savedErrno c =
    (let sockfd = created c; c = c\<lparr>created := created c + 1\<rparr> in
     if savedErrno \<in> {Success, EINPROGRESS, EINTR, EISCONN} then connecting sockfd c
     else if savedErrno \<in> {EAGAIN, EADDRINUSE, EADDRNOTAVAIL, ECONNREFUSED, ENETUNREACH} then Inr (retry sockfd c)
     else Inr (close_socket sockfd c))"

definition startInLoop :: "connect_errno \<Rightarrow> Connector \<Rightarrow> Connector res" where
  "startInLoop e c =
    bindE (assertE (state c = kDisconnected)) (\<lambda>_. if connect_flag c then connect e c else Inr c)"

definition start :: "bool \<Rightarrow> connect_errno \<Rightarrow> Connector \<Rightarrow> Connector res" where
  "start inLoop e c =
    (let c = c\<lparr>connect_flag := True\<rparr> in if inLoop then startInLoop e c else Inr (queue StartInLoop c))"

definition stop :: "Connector \<Rightarrow> Connector" where
  "stop c = queue StopInLoop (c\<lparr>connect_flag := False\<rparr>)"

text \<open>Dereferencing an empty \<^verbatim>\<open>channel_\<close> is an error.\<close>

definition removeAndResetChannel :: "Connector \<Rightarrow> (nat \<times> Connector) res" where
  "removeAndResetChannel c = (case channel c of
       None \<Rightarrow> Inl OutOfBounds
     | Some (sockfd, _) \<Rightarrow> Inr (sockfd, queue ResetChannel (c\<lparr>channel := Some (sockfd, False)\<rparr>)))"

definition resetChannel :: "Connector \<Rightarrow> Connector" where
  "resetChannel c = c\<lparr>channel := None\<rparr>"

definition stopInLoop :: "Connector \<Rightarrow> Connector res" where
  "stopInLoop c =
    (if state c = kConnecting
     then bindE (removeAndResetChannel (setState kDisconnected c)) (\<lambda>(sockfd, c). Inr (retry sockfd c))
     else Inr c)"

text \<open>\<open>err\<close> and \<open>self\<close>: \<^verbatim>\<open>getSocketError\<close> reports an error, the socket is connected to itself.\<close>

definition handleWrite :: "bool \<Rightarrow> bool \<Rightarrow> Connector \<Rightarrow> Connector res" where
  "handleWrite err self c =
    (if state c = kConnecting
     then
       bindE (removeAndResetChannel c) (\<lambda>(sockfd, c).
       if err then Inr (retry sockfd c)
       else if self then Inr (retry sockfd c)
       else
         let c = setState kConnected c in
         Inr (if connect_flag c then c\<lparr>handed := handed c @ [sockfd]\<rparr> else close_socket sockfd c))
     else bindE (assertE (state c = kDisconnected)) (\<lambda>_. Inr c))"

definition handleError :: "Connector \<Rightarrow> Connector res" where
  "handleError c =
    (if state c = kConnecting then bindE (removeAndResetChannel c) (\<lambda>(sockfd, c). Inr (retry sockfd c)) else Inr c)"

definition restart :: "connect_errno \<Rightarrow> Connector \<Rightarrow> Connector res" where
  "restart e c = startInLoop e ((setState kDisconnected c)\<lparr>retryDelayMs := kInitRetryDelayMs, connect_flag := True\<rparr>)"

definition connector_dtor :: "Connector \<Rightarrow> unit res" where
  "connector_dtor c = assertE (channel c = None)"

definition run_posted :: "connect_errno \<Rightarrow> Connector \<Rightarrow> Connector res" where
  "run_posted e c = (case posted c of
       [] \<Rightarrow> Inr c
     | f # fs \<Rightarrow> let c = c\<lparr>posted := fs\<rparr> in
         (case f of StartInLoop \<Rightarrow> startInLoop e c | StopInLoop \<Rightarrow> stopInLoop c | ResetChannel \<Rightarrow> Inr (resetChannel c)))"

section \<open>Events\<close>

text \<open>
  The poller reports errors and writability of the enabled channel, in this order as \<^verbatim>\<open>Channel::handleEvent\<close> does.
\<close>

datatype connector_event =
    Start bool connect_errno
  | Stop
  | Restart connect_errno
  | Posted connect_errno
  | Timer connect_errno
  | Ready bool bool bool bool

definition connector_event :: "Connector \<Rightarrow> connector_event \<Rightarrow> Connector res" where
  "connector_event c ev = (case ev of
       Start inLoop e \<Rightarrow> start inLoop e c
     | Stop \<Rightarrow> Inr (stop c)
     | Restart e \<Rightarrow> restart e c
     | Posted e \<Rightarrow> run_posted e c
     | Timer e \<Rightarrow> startInLoop e (c\<lparr>timers := tl (timers c)\<rparr>)
     | Ready hasError writable err self \<Rightarrow>
         bindE (if hasError then handleError c else Inr c) (\<lambda>c. if writable then handleWrite err self c else Inr c))"

text \<open>
  The contract: \<^verbatim>\<open>start\<close> is called once; \<^verbatim>\<open>restart\<close> only after a connection was handed over and the loop has run the
  functor that resets the channel, which it also has when a retry timer fires; \<^verbatim>\<open>stop\<close> at any time.
\<close>

definition untouched :: "Connector \<Rightarrow> bool" where
  "untouched c \<longleftrightarrow> state c = kDisconnected \<and> channel c = None \<and> timers c = [] \<and> created c = 0
    \<and> StartInLoop \<notin> set (posted c)"

definition allowed :: "Connector \<Rightarrow> connector_event \<Rightarrow> bool" where
  "allowed c ev = (case ev of
       Start inLoop e \<Rightarrow> untouched c
     | Stop \<Rightarrow> True
     | Restart e \<Rightarrow> state c = kConnected \<and> ResetChannel \<notin> set (posted c)
     | Posted e \<Rightarrow> posted c \<noteq> []
     | Timer e \<Rightarrow> timers c \<noteq> [] \<and> ResetChannel \<notin> set (posted c)
     | Ready hasError writable err self \<Rightarrow> (case channel c of None \<Rightarrow> False | Some (fd, enabled) \<Rightarrow> enabled))"

inductive connector_reach :: "Connector \<Rightarrow> bool" where
  connector_new: "connector_reach mkConnector"
| connector_next: "connector_reach c \<Longrightarrow> allowed c ev \<Longrightarrow> connector_event c ev = Inr c' \<Longrightarrow> connector_reach c'"

fun connector_run :: "Connector \<Rightarrow> connector_event list \<Rightarrow> Connector res" where
  "connector_run c [] = Inr c"
| "connector_run c (ev # evs) =
    bindE (assertE (allowed c ev)) (\<lambda>_. bindE (connector_event c ev) (\<lambda>c. connector_run c evs))"

lemma connector_reach_run: "connector_reach c \<Longrightarrow> connector_run c evs = Inr c' \<Longrightarrow> connector_reach c'"
proof (induction evs arbitrary: c)
  case (Cons ev evs)
  from Cons.prems(2) have "allowed c ev"
    by (simp add: assertE_def split: if_splits)
  with Cons show ?case
    by (cases "connector_event c ev") (auto simp: assertE_def intro: connector_next)
qed simp

section \<open>Invariant\<close>

text \<open>The socket being connected, and the accounting: every socket created is live, closed once, or handed over once.\<close>

definition live :: "Connector \<Rightarrow> nat list" where
  "live c = (case channel c of Some (fd, True) \<Rightarrow> [fd] | _ \<Rightarrow> [])"

definition accounted :: "Connector \<Rightarrow> bool" where
  "accounted c \<longleftrightarrow> distinct (closed c @ handed c @ live c) \<and> set (closed c @ handed c @ live c) = {..<created c}"

definition delay_ok :: "int \<Rightarrow> bool" where
  "delay_ok d \<longleftrightarrow> kInitRetryDelayMs \<le> d \<and> d \<le> kMaxRetryDelayMs"

definition channel_ok :: "Connector \<Rightarrow> bool" where
  "channel_ok c \<longleftrightarrow> (case channel c of
       None \<Rightarrow> state c \<noteq> kConnecting \<and> ResetChannel \<notin> set (posted c)
     | Some (fd, True) \<Rightarrow> state c = kConnecting \<and> ResetChannel \<notin> set (posted c)
     | Some (fd, False) \<Rightarrow> state c \<noteq> kConnecting \<and> count_list (posted c) ResetChannel = 1)"

definition starting_ok :: "Connector \<Rightarrow> bool" where
  "starting_ok c \<longleftrightarrow> StartInLoop \<notin> set (posted c)
     \<or> count_list (posted c) StartInLoop = 1 \<and> state c = kDisconnected \<and> channel c = None \<and> timers c = [] \<and> created c = 0"

definition timers_ok :: "Connector \<Rightarrow> bool" where
  "timers_ok c \<longleftrightarrow> timers c = [] \<or> state c = kDisconnected \<and> (\<exists>d. timers c = [d] \<and> delay_ok d)"

definition connector_inv :: "Connector \<Rightarrow> bool" where
  "connector_inv c \<longleftrightarrow> accounted c \<and> channel_ok c \<and> starting_ok c \<and> timers_ok c \<and> delay_ok (retryDelayMs c)"

lemmas connector_inv_defs = connector_inv_def accounted_def live_def delay_ok_def channel_ok_def starting_ok_def timers_ok_def

lemmas connector_ops = setState_def queue_def close_socket_def retry_def connecting_def connect_def startInLoop_def
  removeAndResetChannel_def resetChannel_def Let_def assertE_def

lemma mkConnector_inv: "connector_inv mkConnector"
  by (simp add: connector_inv_defs mkConnector_def kInitRetryDelayMs_def kMaxRetryDelayMs_def)

lemma retry_delay_ok: "delay_ok d \<Longrightarrow> delay_ok (min (d * 2) kMaxRetryDelayMs)"
  by (simp add: delay_ok_def kInitRetryDelayMs_def kMaxRetryDelayMs_def)

text \<open>An attempt from a state with no channel and no pending retry.\<close>

definition idle :: "Connector \<Rightarrow> bool" where
  "idle c \<longleftrightarrow> connector_inv c \<and> state c = kDisconnected \<and> channel c = None \<and> timers c = []
    \<and> StartInLoop \<notin> set (posted c)"

lemma accounted_new:
  assumes "accounted c" "live c = []"
  shows "created c \<notin> set (closed c)" "created c \<notin> set (handed c)"
    "distinct (closed c)" "distinct (handed c)" "set (closed c) \<inter> set (handed c) = {}"
    "insert (created c) (set (closed c) \<union> set (handed c)) = {..<Suc (created c)}"
  using assms by (auto simp: accounted_def lessThan_Suc)

lemma startInLoop_inv:
  assumes "idle c"
  shows "okE (startInLoop e c) connector_inv"
proof -
  have st: "state c = kDisconnected" "channel c = None" "timers c = []" "StartInLoop \<notin> set (posted c)"
    "ResetChannel \<notin> set (posted c)"
    using assms by (auto simp: idle_def connector_inv_def channel_ok_def)
  have live: "live c = []" and acc: "accounted c" and d: "delay_ok (retryDelayMs c)"
    using assms st by (simp_all add: idle_def live_def connector_inv_def)
  show ?thesis
  proof (cases "connect_flag c")
    case False
    then show ?thesis using assms by (simp add: startInLoop_def idle_def assertE_def)
  next
    case True
    then show ?thesis
      using st accounted_new [OF acc live] retry_delay_ok [OF d] d
      by (cases e) (simp_all add: connector_ops connector_inv_def accounted_def live_def channel_ok_def
          starting_ok_def timers_ok_def Int_commute)
  qed
qed

text \<open>Giving up the live socket: it is closed, the channel is disabled and its reset is queued.\<close>

lemma drop_live_inv:
  assumes "connector_inv c" "state c = kConnecting"
  obtains fd where "channel c = Some (fd, True)"
    "removeAndResetChannel c = Inr (fd, queue ResetChannel (c\<lparr>channel := Some (fd, False)\<rparr>))"
    "connector_inv (retry fd (queue ResetChannel (c\<lparr>channel := Some (fd, False)\<rparr>)))"
    "connector_inv (retry fd (queue ResetChannel (c\<lparr>state := kDisconnected, channel := Some (fd, False)\<rparr>)))"
    "connector_inv (close_socket fd (setState kConnected (queue ResetChannel (c\<lparr>channel := Some (fd, False)\<rparr>))))"
    "connector_inv ((setState kConnected (queue ResetChannel (c\<lparr>channel := Some (fd, False)\<rparr>)))\<lparr>handed := handed c @ [fd]\<rparr>)"
proof -
  obtain fd where ch: "channel c = Some (fd, True)"
    using assms by (auto simp: connector_inv_def channel_ok_def split: option.splits bool.splits)
  have st: "StartInLoop \<notin> set (posted c)" "timers c = []" "ResetChannel \<notin> set (posted c)" "delay_ok (retryDelayMs c)"
    using assms ch by (auto simp: connector_inv_def channel_ok_def starting_ok_def timers_ok_def)
  have a: "distinct (closed c)" "distinct (handed c)" "set (closed c) \<inter> set (handed c) = {}" "fd \<notin> set (closed c)"
    "fd \<notin> set (handed c)" "insert fd (set (closed c) \<union> set (handed c)) = {..<created c}"
    "set (handed c) \<inter> set (closed c) = {}"
    using assms ch by (auto simp: connector_inv_def accounted_def live_def)
  have z: "count_list (posted c) ResetChannel = 0"
    using st by (simp add: count_list_0_iff)
  show ?thesis
    by (rule that [of fd]) (use ch st a z retry_delay_ok [OF st(4)] in \<open>simp_all add: connector_ops connector_inv_def
        accounted_def live_def channel_ok_def starting_ok_def timers_ok_def\<close>)
qed

lemma connect_flag_inv [simp]: "connector_inv (c\<lparr>connect_flag := b\<rparr>) = connector_inv c"
proof -
  have "accounted (c\<lparr>connect_flag := b\<rparr>) = accounted c" "channel_ok (c\<lparr>connect_flag := b\<rparr>) = channel_ok c"
    by (simp_all add: accounted_def live_def channel_ok_def split: option.split bool.split)
  then show ?thesis by (simp add: connector_inv_def starting_ok_def timers_ok_def)
qed

lemma stop_inv: "connector_inv c \<Longrightarrow> connector_inv (stop c)"
  by (cases "channel c")
    (auto simp: stop_def queue_def connector_inv_def accounted_def live_def channel_ok_def starting_ok_def timers_ok_def
      split: bool.splits)

lemma start_inv:
  assumes "connector_inv c" "untouched c"
  shows "okE (start inLoop e c) connector_inv"
proof (cases inLoop)
  case True
  have "idle (c\<lparr>connect_flag := True\<rparr>)"
    using assms by (simp add: idle_def untouched_def)
  then show ?thesis using True by (simp add: start_def startInLoop_inv)
next
  case False
  then show ?thesis
    using assms by (simp add: start_def queue_def untouched_def connector_inv_defs count_list_0_iff)
qed

lemma timer_idle:
  assumes "connector_inv c" "timers c \<noteq> []" "ResetChannel \<notin> set (posted c)"
  shows "idle (c\<lparr>timers := tl (timers c)\<rparr>)"
proof -
  obtain d where "timers c = [d]" "state c = kDisconnected"
    using assms by (auto simp: connector_inv_def timers_ok_def)
  moreover have "channel c = None"
    using assms calculation by (auto simp: connector_inv_def channel_ok_def count_list_0_iff split: option.splits bool.splits)
  moreover have "StartInLoop \<notin> set (posted c)"
    using assms by (auto simp: connector_inv_def starting_ok_def)
  ultimately show ?thesis
    using assms by (simp add: idle_def connector_inv_def accounted_def live_def channel_ok_def starting_ok_def timers_ok_def)
qed

lemma restart_inv:
  assumes "connector_inv c" "state c = kConnected" "ResetChannel \<notin> set (posted c)"
  shows "okE (restart e c) connector_inv"
proof -
  have "channel c = None"
    using assms by (auto simp: connector_inv_def channel_ok_def count_list_0_iff split: option.splits bool.splits)
  moreover have "StartInLoop \<notin> set (posted c)" "timers c = []"
    using assms by (auto simp: connector_inv_def starting_ok_def timers_ok_def)
  ultimately have "idle ((setState kDisconnected c)\<lparr>retryDelayMs := kInitRetryDelayMs, connect_flag := True\<rparr>)"
    using assms by (simp add: idle_def setState_def connector_inv_def accounted_def live_def channel_ok_def starting_ok_def
        timers_ok_def delay_ok_def kInitRetryDelayMs_def kMaxRetryDelayMs_def)
  then show ?thesis unfolding restart_def by (rule startInLoop_inv)
qed

lemma stopInLoop_inv:
  assumes "connector_inv c"
  shows "okE (stopInLoop c) connector_inv"
proof (cases "state c = kConnecting")
  case True
  show ?thesis
    by (rule drop_live_inv [OF assms True]) (simp add: stopInLoop_def True removeAndResetChannel_def setState_def)
qed (simp add: stopInLoop_def assms)

lemma handleError_inv:
  assumes "connector_inv c"
  shows "okE (handleError c) (\<lambda>c'. connector_inv c' \<and> (state c' = kDisconnected \<or> c' = c))"
proof (cases "state c = kConnecting")
  case True
  show ?thesis
    by (rule drop_live_inv [OF assms True]) (simp add: handleError_def True retry_def setState_def Let_def)
qed (simp add: handleError_def assms)

lemma handleWrite_inv:
  assumes "connector_inv c" "state c \<noteq> kConnected"
  shows "okE (handleWrite err self c) connector_inv"
proof (cases "state c = kConnecting")
  case True
  show ?thesis
    by (rule drop_live_inv [OF assms(1) True]) (simp add: handleWrite_def True setState_def queue_def Let_def)
next
  case False
  then have "state c = kDisconnected" using assms(2) by (cases "state c") simp_all
  then show ?thesis using assms by (simp add: handleWrite_def assertE_def)
qed

text \<open>The functors taken from the queue keep the clauses that do not mention it.\<close>

lemma accounted_posted [simp]: "accounted (c\<lparr>posted := fs\<rparr>) = accounted c"
  by (simp add: accounted_def live_def)

lemma timers_ok_posted [simp]: "timers_ok (c\<lparr>posted := fs\<rparr>) = timers_ok c"
  by (simp add: timers_ok_def)

lemma channel_ok_tl:
  assumes "channel_ok c" "posted c = f # fs" "f \<noteq> ResetChannel"
  shows "channel_ok (c\<lparr>posted := fs\<rparr>)"
  using assms by (cases "channel c") (auto simp: channel_ok_def split: bool.splits)

lemma starting_ok_tl:
  assumes "starting_ok c" "posted c = f # fs"
  shows "starting_ok (c\<lparr>posted := fs\<rparr>)"
  using assms by (cases "f = StartInLoop") (auto simp: starting_ok_def count_list_0_iff)

lemma reset_channel_ok:
  assumes "channel_ok c" "posted c = ResetChannel # fs"
  shows "channel_ok (c\<lparr>posted := fs, channel := None\<rparr>)" "live c = []"
  using assms by (cases "channel c"; auto simp: channel_ok_def live_def count_list_0_iff split: bool.splits)+

lemma posted_inv:
  assumes "connector_inv c" "posted c = f # fs"
  shows "okE (run_posted e c) connector_inv"
proof -
  have inv: "accounted c" "channel_ok c" "starting_ok c" "timers_ok c" "delay_ok (retryDelayMs c)"
    using assms(1) by (simp_all add: connector_inv_def)
  show ?thesis
  proof (cases f)
    case StartInLoop
    then have "state c = kDisconnected" "channel c = None" "timers c = []" "StartInLoop \<notin> set fs"
      using inv(3) assms(2) by (simp_all add: starting_ok_def count_list_0_iff)
    moreover have "connector_inv (c\<lparr>posted := fs\<rparr>)"
      using inv channel_ok_tl [OF inv(2) assms(2)] starting_ok_tl [OF inv(3) assms(2)] StartInLoop
      by (simp add: connector_inv_def)
    ultimately have "idle (c\<lparr>posted := fs\<rparr>)" by (simp add: idle_def)
    then show ?thesis using StartInLoop assms by (simp add: run_posted_def startInLoop_inv)
  next
    case StopInLoop
    then have "connector_inv (c\<lparr>posted := fs\<rparr>)"
      using inv channel_ok_tl [OF inv(2) assms(2)] starting_ok_tl [OF inv(3) assms(2)] by (simp add: connector_inv_def)
    then show ?thesis using StopInLoop assms by (simp add: run_posted_def stopInLoop_inv)
  next
    case ResetChannel
    then have post: "posted c = ResetChannel # fs" using assms(2) by simp
    have "live (c\<lparr>posted := fs, channel := None\<rparr>) = []" by (simp add: live_def)
    then have "accounted (c\<lparr>posted := fs, channel := None\<rparr>)" "timers_ok (c\<lparr>posted := fs, channel := None\<rparr>)"
      using inv(1,4) reset_channel_ok(2) [OF inv(2) post] by (simp_all add: accounted_def timers_ok_def)
    moreover have "starting_ok (c\<lparr>posted := fs, channel := None\<rparr>)"
      using starting_ok_tl [OF inv(3) post] by (auto simp: starting_ok_def)
    ultimately show ?thesis
      using reset_channel_ok(1) [OF inv(2) post] inv(5) post by (simp add: connector_inv_def run_posted_def resetChannel_def)
  qed
qed

lemma connector_event_inv:
  assumes "connector_inv c" "allowed c ev"
  shows "okE (connector_event c ev) connector_inv"
proof (cases ev)
  case (Ready hasError writable err self)
  then have st: "state c = kConnecting"
    using assms by (auto simp: allowed_def connector_inv_def channel_ok_def split: option.splits)
  define r where "r = (if hasError then handleError c else Inr c)"
  have "okE r (\<lambda>c'. connector_inv c' \<and> state c' \<noteq> kConnected)"
    using handleError_inv [OF assms(1)] st assms(1) by (cases "handleError c") (auto simp: r_def)
  then show ?thesis
    using handleWrite_inv by (cases r) (simp_all add: connector_event_def Ready r_def [symmetric])
next
  case (Posted e)
  then obtain f fs where "posted c = f # fs"
    using assms(2) by (cases "posted c") (simp_all add: allowed_def)
  then show ?thesis using posted_inv [OF assms(1)] Posted by (simp add: connector_event_def)
qed (use assms in \<open>simp_all add: connector_event_def allowed_def start_inv stop_inv restart_inv timer_idle startInLoop_inv\<close>)

lemma connector_reach_inv: "connector_reach c \<Longrightarrow> connector_inv c"
proof (induction rule: connector_reach.induct)
  case (connector_next c ev c')
  then show ?case using connector_event_inv [of c ev] by simp
qed (rule mkConnector_inv)

text \<open>The destructor's assertion holds unless a connect is in progress or the functor that resets the channel is queued.\<close>

lemma connector_dtor_ok:
  assumes "connector_reach c"
  shows "connector_dtor c = Inr () \<longleftrightarrow> state c \<noteq> kConnecting \<and> ResetChannel \<notin> set (posted c)"
proof -
  have "channel_ok c" using connector_reach_inv [OF assms] by (simp add: connector_inv_def)
  then show ?thesis
    by (cases "channel c") (auto simp: connector_dtor_def channel_ok_def assertE_def count_list_0_iff split: bool.splits dest: count_notin)
qed

section \<open>Properties\<close>

text \<open>
  C4: Under its contract a connector never fails an assertion and never dereferences an empty channel, whatever
  \<^verbatim>\<open>connect(2)\<close>, the poller and the timers report and however often it is stopped. No socket leaks: each one it
  created is either the one being connected, or was closed exactly once, or was handed over exactly once. At most one
  retry timer is pending and every retry delay is between 500 ms and 30 s.
\<close>

theorem connector_safe:
  assumes "connector_reach c"
  shows "(\<forall>ev. allowed c ev \<longrightarrow> (\<exists>c'. connector_event c ev = Inr c'))
    \<and> distinct (closed c @ handed c @ live c) \<and> set (closed c @ handed c @ live c) = {..<created c}
    \<and> length (timers c) \<le> 1 \<and> (\<forall>d \<in> set (retryDelayMs c # timers c). 500 \<le> d \<and> d \<le> 30000)"
proof -
  have inv: "connector_inv c" by (rule connector_reach_inv [OF assms])
  have "\<exists>c'. connector_event c ev = Inr c'" if "allowed c ev" for ev
    using connector_event_inv [OF inv that] by (cases "connector_event c ev") simp_all
  moreover have "distinct (closed c @ handed c @ live c)" "set (closed c @ handed c @ live c) = {..<created c}"
    using inv unfolding connector_inv_def accounted_def by blast+
  moreover have "length (timers c) \<le> 1" "\<forall>d \<in> set (retryDelayMs c # timers c). 500 \<le> d \<and> d \<le> 30000"
    using inv by (auto simp: connector_inv_def timers_ok_def delay_ok_def kInitRetryDelayMs_def kMaxRetryDelayMs_def)
  ultimately show ?thesis by blast
qed

text \<open>A run for the witness: a refused attempt, its retry, a failed handshake, another retry that succeeds, a stop.\<close>

definition sample_run :: "connector_event list" where
  "sample_run = [Start True ECONNREFUSED, Timer EINPROGRESS, Ready True True True False, Posted Success, Timer Success,
     Ready False True False False, Posted Success, Stop]"

lemma sample_run_result:
  "connector_run mkConnector sample_run = Inr
     \<lparr>connect_flag = False, state = kConnected, channel = None, retryDelayMs = 2000, posted = [StopInLoop], timers = [],
      created = 3, closed = [0, 1], handed = [2]\<rparr>"
  by code_simp

theorem connector_safe_witness:
  "\<exists>c. connector_run mkConnector sample_run = Inr c \<and> closed c = [0, 1] \<and> handed c = [2]
    \<and> set (closed c @ handed c @ live c) = {..<created c} \<and> (\<exists>c'. connector_event c (Restart EINPROGRESS) = Inr c')"
proof -
  define c where "c = \<lparr>connect_flag = False, state = kConnected, channel = None, retryDelayMs = 2000,
    posted = [StopInLoop], timers = [], created = 3, closed = [0, 1], handed = [2]\<rparr>"
  have r: "connector_run mkConnector sample_run = Inr c"
    by (simp add: c_def sample_run_result)
  have "allowed c (Restart EINPROGRESS)"
    by (simp add: allowed_def c_def)
  with connector_safe [OF connector_reach_run [OF connector_new r]] r show ?thesis
    by (intro exI [of _ c]) (auto simp: c_def)
qed

section \<open>Retries\<close>

text \<open>While the server refuses, the delays double from half a second up to thirty seconds.\<close>

definition backoff :: "nat \<Rightarrow> int" where
  "backoff n = min (500 * 2 ^ n) 30000"

lemma backoff_Suc: "backoff (Suc n) = min (backoff n * 2) kMaxRetryDelayMs"
  by (simp add: backoff_def kMaxRetryDelayMs_def)

definition refused_state :: "nat \<Rightarrow> Connector" where
  "refused_state n = \<lparr>connect_flag = True, state = kDisconnected, channel = None, retryDelayMs = backoff (Suc n),
     posted = [], timers = [backoff n], created = Suc n, closed = [0..<Suc n], handed = []\<rparr>"

lemma refused_step: "connector_run (refused_state n) [Timer ECONNREFUSED] = Inr (refused_state (Suc n))"
  by (simp add: refused_state_def allowed_def connector_event_def connector_ops backoff_Suc [of "Suc n"])

lemma connector_run_append: "connector_run c (xs @ ys) = bindE (connector_run c xs) (\<lambda>c. connector_run c ys)"
proof (induction xs arbitrary: c)
  case (Cons x xs)
  then show ?case by (cases "connector_event c x") (simp_all add: assertE_def)
qed simp

lemma refused_steps: "connector_run (refused_state k) (replicate n (Timer ECONNREFUSED)) = Inr (refused_state (k + n))"
proof (induction n)
  case (Suc n)
  have "replicate (Suc n) (Timer ECONNREFUSED) = replicate n (Timer ECONNREFUSED) @ [Timer ECONNREFUSED]"
    by (simp add: replicate_append_same)
  then show ?case using Suc by (simp add: connector_run_append refused_step del: replicate_Suc connector_run.simps)
qed simp

text \<open>
  C38: Against a server that refuses every connection, the \<open>n\<close>-th retry waits \<open>500 * 2 ^ n\<close> ms, at most 30 s, for
  every \<open>n\<close>: the connector never gives up, closes the socket of every attempt and has exactly one timer pending.
\<close>

theorem connector_backoff:
  "connector_run mkConnector (Start True ECONNREFUSED # replicate n (Timer ECONNREFUSED)) = Inr
     \<lparr>connect_flag = True, state = kDisconnected, channel = None, retryDelayMs = min (500 * 2 ^ Suc n) 30000,
      posted = [], timers = [min (500 * 2 ^ n) 30000], created = Suc n, closed = [0..<Suc n], handed = []\<rparr>"
proof -
  have "connector_event mkConnector (Start True ECONNREFUSED) = Inr (refused_state 0)"
    by code_simp
  moreover have "allowed mkConnector (Start True ECONNREFUSED)"
    by code_simp
  ultimately show ?thesis using refused_steps [of 0 n] by (simp add: assertE_def refused_state_def backoff_def)
qed

section \<open>Outside the contract\<close>

text \<open>
  Stopping and starting again while a connect is in progress aborts, in the loop's thread because the state is still
  \<^verbatim>\<open>kConnecting\<close>, from another thread because the old channel is only reset by a later functor; so does the timer of
  a retry that was pending when the connector was stopped and started again.
\<close>

lemma stop_start_hazards:
  "foldE connector_event mkConnector [Start True EINPROGRESS, Stop, Start True EINPROGRESS] = Inl AssertFailed"
  "foldE connector_event mkConnector
     [Start True EINPROGRESS, Stop, Start False EINPROGRESS, Posted EINPROGRESS, Posted EINPROGRESS] = Inl AssertFailed"
  "foldE connector_event mkConnector
     [Start True ECONNREFUSED, Stop, Posted Success, Start True EINPROGRESS, Timer EINPROGRESS] = Inl AssertFailed"
  by code_simp+

end
