(* ===== verification/LoopThreads.thy ===== *)
theory LoopThreads
  imports Prelude
begin

text \<open>
  \<^verbatim>\<open>muduo/net/EventLoopThread\<close>, a thread that runs an event loop on its own stack, under every interleaving with the
  thread that starts and destroys it, and \<^verbatim>\<open>muduo/net/EventLoopThreadPool\<close>, which hands out such loops in turn.
\<close>

section \<open>Event loop thread\<close>

text \<open>
  Where the thread is: before its initial callback, before publishing \<^verbatim>\<open>loop_\<close>, before entering \<^verbatim>\<open>loop()\<close>, inside it,
  before clearing \<^verbatim>\<open>loop_\<close>; and where its owner is: about to test \<^verbatim>\<open>loop_\<close> in \<^verbatim>\<open>startLoop\<close>, asleep in it, between
  calls, or in the destructor before \<^verbatim>\<open>quit()\<close>, in \<^verbatim>\<open>join()\<close>, past it.
\<close>

datatype thread_pc = TNotStarted | TCallback | TPublish | TBeforeLoop | TLooping | TClear | TEnded
datatype owner_pc = OIdle | OTest | OAsleep | ODtorQuit | ODtorJoin | OGone

text \<open>\<open>quit\<close> is the flag of the loop; \<open>notified\<close> that the condition was signalled while the owner slept.\<close>

record EventLoopThread =
  loop_set :: bool
  exiting :: bool
  thread_at :: thread_pc
  owner_at :: owner_pc
  notified :: bool
  quit :: bool

definition mkEventLoopThread :: EventLoopThread where
  "mkEventLoopThread = \<lparr>loop_set = False, exiting = False, thread_at = TNotStarted, owner_at = OIdle, notified = False,
     quit = False\<rparr>"

definition startLoop :: "EventLoopThread \<Rightarrow> EventLoopThread res" where
  "startLoop t =
    bindE (assertE (thread_at t = TNotStarted)) (\<lambda>_. Inr (t\<lparr>thread_at := TCallback, owner_at := OTest\<rparr>))"

definition startLoop_test :: "EventLoopThread \<Rightarrow> EventLoopThread" where
  "startLoop_test t = (if \<not> loop_set t then t\<lparr>owner_at := OAsleep, notified := False\<rparr> else t\<lparr>owner_at := OIdle\<rparr>)"

definition threadFunc :: "EventLoopThread \<Rightarrow> EventLoopThread" where
  "threadFunc t = (case thread_at t of
       TCallback \<Rightarrow> t\<lparr>thread_at := TPublish\<rparr>
     | TPublish \<Rightarrow> t\<lparr>loop_set := True, thread_at := TBeforeLoop, notified := True\<rparr>
     | TBeforeLoop \<Rightarrow> t\<lparr>thread_at := TLooping, quit := False\<rparr>
     | TLooping \<Rightarrow> if quit t then t\<lparr>thread_at := TClear\<rparr> else t
     | TClear \<Rightarrow> t\<lparr>loop_set := False, thread_at := TEnded\<rparr>
     | _ \<Rightarrow> t)"

definition dtor_begin :: "EventLoopThread \<Rightarrow> EventLoopThread" where
  "dtor_begin t = (let t = t\<lparr>exiting := True\<rparr> in t\<lparr>owner_at := (if loop_set t then ODtorQuit else OGone)\<rparr>)"

text \<open>\<^verbatim>\<open>loop_->quit()\<close> on a loop whose thread has ended touches a dead stack frame.\<close>

definition dtor_quit :: "EventLoopThread \<Rightarrow> EventLoopThread res" where
  "dtor_quit t = (if thread_at t = TEnded then Inl OutOfBounds else Inr (t\<lparr>quit := True, owner_at := ODtorJoin\<rparr>))"

inductive elt_step :: "EventLoopThread \<Rightarrow> EventLoopThread \<Rightarrow> bool" where
  start: "owner_at t = OIdle \<Longrightarrow> startLoop t = Inr t' \<Longrightarrow> elt_step t t'"
| test: "owner_at t = OTest \<Longrightarrow> elt_step t (startLoop_test t)"
| wake: "owner_at t = OAsleep \<Longrightarrow> elt_step t (t\<lparr>owner_at := OTest\<rparr>)"
| thread: "elt_step t (threadFunc t)"
| dtor: "owner_at t = OIdle \<Longrightarrow> elt_step t (dtor_begin t)"
| dtor_quit: "owner_at t = ODtorQuit \<Longrightarrow> dtor_quit t = Inr t' \<Longrightarrow> elt_step t t'"
| dtor_join: "owner_at t = ODtorJoin \<Longrightarrow> thread_at t = TEnded \<Longrightarrow> elt_step t (t\<lparr>owner_at := OGone\<rparr>)"
| other_quit: "owner_at t = OIdle \<Longrightarrow> loop_set t \<Longrightarrow> elt_step t (t\<lparr>quit := True\<rparr>)"

abbreviation elt_reach :: "EventLoopThread \<Rightarrow> bool" where
  "elt_reach \<equiv> elt_step\<^sup>*\<^sup>* mkEventLoopThread"

text \<open>
  \<open>loop_\<close> is published exactly while the loop exists on the thread's stack; an owner asleep although it is published has
  been notified; and one in the destructor has a started thread.
\<close>

definition elt_inv :: "EventLoopThread \<Rightarrow> bool" where
  "elt_inv t \<longleftrightarrow> loop_set t = (thread_at t \<in> {TBeforeLoop, TLooping, TClear})
    \<and> (owner_at t = OAsleep \<and> loop_set t \<longrightarrow> notified t)
    \<and> (owner_at t \<in> {OTest, OAsleep, ODtorQuit, ODtorJoin} \<longrightarrow> thread_at t \<noteq> TNotStarted)
    \<and> (owner_at t \<in> {ODtorQuit, ODtorJoin} \<longrightarrow> thread_at t \<in> {TBeforeLoop, TLooping, TClear, TEnded})"

lemma threadFunc_inv: "elt_inv t \<Longrightarrow> elt_inv (threadFunc t)"
  by (cases "thread_at t"; simp add: elt_inv_def threadFunc_def)

lemma elt_step_inv: "elt_step t t' \<Longrightarrow> elt_inv t \<Longrightarrow> elt_inv t'"
proof (induction rule: elt_step.induct)
  case (start t t')
  then show ?case by (cases "thread_at t = TNotStarted") (auto simp: startLoop_def elt_inv_def)
next
  case (test t)
  then show ?case by (simp add: startLoop_test_def elt_inv_def)
next
  case (dtor t)
  then show ?case by (cases "loop_set t") (auto simp: dtor_begin_def elt_inv_def)
next
  case (dtor_quit t t')
  then show ?case by (cases "thread_at t = TEnded") (auto simp: dtor_quit_def elt_inv_def)
qed (simp_all add: threadFunc_inv, simp_all add: elt_inv_def)

interpretation elt: transition_system "\<lambda>t. t = mkEventLoopThread" elt_step elt_inv
  by unfold_locales (simp add: elt_inv_def mkEventLoopThread_def, blast intro: elt_step_inv)

text \<open>
  \<open>joins n t\<close>: within \<open>n\<close> steps of the thread the destructor's \<^verbatim>\<open>join()\<close> can return; \<open>never_joins t\<close>: whatever
  happens, it does not.
\<close>

definition joins :: "nat \<Rightarrow> EventLoopThread \<Rightarrow> bool" where
  "joins n t \<longleftrightarrow> thread_at ((threadFunc ^^ n) t) = TEnded"

definition never_joins :: "EventLoopThread \<Rightarrow> bool" where
  "never_joins t \<longleftrightarrow> (\<forall>t'. elt_step\<^sup>*\<^sup>* t t' \<longrightarrow> owner_at t' = ODtorJoin \<and> thread_at t' \<noteq> TEnded)"

lemma lost_quit_stays:
  assumes "elt_step\<^sup>*\<^sup>* t t'" "owner_at t = ODtorJoin" "thread_at t = TLooping" "\<not> quit t"
  shows "owner_at t' = ODtorJoin \<and> thread_at t' = TLooping \<and> \<not> quit t'"
  using assms
proof (induction rule: rtranclp_induct)
  case (step t' t'')
  then have "owner_at t' = ODtorJoin" "thread_at t' = TLooping" "\<not> quit t'" by auto
  with step(2) show ?case by (cases rule: elt_step.cases) (auto simp: threadFunc_def)
qed simp

text \<open>The destructor calls \<^verbatim>\<open>quit()\<close> after the loop is published and before the thread enters \<^verbatim>\<open>loop()\<close>, which clears the flag.\<close>

definition lost_quit :: EventLoopThread where
  "lost_quit = \<lparr>loop_set = True, exiting = True, thread_at = TLooping, owner_at = ODtorJoin, notified = True, quit = False\<rparr>"

lemma lost_quit_never_joins: "never_joins lost_quit"
  using lost_quit_stays [of lost_quit] by (auto simp: never_joins_def lost_quit_def)

lemma published_reachable:
  "elt_reach \<lparr>loop_set = True, exiting = False, thread_at = TBeforeLoop, owner_at = OIdle, notified = True, quit = False\<rparr>"
proof -
  let ?t = "\<lambda>l x th ow q. \<lparr>loop_set = l, exiting = x, thread_at = th, owner_at = ow, notified = l, quit = q\<rparr>"
  have "elt_reach (?t False False TCallback OTest False)"
    by (intro r_into_rtranclp elt_step.start) (simp_all add: mkEventLoopThread_def startLoop_def)
  also have "elt_step (?t False False TCallback OTest False) (?t False False TPublish OTest False)"
    using elt_step.thread [of "?t False False TCallback OTest False"] by (simp add: threadFunc_def)
  also have "elt_step (?t False False TPublish OTest False) (?t True False TBeforeLoop OTest False)"
    using elt_step.thread [of "?t False False TPublish OTest False"] by (simp add: threadFunc_def)
  also have "elt_step (?t True False TBeforeLoop OTest False) (?t True False TBeforeLoop OIdle False)"
    using elt_step.test [of "?t True False TBeforeLoop OTest False"] by (simp add: startLoop_test_def)
  finally show ?thesis by simp
qed

lemma lost_quit_reachable: "elt_reach lost_quit"
proof -
  let ?t = "\<lambda>l x th ow q. \<lparr>loop_set = l, exiting = x, thread_at = th, owner_at = ow, notified = l, quit = q\<rparr>"
  have "elt_reach (?t True False TBeforeLoop OIdle False)" using published_reachable by simp
  also have "elt_step (?t True False TBeforeLoop OIdle False) (?t True True TBeforeLoop ODtorQuit False)"
    using elt_step.dtor [of "?t True False TBeforeLoop OIdle False"] by (simp add: dtor_begin_def)
  also have "elt_step (?t True True TBeforeLoop ODtorQuit False) (?t True True TBeforeLoop ODtorJoin True)"
    by (rule elt_step.dtor_quit) (simp_all add: dtor_quit_def)
  also have "elt_step (?t True True TBeforeLoop ODtorJoin True) (?t True True TLooping ODtorJoin False)"
    using elt_step.thread [of "?t True True TBeforeLoop ODtorJoin True"] by (simp add: threadFunc_def)
  finally show ?thesis by (simp add: lost_quit_def)
qed

section \<open>Pool\<close>

text \<open>A loop is the base loop or that of the thread with the given name.\<close>

datatype loop = BaseLoop | IoLoop string

record EventLoopThreadPool =
  pool_name :: string
  started :: bool
  numThreads :: int
  next_index :: nat
  loops :: "loop list"
  initialised :: "loop list"

definition mkEventLoopThreadPool :: "string \<Rightarrow> EventLoopThreadPool" where
  "mkEventLoopThreadPool nameArg = \<lparr>pool_name = nameArg, started = False, numThreads = 0, next_index = 0, loops = [],
     initialised = []\<rparr>"

definition setThreadNum :: "int \<Rightarrow> EventLoopThreadPool \<Rightarrow> EventLoopThreadPool" where
  "setThreadNum n p = p\<lparr>numThreads := n\<rparr>"

text \<open>\<open>inLoop\<close>: the caller runs in the thread of the base loop; \<open>cb\<close>: a callback was given.\<close>

fun pool_loop :: "bool \<Rightarrow> nat \<Rightarrow> nat \<Rightarrow> EventLoopThreadPool \<Rightarrow> EventLoopThreadPool" where
  "pool_loop cb i 0 p = p"
| "pool_loop cb i (Suc k) p =
    (let buf = snprintf (length (pool_name p) + 32) (pool_name p @ dec_nat i); t = IoLoop buf in
     pool_loop cb (Suc i) k
       (p\<lparr>loops := loops p @ [t], initialised := initialised p @ (if cb then [t] else [])\<rparr>))"

definition pool_start :: "bool \<Rightarrow> bool \<Rightarrow> EventLoopThreadPool \<Rightarrow> EventLoopThreadPool res" where
  "pool_start inLoop cb p =
    bindE (assertE (\<not> started p)) (\<lambda>_.
    if \<not> inLoop then Inl Aborted
    else
      let p = pool_loop cb 0 (nat (numThreads p)) (p\<lparr>started := True\<rparr>) in
      Inr (if numThreads p = 0 \<and> cb then p\<lparr>initialised := initialised p @ [BaseLoop]\<rparr> else p))"

definition getNextLoop :: "bool \<Rightarrow> EventLoopThreadPool \<Rightarrow> (loop \<times> EventLoopThreadPool) res" where
  "getNextLoop inLoop p =
    (if \<not> inLoop then Inl Aborted
     else bindE (assertE (started p)) (\<lambda>_.
       if loops p \<noteq> []
       then
         if next_index p < length (loops p)
         then
           let loop = loops p ! next_index p; p = p\<lparr>next_index := next_index p + 1\<rparr> in
           Inr (loop, if next_index p \<ge> length (loops p) then p\<lparr>next_index := 0\<rparr> else p)
         else Inl OutOfBounds
       else Inr (BaseLoop, p)))"

definition getLoopForHash :: "bool \<Rightarrow> nat \<Rightarrow> EventLoopThreadPool \<Rightarrow> loop res" where
  "getLoopForHash inLoop hashCode p =
    (if \<not> inLoop then Inl Aborted
     else Inr (if loops p \<noteq> [] then loops p ! (hashCode mod length (loops p)) else BaseLoop))"

definition getAllLoops :: "bool \<Rightarrow> EventLoopThreadPool \<Rightarrow> loop list res" where
  "getAllLoops inLoop p =
    (if \<not> inLoop then Inl Aborted
     else bindE (assertE (started p)) (\<lambda>_. Inr (if loops p = [] then [BaseLoop] else loops p)))"

fun next_loops :: "nat \<Rightarrow> EventLoopThreadPool \<Rightarrow> (loop list \<times> EventLoopThreadPool) res" where
  "next_loops 0 p = Inr ([], p)"
| "next_loops (Suc k) p =
    bindE (getNextLoop True p) (\<lambda>(l, p). bindE (next_loops k p) (\<lambda>(ls, p). Inr (l # ls, p)))"

section \<open>Handing out loops\<close>

definition io_name :: "string \<Rightarrow> nat \<Rightarrow> loop" where
  "io_name name i = IoLoop (snprintf (length name + 32) (name @ dec_nat i))"

lemma pool_loop_result:
  "pool_loop cb i k p = p\<lparr>loops := loops p @ map (io_name (pool_name p)) [i..<i + k],
     initialised := initialised p @ (if cb then map (io_name (pool_name p)) [i..<i + k] else [])\<rparr>"
proof (induction k arbitrary: i p)
  case (Suc k)
  have "[i..<i + Suc k] = i # [Suc i..<Suc i + k]" by (simp add: upt_conv_Cons)
  then show ?case by (simp add: Suc.IH Let_def io_name_def)
qed simp

text \<open>The names of the threads fit the array and differ, so each loop occurs once.\<close>

lemma io_name_inj: "i < 2 ^ 31 \<Longrightarrow> j < 2 ^ 31 \<Longrightarrow> io_name name i = io_name name j \<Longrightarrow> i = j"
proof -
  assume ij: "i < 2 ^ 31" "j < 2 ^ 31" and eq: "io_name name i = io_name name j"
  have "length (dec_nat i) \<le> 10" "length (dec_nat j) \<le> 10"
    using ij by (auto intro!: length_dec_nat)
  with eq have "dec_nat i = dec_nat j" by (simp add: io_name_def snprintf_def)
  then show "i = j" by (metis undec_dec_nat)
qed

definition pool_inv :: "EventLoopThreadPool \<Rightarrow> bool" where
  "pool_inv p \<longleftrightarrow> started p \<and> (loops p = [] \<or> next_index p < length (loops p))"

definition turn :: "EventLoopThreadPool \<Rightarrow> nat \<Rightarrow> loop" where
  "turn p k = (if loops p = [] then BaseLoop else loops p ! ((next_index p + k) mod length (loops p)))"

lemma getNextLoop_turn:
  assumes "pool_inv p"
  shows "okE (getNextLoop True p) (\<lambda>(l, p'). l = turn p 0 \<and> pool_inv p' \<and> loops p' = loops p
    \<and> (\<forall>k. turn p' k = turn p (Suc k)))"
proof (cases "loops p = []")
  case True
  then show ?thesis using assms by (simp add: getNextLoop_def pool_inv_def turn_def)
next
  case False
  then have n: "next_index p < length (loops p)" using assms by (simp add: pool_inv_def)
  show ?thesis
  proof (cases "next_index p + 1 = length (loops p)")
    case True
    then have "(next_index p + Suc k) mod length (loops p) = k mod length (loops p)" for k
      by (metis Suc_eq_plus1 add_Suc_shift mod_add_self1)
    then show ?thesis using False n assms True
      by (simp add: getNextLoop_def pool_inv_def turn_def Let_def del: add_Suc_right)
  next
    case ne: False
    then show ?thesis using False n assms by (simp add: getNextLoop_def pool_inv_def turn_def Let_def)
  qed
qed

lemma next_loops_turn:
  assumes "pool_inv p"
  shows "okE (next_loops k p) (\<lambda>(ls, p'). ls = map (turn p) [0..<k] \<and> pool_inv p' \<and> loops p' = loops p)"
  using assms
proof (induction k arbitrary: p)
  case (Suc k)
  from getNextLoop_turn [OF Suc.prems] obtain p' where p': "getNextLoop True p = Inr (turn p 0, p')" "pool_inv p'"
    "\<And>k. turn p' k = turn p (Suc k)" "loops p' = loops p"
    by (auto simp: okE_iff)
  from Suc.IH [OF p'(2)] obtain p'' where p'': "next_loops k p' = Inr (map (turn p') [0..<k], p'')" "pool_inv p''"
    "loops p'' = loops p'"
    by (auto simp: okE_iff)
  have "map (turn p) [0..<Suc k] = turn p 0 # map (turn p') [0..<k]"
    by (simp only: upt_conv_Cons [OF zero_less_Suc] map_Suc_upt [symmetric] list.map list.map_comp o_def p'(3) [symmetric])
  then show ?case using p' p'' by (simp del: upt_Suc)
qed simp

lemma pool_start_inv:
  assumes "0 \<le> n" "n < 2 ^ 31"
  obtains p where "pool_start True cb (setThreadNum n (mkEventLoopThreadPool name)) = Inr p" "pool_inv p"
    "next_index p = 0" "loops p = map (io_name name) [0..<nat n]" "distinct (loops p)"
    "initialised p = (if cb then (if n = 0 then [BaseLoop] else loops p) else [])"
proof -
  have d: "distinct (map (io_name name) [0..<nat n])"
    using assms by (auto simp: distinct_map inj_on_def intro: io_name_inj)
  define p where "p = \<lparr>pool_name = name, started = True, numThreads = n, next_index = 0,
    loops = map (io_name name) [0..<nat n],
    initialised = (if cb then (if n = 0 then [BaseLoop] else map (io_name name) [0..<nat n]) else [])\<rparr>"
  have "pool_start True cb (setThreadNum n (mkEventLoopThreadPool name)) = Inr p"
    by (simp add: pool_start_def setThreadNum_def mkEventLoopThreadPool_def pool_loop_result p_def Let_def)
  moreover have "pool_inv p"
    using assms by (cases "n = 0") (simp_all add: pool_inv_def p_def)
  ultimately show ?thesis
    by (rule that) (simp_all add: p_def d)
qed

section \<open>Properties\<close>

text \<open>
  C39: A pool started with \<open>n\<close> threads has \<open>n\<close> different loops, each passed once to the callback (the base loop if there
  are none), and the \<open>j\<close>-th connection gets loop \<open>j mod n\<close>: any number of calls of \<^verbatim>\<open>getNextLoop\<close> goes round in turn.
  The same hash code always gives the same loop, and starting twice fails an assertion.
\<close>

theorem pool_round_robin:
  assumes "0 \<le> n" "n < 2 ^ 31"
  shows "\<exists>p p'. pool_start True cb (setThreadNum n (mkEventLoopThreadPool name)) = Inr p
    \<and> distinct (loops p) \<and> length (loops p) = nat n
    \<and> initialised p = (if cb then (if n = 0 then [BaseLoop] else loops p) else [])
    \<and> next_loops k p = Inr (map (\<lambda>j. if n = 0 then BaseLoop else loops p ! (j mod nat n)) [0..<k], p')
    \<and> getLoopForHash True h p' = Inr (if n = 0 then BaseLoop else loops p ! (h mod nat n))
    \<and> pool_start True cb p = Inl AssertFailed"
proof -
  obtain p where p: "pool_start True cb (setThreadNum n (mkEventLoopThreadPool name)) = Inr p" "pool_inv p"
    "next_index p = 0" "loops p = map (io_name name) [0..<nat n]" "distinct (loops p)"
    "initialised p = (if cb then (if n = 0 then [BaseLoop] else loops p) else [])"
    by (rule pool_start_inv [OF assms])
  have len: "length (loops p) = nat n" "loops p = [] \<longleftrightarrow> n = 0" using p(4) assms(1) by auto
  have turn: "turn p = (\<lambda>j. if n = 0 then BaseLoop else loops p ! (j mod nat n))"
    by (simp add: turn_def p(3) len fun_eq_iff)
  from next_loops_turn [OF p(2), of k] obtain p' where
    p': "next_loops k p = Inr (map (\<lambda>j. if n = 0 then BaseLoop else loops p ! (j mod nat n)) [0..<k], p')" "loops p' = loops p"
    by (auto simp: okE_iff turn)
  have h: "getLoopForHash True h p' = Inr (if n = 0 then BaseLoop else loops p ! (h mod nat n))"
    by (simp add: getLoopForHash_def p'(2) len)
  have s: "pool_start True cb p = Inl AssertFailed"
    using p(2) by (simp add: pool_start_def pool_inv_def)
  show ?thesis
    by (rule exI [of _ p], rule exI [of _ p']) (intro conjI p(1,5,6) len(1) p'(1) h s)
qed

theorem pool_round_robin_witness:
  "\<exists>p p'. pool_start True True (setThreadNum 2 (mkEventLoopThreadPool ''io'')) = Inr p \<and> distinct (loops p)
    \<and> next_loops 3 p = Inr ([loops p ! 0, loops p ! 1, loops p ! 0], p')"
proof -
  have "map (\<lambda>j. xs ! (j mod 2)) [0..<3] = [xs ! 0, xs ! 1, xs ! 0]" for xs :: "loop list"
    by (simp add: upt_rec)
  with pool_round_robin [of 2 True "''io''" 3 0] show ?thesis by auto
qed

text \<open>
  C40: The owner of an event loop thread never sleeps in \<^verbatim>\<open>startLoop\<close> unnotified once the loop is published, and if the
  loop is running when the destructor calls \<^verbatim>\<open>quit()\<close> then \<^verbatim>\<open>join()\<close> returns after at most two steps of the thread. But
  \<^verbatim>\<open>loop()\<close> clears the flag when it is entered: there is a run in which the destructor's \<^verbatim>\<open>quit()\<close> comes before that, and
  then the destructor never returns.
\<close>

theorem loop_thread_join:
  assumes "elt_reach t"
  shows "(owner_at t = OAsleep \<and> loop_set t \<longrightarrow> notified t)
    \<and> (owner_at t = ODtorJoin \<and> thread_at t \<in> {TLooping, TClear, TEnded} \<and> (thread_at t = TLooping \<longrightarrow> quit t) \<longrightarrow> joins 2 t)
    \<and> elt_reach lost_quit \<and> never_joins lost_quit"
proof -
  have "elt_inv t" using elt.steps_inv [OF assms] elt.inv_init by simp
  moreover have "joins 2 t" if "thread_at t \<in> {TLooping, TClear, TEnded}" "thread_at t = TLooping \<longrightarrow> quit t"
    using that by (auto simp: joins_def numeral_2_eq_2 threadFunc_def)
  ultimately show ?thesis
    using lost_quit_reachable lost_quit_never_joins by (simp add: elt_inv_def)
qed

text \<open>The same owner with the two steps in the other order.\<close>

definition joining :: EventLoopThread where
  "joining = \<lparr>loop_set = True, exiting = True, thread_at = TLooping, owner_at = ODtorJoin, notified = True, quit = True\<rparr>"

lemma joining_reachable: "elt_reach joining"
proof -
  let ?t = "\<lambda>x th ow q. \<lparr>loop_set = True, exiting = x, thread_at = th, owner_at = ow, notified = True, quit = q\<rparr>"
  note published_reachable
  also have "elt_step (?t False TBeforeLoop OIdle False) (?t False TLooping OIdle False)"
    using elt_step.thread [of "?t False TBeforeLoop OIdle False"] by (simp add: threadFunc_def)
  also have "elt_step (?t False TLooping OIdle False) (?t True TLooping ODtorQuit False)"
    using elt_step.dtor [of "?t False TLooping OIdle False"] by (simp add: dtor_begin_def)
  also have "elt_step (?t True TLooping ODtorQuit False) (?t True TLooping ODtorJoin True)"
    by (rule elt_step.dtor_quit) (simp_all add: dtor_quit_def)
  finally show ?thesis by (simp add: joining_def)
qed

theorem loop_thread_join_witness: "elt_reach joining \<and> joins 2 joining \<and> never_joins lost_quit"
  using loop_thread_join [OF joining_reachable] joining_reachable by (simp add: joining_def)

end
