(* ===== verification/TcpServer.thy ===== *)
theory TcpServer
  imports TcpConnection LoopThreads
begin

text \<open>
  \<^verbatim>\<open>muduo/net/Acceptor\<close> and \<^verbatim>\<open>muduo/net/TcpServer\<close>: accepting connections, giving each to a loop of the pool and a
  name, and taking it out of the map when it closes. The connections are those of the model of \<^verbatim>\<open>TcpConnection\<close>; the
  functors exchanged between the loop of the server and the loops of the connections are queues of the state.
\<close>

section \<open>Acceptor\<close>



record Acceptor =
  listenning :: bool
  acceptChannel :: Channel
  idleFd :: int
  a_closed :: "int list"


definition acceptor_listen :: "Acceptor \<Rightarrow> Acceptor" where
  "acceptor_listen a =
    a\<lparr>listenning := True, acceptChannel := (set_interest EnableReading (acceptChannel a))\<lparr>addedToLoop := True\<rparr>\<rparr>"



section \<open>Server\<close>

datatype io_functor = EstablishCall | DestroyCall

text \<open>
  A connection with its name, its loop and the functors of the server queued in that loop. The server keeps all
  connections it made in \<open>conns\<close>; \<open>connection_map\<close> is \<^verbatim>\<open>connections_\<close>, with the position of the connection for the pointer
  to it, and \<open>base_queue\<close> the calls of \<^verbatim>\<open>removeConnectionInLoop\<close> queued in the server's own loop.
\<close>

record ServerConn =
  conn :: TcpConnection
  connName :: string
  ioLoop :: loop
  io_queue :: "io_functor list"

record TcpServer =
  ipPort :: string
  srv_name :: string
  acceptor :: Acceptor
  threadPool :: EventLoopThreadPool
  hasWriteCompleteCallback :: bool
  srv_started :: bool
  nextConnId :: int
  connection_map :: "(string \<times> nat) list"
  conns :: "ServerConn list"
  base_queue :: "nat list"



text \<open>\<open>cb\<close>: a thread initialisation callback is set. In the loop's thread \<^verbatim>\<open>listen\<close> runs at once.\<close>

definition tcp_start :: "bool \<Rightarrow> bool \<Rightarrow> TcpServer \<Rightarrow> TcpServer res" where
  "tcp_start inLoop cb s =
    (if \<not> srv_started s
     then
       let s = s\<lparr>srv_started := True\<rparr> in
       bindE (pool_start inLoop cb (threadPool s)) (\<lambda>p.
       let s = s\<lparr>threadPool := p\<rparr> in
       bindE (assertE (\<not> listenning (acceptor s))) (\<lambda>_.
       Inr (s\<lparr>acceptor := acceptor_listen (acceptor s)\<rparr>)))
     else Inr s)"

definition upd_conn :: "nat \<Rightarrow> (ServerConn \<Rightarrow> ServerConn) \<Rightarrow> TcpServer \<Rightarrow> TcpServer" where
  "upd_conn i f s = s\<lparr>conns := list_update (conns s) i (f (conns s ! i))\<rparr>"



text \<open>An event of a connection; its close callback is \<^verbatim>\<open>removeConnection\<close>.\<close>

definition closes :: "TcpConnection \<Rightarrow> nat" where
  "closes c = count_list (noted c) Close"




definition connection_name :: "TcpServer \<Rightarrow> int \<Rightarrow> string" where
  "connection_name s k = srv_name s @ snprintf 64 (''-'' @ ipPort s @ ''#'' @ dec_int k)"





section \<open>How a connection evolves\<close>

text \<open>No event takes back a callback that was called, and only \<^verbatim>\<open>connectDestroyed\<close> marks a connection as destroyed.\<close>

definition grows :: "TcpConnection \<Rightarrow> TcpConnection \<Rightarrow> bool" where
  "grows c c' \<longleftrightarrow> destroyed c' = destroyed c \<and> closes c \<le> closes c'"

lemma grows_refl [simp]: "grows c c"
  by (simp add: grows_def)





lemma notes_simps [simp]:
  "noted (ch_update i c) = noted c" "destroyed (ch_update i c) = destroyed c"
  "noted (setState s c) = noted c" "destroyed (setState s c) = destroyed c"
  "noted (notify n c) = noted c @ [n]" "destroyed (notify n c) = destroyed c"
  by (simp_all add: ch_update_def setState_def notify_def)













section \<open>Events of a server\<close>






section \<open>Invariant\<close>

text \<open>
  For a connection that is in the map (\<open>m\<close>) or not, with \<open>q\<close> removals queued: exactly one removal is queued or done iff
  it has closed; it is queued to be established until it is, and to be destroyed from its removal until it is.
\<close>

definition sc_ok :: "bool \<Rightarrow> nat \<Rightarrow> ServerConn \<Rightarrow> bool" where
  "sc_ok m q sc \<longleftrightarrow> conn_inv (conn sc) \<and> q + (if m then 0 else 1) = closes (conn sc)
    \<and> io_queue sc = (if state (conn sc) = kConnecting then [EstablishCall]
        else if \<not> m \<and> \<not> destroyed (conn sc) then [DestroyCall] else [])
    \<and> (destroyed (conn sc) \<longrightarrow> \<not> m)"

definition in_map :: "TcpServer \<Rightarrow> nat \<Rightarrow> bool" where
  "in_map s i \<longleftrightarrow> map_of (connection_map s) (connName (conns s ! i)) = Some i"

text \<open>\<open>d\<close> is a connection whose removal has been taken from the queue, or not yet put into it.\<close>

definition conns_ok :: "nat option \<Rightarrow> TcpServer \<Rightarrow> bool" where
  "conns_ok d s \<longleftrightarrow> (\<forall>i < length (conns s).
     sc_ok (in_map s i) (count_list (base_queue s) i + (if d = Some i then 1 else 0)) (conns s ! i))"

definition named :: "TcpServer \<Rightarrow> bool" where
  "named s \<longleftrightarrow> (\<forall>i < length (conns s). connName (conns s ! i) = connection_name s (int i + 1))"

definition mapped :: "TcpServer \<Rightarrow> bool" where
  "mapped s \<longleftrightarrow> sorted_map (connection_map s) \<and> (\<forall>nm i. map_of (connection_map s) nm = Some i \<longrightarrow> i < length (conns s) \<and> connName (conns s ! i) = nm)"

definition names_ok :: "TcpServer \<Rightarrow> bool" where
  "names_ok s \<longleftrightarrow> length (ipPort s) \<le> 51 \<and> nextConnId s = int (length (conns s)) + 1 \<and> length (conns s) < 2 ^ 31 - 1
    \<and> named s \<and> mapped s \<and> set (base_queue s) \<subseteq> {..<length (conns s)}"

definition spread_ok :: "TcpServer \<Rightarrow> bool" where
  "spread_ok s \<longleftrightarrow> srv_started s = listenning (acceptor s) \<and> 0 \<le> numThreads (threadPool s) \<and> numThreads (threadPool s) < 2 ^ 31
    \<and> started (threadPool s) = srv_started s
    \<and> (if srv_started s then length (loops (threadPool s)) = nat (numThreads (threadPool s))
         \<and> (loops (threadPool s) \<noteq> [] \<longrightarrow> next_index (threadPool s) = length (conns s) mod length (loops (threadPool s)))
       else loops (threadPool s) = [] \<and> next_index (threadPool s) = 0 \<and> conns s = [])
    \<and> (\<forall>i < length (conns s). ioLoop (conns s ! i) =
         (if loops (threadPool s) = [] then BaseLoop else loops (threadPool s) ! (i mod length (loops (threadPool s)))))"




lemma upd_conn_simps [simp]:
  "length (conns (upd_conn i f s)) = length (conns s)" "connection_map (upd_conn i f s) = connection_map s"
  "base_queue (upd_conn i f s) = base_queue s" "threadPool (upd_conn i f s) = threadPool s"
  "acceptor (upd_conn i f s) = acceptor s" "srv_started (upd_conn i f s) = srv_started s"
  "nextConnId (upd_conn i f s) = nextConnId s" "ipPort (upd_conn i f s) = ipPort s" "srv_name (upd_conn i f s) = srv_name s"
  "conns (upd_conn i f s) = [] \<longleftrightarrow> conns s = []"
  by (simp_all add: upd_conn_def)

lemma upd_conn_nth: "i < length (conns s) \<Longrightarrow> conns (upd_conn i f s) ! j = (if j = i then f (conns s ! i) else conns s ! j)"
  by (simp add: upd_conn_def nth_list_update)

text \<open>Updates that keep the name and the loop of a connection.\<close>

definition tame :: "(ServerConn \<Rightarrow> ServerConn) \<Rightarrow> bool" where
  "tame f \<longleftrightarrow> (\<forall>sc. connName (f sc) = connName sc \<and> ioLoop (f sc) = ioLoop sc)"

lemma tame_simps [simp]: "tame (\<lambda>sc. sc\<lparr>conn := c\<rparr>)" "tame (\<lambda>sc. sc\<lparr>io_queue := q\<rparr>)" "tame (\<lambda>sc. sc\<lparr>io_queue := io_queue sc @ r\<rparr>)"
  by (simp_all add: tame_def)

lemma connection_name_frame [simp]:
  "connection_name (s\<lparr>base_queue := q\<rparr>) = connection_name s" "connection_name (s\<lparr>connection_map := m\<rparr>) = connection_name s"
  "connection_name (s\<lparr>conns := cs\<rparr>) = connection_name s" "connection_name (s\<lparr>threadPool := p\<rparr>) = connection_name s"
  "connection_name (s\<lparr>acceptor := a\<rparr>) = connection_name s" "connection_name (s\<lparr>nextConnId := n\<rparr>) = connection_name s"
  "connection_name (s\<lparr>srv_started := b\<rparr>) = connection_name s"
  by (simp_all add: connection_name_def fun_eq_iff)

lemma spread_frame [simp]:
  "spread_ok (s\<lparr>base_queue := q\<rparr>) = spread_ok s" "spread_ok (s\<lparr>connection_map := m\<rparr>) = spread_ok s"
  by (simp_all add: spread_ok_def)

lemma named_frame [simp]:
  "named (s\<lparr>base_queue := q\<rparr>) = named s" "named (s\<lparr>connection_map := m\<rparr>) = named s"
  by (simp_all add: named_def)

lemma mapped_frame [simp]: "mapped (s\<lparr>base_queue := q\<rparr>) = mapped s"
  by (simp add: mapped_def)

text \<open>The acceptor, the pool and the flag of the server do not concern its connections.\<close>

lemma conns_frame [simp]:
  "conns_ok d (s\<lparr>acceptor := a\<rparr>) = conns_ok d s" "conns_ok d (s\<lparr>threadPool := p\<rparr>) = conns_ok d s"
  "conns_ok d (s\<lparr>srv_started := b\<rparr>) = conns_ok d s"
  by (simp_all add: conns_ok_def in_map_def)

lemma names_frame [simp]:
  "names_ok (s\<lparr>acceptor := a\<rparr>) = names_ok s" "names_ok (s\<lparr>threadPool := p\<rparr>) = names_ok s"
  "names_ok (s\<lparr>srv_started := b\<rparr>) = names_ok s"
  by (simp_all add: names_ok_def named_def mapped_def)



lemma in_map_queue [simp]: "in_map (s\<lparr>base_queue := q\<rparr>) = in_map s"
  by (simp add: in_map_def fun_eq_iff)

lemma upd_conn_tame [simp]:
  assumes "tame f" "i < length (conns s)"
  shows "connName (conns (upd_conn i f s) ! j) = connName (conns s ! j)" "ioLoop (conns (upd_conn i f s) ! j) = ioLoop (conns s ! j)"
  using assms by (simp_all add: upd_conn_nth tame_def)

lemma connection_name_upd [simp]: "connection_name (upd_conn i f s) k = connection_name s k"
  by (simp add: connection_name_def)



lemma in_map_upd [simp]: "tame f \<Longrightarrow> i < length (conns s) \<Longrightarrow> in_map (upd_conn i f s) j = in_map s j"
  by (simp add: in_map_def)

section \<open>The operations keep the invariant\<close>










lemma tame_comp [simp]: "tame f \<Longrightarrow> tame g \<Longrightarrow> tame (g \<circ> f)"
  by (simp add: tame_def)















section \<open>The destructor\<close>







section \<open>Properties\<close>




text \<open>Outside the loop's thread \<^verbatim>\<open>start()\<close> aborts in the thread pool.\<close>

lemma start_outside_loop: "\<not> srv_started s \<Longrightarrow> \<not> started (threadPool s) \<Longrightarrow> tcp_start False cb s = Inl Aborted"
  by (simp add: tcp_start_def pool_start_def Let_def)

end
