(* ===== verification/ProtobufCodec.thy ===== *)
theory ProtobufCodec
  imports Buffer
begin

text \<open>
  \<^verbatim>\<open>muduo/net/protobuf/ProtobufCodecLite\<close>: messages on a byte stream as frames of a length, a tag, the serialized
  message and a checksum. The protobuf library and zlib's \<^verbatim>\<open>adler32\<close> are parameters.
\<close>

section \<open>The codec\<close>

text \<open>
  \<open>serialize\<close> is what \<^verbatim>\<open>SerializeWithCachedSizesToArray\<close> writes, \<open>parseArray\<close> is \<^verbatim>\<open>ParseFromArray\<close> and \<open>adler32\<close> is
  \<^verbatim>\<open>adler32(1, \<dots>)\<close>. \<open>rawCb\<close> is \<^verbatim>\<open>rawCb_\<close>, if one is set.
\<close>

record 'm ProtobufCodecLite =
  tag :: string
  serialize :: "'m \<Rightarrow> string"
  parseArray :: "string \<Rightarrow> 'm option"
  adler32 :: "string \<Rightarrow> 32 word"
  rawCb :: "(string \<Rightarrow> bool) option"

definition kHeaderLen :: nat where "kHeaderLen = 4"
definition kChecksumLen :: nat where "kChecksumLen = 4"
definition kMaxMessageLen :: int where "kMaxMessageLen = 64 * 1024 * 1024"

definition kMinMessageLen :: "'m ProtobufCodecLite \<Rightarrow> nat" where
  "kMinMessageLen cd = length (tag cd) + kChecksumLen"

datatype ErrorCode =
    kNoError
  | kInvalidLength
  | kCheckSumError
  | kInvalidNameLen
  | kUnknownMessageType
  | kParseError

definition errorCodeToString :: "ErrorCode \<Rightarrow> string" where
  "errorCodeToString errorCode = (case errorCode of
       kNoError \<Rightarrow> ''NoError'' | kInvalidLength \<Rightarrow> ''InvalidLength'' | kCheckSumError \<Rightarrow> ''CheckSumError''
     | kInvalidNameLen \<Rightarrow> ''InvalidNameLen'' | kUnknownMessageType \<Rightarrow> ''UnknownMessageType'' | kParseError \<Rightarrow> ''ParseError'')"

section \<open>Sending\<close>

definition checksum :: "'m ProtobufCodecLite \<Rightarrow> string \<Rightarrow> 32 word" where
  "checksum cd buf = adler32 cd buf"

text \<open>The bytes are written into the free space; returns their number.\<close>

definition serializeToBuffer :: "'m ProtobufCodecLite \<Rightarrow> 'm \<Rightarrow> Buffer \<Rightarrow> (nat \<times> Buffer) res" where
  "serializeToBuffer cd message buf =
    (let data = serialize cd message; byte_size = length data in
     bindE (ensureWritableBytes buf (byte_size + kChecksumLen)) (\<lambda>buf.
     bindE (hasWritten (buf\<lparr>buffer := overwrite (buffer buf) (beginWrite buf) data\<rparr>) byte_size) (\<lambda>buf.
     Inr (byte_size, buf))))"

definition fillEmptyBuffer :: "bool \<Rightarrow> 'm ProtobufCodecLite \<Rightarrow> Buffer \<Rightarrow> 'm \<Rightarrow> Buffer res" where
  "fillEmptyBuffer little cd buf message =
    bindE (assertE (readableBytes buf = 0)) (\<lambda>_.
    bindE (append_bytes buf (tag cd)) (\<lambda>buf.
    bindE (serializeToBuffer cd message buf) (\<lambda>(byte_size, buf).
    let checkSum = checksum cd (segment (buffer buf) (peek buf) (peek buf + readableBytes buf)) in
    bindE (appendInt32 little buf checkSum) (\<lambda>buf.
    bindE (assertE (readableBytes buf = length (tag cd) + byte_size + kChecksumLen)) (\<lambda>_.
    let len = hostToNetwork32 little (word_of_nat (readableBytes buf)) in
    prepend buf (mem_bytes little len))))))"

section \<open>Receiving\<close>

definition asInt32 :: "bool \<Rightarrow> string \<Rightarrow> 32 word" where
  "asInt32 little buf = networkToHost32 little (mem_word little (take 4 buf))"

definition validateChecksum :: "bool \<Rightarrow> 'm ProtobufCodecLite \<Rightarrow> string \<Rightarrow> bool" where
  "validateChecksum little cd buf =
    (let len = length buf;
         expectedCheckSum = asInt32 little (drop (len - kChecksumLen) buf);
         checkSum = checksum cd (take (len - kChecksumLen) buf) in
     checkSum = expectedCheckSum)"

definition codec_parse :: "bool \<Rightarrow> 'm ProtobufCodecLite \<Rightarrow> string \<Rightarrow> ErrorCode \<times> 'm option" where
  "codec_parse little cd buf =
    (if validateChecksum little cd buf
     then
       if take (length (tag cd)) buf = tag cd
       then
         let data = drop (length (tag cd)) buf;
             dataLen = length buf - kChecksumLen - length (tag cd) in
         (case parseArray cd (take dataLen data) of
            Some message \<Rightarrow> (kNoError, Some message)
          | None \<Rightarrow> (kParseError, None))
       else (kUnknownMessageType, None)
     else (kCheckSumError, None))"

text \<open>The calls of the callbacks.\<close>

datatype 'm codec_note = Received 'm | Rejected ErrorCode

lemma retrieve_shrinks:
  assumes "retrieve b n = Inr b'" "0 < n" "0 < readableBytes b"
  shows "readableBytes b' < readableBytes b"
  using assms by (auto simp: retrieve_def bindE_Inr_iff readableBytes_def retrieveAll_def split: if_splits)

text \<open>
  The loop of \<^verbatim>\<open>onMessage\<close>. Each round that goes on has retrieved a whole frame, so it ends.
\<close>

function codec_onMessage :: "bool \<Rightarrow> 'm ProtobufCodecLite \<Rightarrow> Buffer \<Rightarrow> ('m codec_note list \<times> Buffer) res" where
  "codec_onMessage little cd buf =
    (if readableBytes buf \<ge> kMinMessageLen cd + kHeaderLen
     then
       case peekInt32 little buf of
         Inl e \<Rightarrow> Inl e
       | Inr w \<Rightarrow>
           let len = sint w in
           if len > kMaxMessageLen \<or> len < int (kMinMessageLen cd) then Inr ([Rejected kInvalidLength], buf)
           else if readableBytes buf \<ge> kHeaderLen + nat len
           then
             let whole = segment (buffer buf) (peek buf) (peek buf + kHeaderLen + nat len) in
             if (case rawCb cd of None \<Rightarrow> False | Some cb \<Rightarrow> \<not> cb whole)
             then (case retrieve buf (kHeaderLen + nat len) of
                     Inl e \<Rightarrow> Inl e
                   | Inr buf' \<Rightarrow> codec_onMessage little cd buf')
             else
               (case codec_parse little cd (drop kHeaderLen whole) of
                  (kNoError, Some message) \<Rightarrow>
                    (case retrieve buf (kHeaderLen + nat len) of
                       Inl e \<Rightarrow> Inl e
                     | Inr buf' \<Rightarrow>
                         bindE (codec_onMessage little cd buf') (\<lambda>(outs, buf''). Inr (Received message # outs, buf'')))
                | (errorCode, _) \<Rightarrow> Inr ([Rejected errorCode], buf))
           else Inr ([], buf)
     else Inr ([], buf))"
  by pat_completeness auto
termination
  by (relation "measure (\<lambda>(little, cd, buf). readableBytes buf)")
    (auto simp: kHeaderLen_def intro!: retrieve_shrinks)

declare codec_onMessage.simps [simp del]

text \<open>A stream arriving in chunks: each chunk is appended to the input buffer and the codec is called.\<close>

fun receive :: "bool \<Rightarrow> 'm ProtobufCodecLite \<Rightarrow> string list \<Rightarrow> Buffer \<Rightarrow> ('m codec_note list \<times> Buffer) res" where
  "receive little cd [] buf = Inr ([], buf)"
| "receive little cd (chunk # chunks) buf =
    bindE (append_bytes buf chunk) (\<lambda>buf.
    bindE (codec_onMessage little cd buf) (\<lambda>(outs, buf).
    bindE (receive little cd chunks buf) (\<lambda>(outs', buf). Inr (outs @ outs', buf))))"

section \<open>The wire format\<close>

definition frame :: "'m ProtobufCodecLite \<Rightarrow> 'm \<Rightarrow> string" where
  "frame cd m =
    (let body = tag cd @ serialize cd m in
     be_bytes (word_of_nat (length body + 4) :: 32 word) @ body @ be_bytes (adler32 cd body))"

text \<open>What the codec relies on: protobuf parses what it has serialized, and messages have an acceptable size.\<close>

definition codec_ok :: "'m ProtobufCodecLite \<Rightarrow> bool" where
  "codec_ok cd \<longleftrightarrow> (\<forall>m. parseArray cd (serialize cd m) = Some m)"

definition fits :: "'m ProtobufCodecLite \<Rightarrow> 'm \<Rightarrow> bool" where
  "fits cd m \<longleftrightarrow> int (length (tag cd) + length (serialize cd m) + 4) \<le> kMaxMessageLen"

definition raw_ok :: "'m ProtobufCodecLite \<Rightarrow> bool" where
  "raw_ok cd = (case rawCb cd of None \<Rightarrow> True | Some cb \<Rightarrow> (\<forall>s. cb s))"

lemma be32 [simp]: "length (be_bytes (w :: 32 word)) = 4" "be_word (be_bytes w) = (w :: 32 word)"
  by (simp_all add: be_word_be_bytes [where n = 4])

lemma length_frame: "length (frame cd m) = length (tag cd) + length (serialize cd m) + 8"
  by (simp add: frame_def Let_def)

section \<open>Sending\<close>

lemma ensure_reader: "ensureWritableBytes b n = Inr b' \<Longrightarrow> kCheapPrepend \<le> readerIndex b \<Longrightarrow> kCheapPrepend \<le> readerIndex b'"
  by (auto simp: ensureWritableBytes_def makeSpace_def bindE_Inr_iff Let_def split: if_splits)

lemma hasWritten_reader: "hasWritten b n = Inr b' \<Longrightarrow> readerIndex b' = readerIndex b"
  by (auto simp: hasWritten_def bindE_Inr_iff)

lemma append_reader: "append_bytes b s = Inr b' \<Longrightarrow> kCheapPrepend \<le> readerIndex b \<Longrightarrow> kCheapPrepend \<le> readerIndex b'"
  by (auto simp: append_bytes_def bindE_Inr_iff dest!: hasWritten_reader dest: ensure_reader)

definition ready :: "Buffer \<Rightarrow> string \<Rightarrow> bool" where
  "ready b s \<longleftrightarrow> binv b \<and> content b = s \<and> kCheapPrepend \<le> readerIndex b"

lemma append_ready: "ready b s \<Longrightarrow> \<exists>b'. append_bytes b t = Inr b' \<and> ready b' (s @ t)"
  using append_ok [of b t] append_reader [of b t] by (auto simp: ready_def okE_iff)

lemma serialize_ready:
  assumes "ready b s"
  shows "\<exists>b'. serializeToBuffer cd m b = Inr (length (serialize cd m), b') \<and> ready b' (s @ serialize cd m)"
proof -
  let ?d = "serialize cd m"
  obtain b1 where b1: "ensureWritableBytes b (length ?d + kChecksumLen) = Inr b1" "ready b1 s" "length ?d \<le> writableBytes b1"
    using ensureWritableBytes_ok [of b "length ?d + kChecksumLen"] ensure_reader [of b] assms by (auto simp: ready_def okE_iff)
  then obtain b2 where b2: "hasWritten (b1\<lparr>buffer := overwrite (buffer b1) (beginWrite b1) ?d\<rparr>) (length ?d) = Inr b2"
      "binv b2" "content b2 = s @ ?d"
    using write_ok [of b1 ?d] by (auto simp: ready_def okE_iff)
  have "readerIndex b2 = readerIndex b1" using hasWritten_reader [OF b2(1)] by simp
  with b1 b2 show ?thesis by (auto simp: serializeToBuffer_def Let_def ready_def)
qed

lemma ready_readable: "ready b s \<Longrightarrow> readableBytes b = length s"
  unfolding ready_def using length_content by metis

lemma ready_segment: "ready b s \<Longrightarrow> segment (buffer b) (peek b) (peek b + readableBytes b) = s"
  using segment_content [of b "readableBytes b"] ready_readable [of b s] by (simp add: ready_def)

lemma fill_ok:
  assumes "ready b []"
  shows "okE (fillEmptyBuffer little cd b m) (\<lambda>b'. binv b' \<and> content b' = frame cd m)"
proof -
  let ?body = "tag cd @ serialize cd m"
  obtain b1 where b1: "append_bytes b (tag cd) = Inr b1" "ready b1 (tag cd)" using append_ready [OF assms, of "tag cd"] by auto
  obtain b2 where b2: "serializeToBuffer cd m b1 = Inr (length (serialize cd m), b2)" "ready b2 ?body"
    using serialize_ready [OF b1(2), of cd m] by blast
  obtain b3 where b3: "append_bytes b2 (be_bytes (adler32 cd ?body)) = Inr b3" "ready b3 (?body @ be_bytes (adler32 cd ?body))"
    using append_ready [OF b2(2), of "be_bytes (adler32 cd ?body)"] by auto
  have r: "readableBytes b = 0" "readableBytes b3 = length ?body + 4"
    using ready_readable [OF assms] ready_readable [OF b3(2)] by simp_all
  have p: "binv b3" "4 \<le> prependableBytes b3" using b3(2) by (simp_all add: ready_def prependableBytes_def kCheapPrepend_def)
  have "okE (prepend b3 (be_bytes (word_of_nat (length ?body + 4) :: 32 word))) (\<lambda>b'. binv b' \<and> content b' = frame cd m)"
    using prepend_ok [OF p(1), of "be_bytes (word_of_nat (length ?body + 4) :: 32 word)"] p(2) b3(2)
    by (simp add: ready_def frame_def Let_def)
  then show ?thesis
    using b1(1) b2(1) b3(1) r ready_segment [OF b2(2)]
    by (simp add: fillEmptyBuffer_def checksum_def Let_def int_append_eqs kChecksumLen_def)
qed

section \<open>Receiving\<close>

lemma frame_header:
  assumes "fits cd m" "4 \<le> length p" "p @ t = frame cd m @ s"
  shows "sint (be_word (take 4 p) :: 32 word) = int (length (tag cd) + length (serialize cd m) + 4)"
proof -
  let ?n = "length (tag cd) + length (serialize cd m) + 4"
  have "take 4 p = take 4 (p @ t)" using assms(2) by simp
  also have "\<dots> = be_bytes (word_of_nat ?n :: 32 word)" unfolding assms(3) by (simp add: frame_def Let_def)
  finally have "be_word (take 4 p) = (word_of_nat ?n :: 32 word)" by simp
  moreover have "?n < 2 ^ 31" using assms(1) by (simp add: fits_def kMaxMessageLen_def)
  moreover have "sint (word_of_nat ?n :: 32 word) = signed_take_bit 31 (int ?n)"
    by (simp only: signed_of_nat) simp
  ultimately show ?thesis by (simp only: signed_take_bit_int_eq_self_iff) simp
qed

lemma parse_frame:
  assumes "codec_ok cd"
  shows "codec_parse little cd (drop 4 (frame cd m)) = (kNoError, Some m)"
proof -
  let ?body = "tag cd @ serialize cd m"
  have "drop 4 (frame cd m) = ?body @ be_bytes (adler32 cd ?body)" by (simp add: frame_def Let_def)
  then show ?thesis using assms wire_words(2) [of "be_bytes (adler32 cd ?body)" little]
    by (simp add: codec_parse_def validateChecksum_def asInt32_def checksum_def kChecksumLen_def Let_def codec_ok_def)
qed

lemma onMessage_frame:
  assumes "codec_ok cd" "raw_ok cd" "fits cd m" "binv b" "content b = frame cd m @ s"
  shows "\<exists>b'. binv b' \<and> content b' = s \<and> codec_onMessage little cd b
    = bindE (codec_onMessage little cd b') (\<lambda>(outs, b''). Inr (Received m # outs, b''))"
proof -
  let ?n = "length (tag cd) + length (serialize cd m) + 4"
  have l: "readableBytes b = ?n + 4 + length s" using length_content [OF assms(4)] assms(5) length_frame [of cd m] by simp
  have h: "sint (be_word (take 4 (content b)) :: 32 word) = int ?n"
    using frame_header [OF assms(3), of "content b" "[]" s] assms(5) l length_content [OF assms(4)] by simp
  have p: "peekInt32 little b = Inr (be_word (take 4 (content b)))" using peekInt32_eq [OF assms(4)] l by simp
  have w: "segment (buffer b) (peek b) (peek b + 4 + ?n) = frame cd m"
    using segment_content [OF assms(4), of "4 + ?n"] l assms(5) length_frame [of cd m] by (simp add: add.assoc)
  obtain b' where b': "retrieve b (4 + ?n) = Inr b'" "binv b'" "content b' = s"
    using retrieve_ok [OF assms(4), of "4 + ?n"] l assms(5) length_frame [of cd m] by (auto simp: okE_iff)
  have r: "\<not> (case rawCb cd of None \<Rightarrow> False | Some cb \<Rightarrow> \<not> cb (frame cd m))" using assms(2) by (auto simp: raw_ok_def split: option.splits)
  have g: "readableBytes b \<ge> kMinMessageLen cd + kHeaderLen" "\<not> (int ?n > kMaxMessageLen \<or> int ?n < int (kMinMessageLen cd))"
    "readableBytes b \<ge> kHeaderLen + ?n"
    using l assms(3) by (simp_all add: kMinMessageLen_def kChecksumLen_def kHeaderLen_def fits_def)
  have "codec_onMessage little cd b = (case retrieve b (kHeaderLen + ?n) of Inl e \<Rightarrow> Inl e
      | Inr buf' \<Rightarrow> bindE (codec_onMessage little cd buf') (\<lambda>(outs, buf''). Inr (Received m # outs, buf'')))"
    using g r parse_frame [OF assms(1), of little m]
    by (subst codec_onMessage.simps) (simp only: p h w Let_def sum.case if_True if_False nat_int simp_thms kHeaderLen_def prod.case
        ErrorCode.case option.case)
  with b' show ?thesis by (auto simp: kHeaderLen_def)
qed

lemma onMessage_partial:
  assumes "fits cd m" "binv b" "content b @ t = frame cd m @ s" "length (content b) < length (frame cd m)"
  shows "codec_onMessage little cd b = Inr ([], b)"
proof (cases "readableBytes b \<ge> kMinMessageLen cd + kHeaderLen")
  case True
  let ?n = "length (tag cd) + length (serialize cd m) + 4"
  have l: "4 \<le> length (content b)" "readableBytes b = length (content b)"
    using True length_content [OF assms(2)] by (simp_all add: kHeaderLen_def)
  have h: "sint (be_word (take 4 (content b)) :: 32 word) = int ?n" by (rule frame_header [OF assms(1) l(1) assms(3)])
  have p: "peekInt32 little b = Inr (be_word (take 4 (content b)))" using peekInt32_eq [OF assms(2)] l by simp
  have g: "\<not> (int ?n > kMaxMessageLen \<or> int ?n < int (kMinMessageLen cd))" "\<not> readableBytes b \<ge> kHeaderLen + ?n"
    using assms(1,4) l(2) length_frame [of cd m] by (simp_all add: kMinMessageLen_def kChecksumLen_def kHeaderLen_def fits_def)
  show ?thesis using True g
    by (subst codec_onMessage.simps) (simp only: p h Let_def sum.case if_True if_False nat_int simp_thms)
qed (subst codec_onMessage.simps, simp)

lemma append_eq_longer: "length p \<le> length xs \<Longrightarrow> xs @ t = p @ s \<Longrightarrow> \<exists>r. xs = p @ r \<and> r @ t = s"
  by (metis append_eq_append_conv_if append_take_drop_id append_eq_conv_conj drop_append)

lemma onMessage_prefix:
  assumes "codec_ok cd" "raw_ok cd" "list_all (fits cd) ms" "binv b" "content b @ t = concat (map (frame cd) ms)"
  shows "\<exists>ms1 ms2 b'. ms = ms1 @ ms2 \<and> codec_onMessage little cd b = Inr (map Received ms1, b') \<and> binv b'
    \<and> content b' @ t = concat (map (frame cd) ms2) \<and> (ms2 \<noteq> [] \<longrightarrow> length (content b') < length (frame cd (hd ms2)))"
  using assms(3-5)
proof (induction ms arbitrary: b)
  case Nil
  then have "readableBytes b = 0" using length_content [of b] by simp
  then have "codec_onMessage little cd b = Inr ([], b)" by (subst codec_onMessage.simps) (simp add: kHeaderLen_def)
  with Nil show ?case by simp
next
  case (Cons m ms)
  have f: "fits cd m" "list_all (fits cd) ms" using Cons.prems(1) by simp_all
  have e: "content b @ t = frame cd m @ concat (map (frame cd) ms)" using Cons.prems(3) by simp
  show ?case
  proof (cases "length (frame cd m) \<le> length (content b)")
    case False
    then have "codec_onMessage little cd b = Inr ([], b)" using onMessage_partial [OF f(1) Cons.prems(2) e] by simp
    with False Cons.prems show ?thesis by (intro exI [of _ "[]"] exI [of _ "m # ms"] exI [of _ b]) simp
  next
    case True
    then obtain s where s: "content b = frame cd m @ s" "s @ t = concat (map (frame cd) ms)" using append_eq_longer [OF _ e] by blast
    obtain b1 where b1: "binv b1" "content b1 = s" "codec_onMessage little cd b
        = bindE (codec_onMessage little cd b1) (\<lambda>(outs, b''). Inr (Received m # outs, b''))"
      using onMessage_frame [OF assms(1,2) f(1) Cons.prems(2) s(1)] by blast
    have "content b1 @ t = concat (map (frame cd) ms)" using b1(2) s(2) by simp
    from Cons.IH [OF f(2) b1(1) this] obtain ms1 ms2 b' where "ms = ms1 @ ms2" "codec_onMessage little cd b1 = Inr (map Received ms1, b')"
      "binv b'" "content b' @ t = concat (map (frame cd) ms2)" "ms2 \<noteq> [] \<longrightarrow> length (content b') < length (frame cd (hd ms2))" by blast
    with b1(3) show ?thesis by (intro exI [of _ "m # ms1"] exI [of _ ms2] exI [of _ b']) simp
  qed
qed

lemma receive_ok:
  assumes "codec_ok cd" "raw_ok cd" "list_all (fits cd) ms" "binv b" "content b @ concat chunks = concat (map (frame cd) ms)"
    and "ms \<noteq> [] \<longrightarrow> length (content b) < length (frame cd (hd ms))"
  shows "\<exists>b'. receive little cd chunks b = Inr (map Received ms, b') \<and> binv b' \<and> content b' = []"
  using assms(3-6)
proof (induction chunks arbitrary: ms b)
  case Nil
  have "ms = []"
  proof (rule ccontr)
    assume m: "ms \<noteq> []"
    then have "length (frame cd (hd ms)) \<le> length (concat (map (frame cd) ms))" by (cases ms) simp_all
    with Nil m show False by simp
  qed
  with Nil show ?case by simp
next
  case (Cons chunk chunks)
  obtain b1 where b1: "append_bytes b chunk = Inr b1" "binv b1" "content b1 = content b @ chunk"
    using append_ok [OF Cons.prems(2), of chunk] by (auto simp: okE_iff)
  have "content b1 @ concat chunks = concat (map (frame cd) ms)" using Cons.prems(3) b1(3) by simp
  from onMessage_prefix [OF assms(1,2) Cons.prems(1) b1(2) this, of little]
  obtain ms1 ms2 b2 where m: "ms = ms1 @ ms2" "codec_onMessage little cd b1 = Inr (map Received ms1, b2)" "binv b2"
    "content b2 @ concat chunks = concat (map (frame cd) ms2)" "ms2 \<noteq> [] \<longrightarrow> length (content b2) < length (frame cd (hd ms2))" by blast
  have "list_all (fits cd) ms2" using Cons.prems(1) m(1) by simp
  from Cons.IH [OF this m(3-5)] obtain b' where "receive little cd chunks b2 = Inr (map Received ms2, b')" "binv b'" "content b' = []" by blast
  with b1(1) m(1,2) show ?case by simp
qed

section \<open>Property\<close>

text \<open>
  C37: Take any sequence of messages, each at most 64 MB on the wire (\<open>fits\<close>), a protobuf library that parses
  what it has serialized (\<open>codec_ok\<close>), and a raw callback that is not set or always returns true (\<open>raw_ok\<close>). Then filling
  each message into a new buffer succeeds, no assertion failing; and however the stream of these frames is cut into chunks, a host of
  any byte order receives exactly these messages, once, in order and without an error, and its input buffer is empty
  afterwards.
\<close>

theorem codec_stream:
  assumes "codec_ok cd" "raw_ok cd" "list_all (fits cd) ms"
  shows "\<exists>b bufs. mkBuffer kInitialSize = Inr b \<and> list_all2 (\<lambda>m b'. fillEmptyBuffer little cd b m = Inr b') ms bufs
    \<and> (\<forall>chunks. concat chunks = concat (map content bufs) \<longrightarrow>
        (\<exists>b'. receive little' cd chunks b = Inr (map Received ms, b') \<and> content b' = []))"
proof -
  obtain b where b: "mkBuffer kInitialSize = Inr b" "ready b []"
    using mkBuffer_ok [of kInitialSize] by (auto simp: ready_def okE_iff mkBuffer_def bindE_Inr_iff Let_def)
  define fill where "fill m = (case fillEmptyBuffer little cd b m of Inr b' \<Rightarrow> b' | Inl _ \<Rightarrow> b)" for m
  have f: "fillEmptyBuffer little cd b m = Inr (fill m)" "content (fill m) = frame cd m" for m
    using fill_ok [OF b(2), of little cd m] by (auto simp: fill_def okE_iff)
  have "\<exists>b'. receive little' cd chunks b = Inr (map Received ms, b') \<and> content b' = []"
    if c: "concat chunks = concat (map content (map fill ms))" for chunks
  proof -
    have "binv b" "content b @ concat chunks = concat (map (frame cd) ms)" "ms \<noteq> [] \<longrightarrow> length (content b) < length (frame cd (hd ms))"
      using c b(2) f(2) by (simp_all add: ready_def length_frame comp_def)
    from receive_ok [OF assms this] show ?thesis by blast
  qed
  moreover have "list_all2 (\<lambda>m b'. fillEmptyBuffer little cd b m = Inr b') ms (map fill ms)"
    using f(1) by (simp add: list_all2_map2 list.rel_refl)
  ultimately show ?thesis using b(1) by blast
qed

text \<open>A codec for strings that are their own serialization, with the length as checksum.\<close>

definition plain_codec :: "string ProtobufCodecLite" where
  "plain_codec = \<lparr>tag = ''RPC0'', serialize = (\<lambda>m. m), parseArray = Some, adler32 = (\<lambda>s. word_of_nat (length s)), rawCb = None\<rparr>"

theorem codec_stream_witness:
  "\<exists>b x y b'. mkBuffer kInitialSize = Inr b \<and> fillEmptyBuffer True plain_codec b ''hi'' = Inr x
    \<and> fillEmptyBuffer True plain_codec b ''you'' = Inr y
    \<and> receive False plain_codec [take 5 (content x), drop 5 (content x) @ take 9 (content y), drop 9 (content y)] b
      = Inr ([Received ''hi'', Received ''you''], b')"
proof -
  have c: "codec_ok plain_codec" "raw_ok plain_codec" "list_all (fits plain_codec) [''hi'', ''you'']"
    by (simp_all add: codec_ok_def raw_ok_def fits_def plain_codec_def kMaxMessageLen_def)
  from codec_stream [OF c, of True False] obtain b bufs where b: "mkBuffer kInitialSize = Inr b"
    "list_all2 (\<lambda>m b'. fillEmptyBuffer True plain_codec b m = Inr b') [''hi'', ''you''] bufs"
    "\<forall>chunks. concat chunks = concat (map content bufs) \<longrightarrow>
        (\<exists>b'. receive False plain_codec chunks b = Inr (map Received [''hi'', ''you''], b') \<and> content b' = [])"
    by blast
  obtain x y where xy: "bufs = [x, y]" "fillEmptyBuffer True plain_codec b ''hi'' = Inr x" "fillEmptyBuffer True plain_codec b ''you'' = Inr y"
    using b(2) by (auto simp: list_all2_Cons1)
  have "concat [take 5 (content x), drop 5 (content x) @ take 9 (content y), drop 9 (content y)] = concat (map content bufs)"
    by (simp add: xy(1))
  with b(3) have "\<exists>b'. receive False plain_codec [take 5 (content x), drop 5 (content x) @ take 9 (content y), drop 9 (content y)] b
      = Inr ([Received ''hi'', Received ''you''], b')" by fastforce
  with b(1) xy(2,3) show ?thesis by blast
qed

end
