(* ===== verification/Rpc.thy ===== *)
theory Rpc
  imports Prelude "HOL-Library.Multiset"
begin

text \<open>
  \<^verbatim>\<open>muduo/net/protorpc\<close>: remote calls over a connection. A channel numbers the calls it makes, remembers them until the
  response with the same number comes, and answers the requests of its peer through its services. The messages are those
  of \<^verbatim>\<open>rpc.proto\<close>; the codec delivers them once and in order, as shown for \<^verbatim>\<open>ProtobufCodecLite\<close>.
\<close>

section \<open>Messages\<close>

datatype MessageType = REQUEST | RESPONSE | ERROR

datatype RpcErrorCode =
  NO_ERROR | WRONG_PROTO | NO_SERVICE | NO_METHOD | INVALID_REQUEST | INVALID_RESPONSE | TIMEOUT

record RpcMessage =
  mtype :: MessageType
  mid :: "64 word"
  service :: string
  mmethod :: string
  request :: string
  response :: "string option"
  error :: "RpcErrorCode option"

text \<open>
  What a service is to a channel: for each of its methods, whether the bytes of a request parse. The parsers are code that
  \<^verbatim>\<open>protoc\<close> generates.
\<close>

type_synonym service_table = "string \<rightharpoonup> string \<rightharpoonup> (string \<Rightarrow> bool)"

text \<open>The response object (or a null pointer) and the closure to run, named by a number.\<close>

record OutstandingCall =
  out_response :: bool
  out_done :: "nat option"

text \<open>
  \<open>serving\<close> are the calls handed to a service whose closure has not run; \<open>completed\<close> the closures that were run, with the
  bytes parsed into the response object, if any.
\<close>

record RpcChannel =
  rpc_id :: "64 word"
  outstandings :: "64 word \<rightharpoonup> OutstandingCall"
  services :: "service_table option"
  serving :: "(64 word \<times> string \<times> string \<times> string) list"
  completed :: "(nat \<times> string option) list"

definition mkRpcChannel :: RpcChannel where
  "mkRpcChannel = \<lparr>rpc_id = 0, outstandings = Map.empty, services = None, serving = [], completed = []\<rparr>"

definition setServices :: "service_table \<Rightarrow> RpcChannel \<Rightarrow> RpcChannel" where
  "setServices t ch = ch\<lparr>services := Some t\<rparr>"

section \<open>Operations\<close>

text \<open>
  \<^verbatim>\<open>CallMethod\<close> in the three parts between which other threads may run: taking a number, remembering the call, and
  sending the message.
\<close>

definition call_id :: "RpcChannel \<Rightarrow> 64 word \<times> RpcChannel" where
  "call_id ch = (let i = rpc_id ch + 1 in (i, ch\<lparr>rpc_id := i\<rparr>))"

definition call_message :: "64 word \<Rightarrow> string \<times> string \<times> string \<Rightarrow> RpcMessage" where
  "call_message i = (\<lambda>(sv, me, rq). \<lparr>mtype = REQUEST, mid = i, service = sv, mmethod = me, request = rq, response = None,
     error = None\<rparr>)"

definition call_insert :: "64 word \<Rightarrow> OutstandingCall \<Rightarrow> RpcChannel \<Rightarrow> RpcChannel" where
  "call_insert i out ch = ch\<lparr>outstandings := (outstandings ch)(i \<mapsto> out)\<rparr>"

definition CallMethod :: "string \<times> string \<times> string \<Rightarrow> OutstandingCall \<Rightarrow> RpcChannel \<Rightarrow> RpcMessage \<times> RpcChannel" where
  "CallMethod call out ch = (let (i, ch) = call_id ch in (call_message i call, call_insert i out ch))"

definition onResponse :: "RpcMessage \<Rightarrow> RpcChannel \<Rightarrow> RpcChannel res" where
  "onResponse message ch =
    bindE (assertE (response message \<noteq> None \<or> error message \<noteq> None)) (\<lambda>_.
    let out = (case outstandings ch (mid message) of Some out \<Rightarrow> out | None \<Rightarrow> \<lparr>out_response = False, out_done = None\<rparr>);
        ch = ch\<lparr>outstandings := (outstandings ch)(mid message := None)\<rparr> in
    Inr (if out_response out
         then (case out_done out of
             Some d \<Rightarrow> ch\<lparr>completed := completed ch @ [(d, response message)]\<rparr>
           | None \<Rightarrow> ch)
         else ch))"

text \<open>The error of a request, and the method that serves it if there is none.\<close>

definition verdict :: "service_table option \<Rightarrow> string \<times> string \<times> string \<Rightarrow> RpcErrorCode" where
  "verdict ss = (\<lambda>(sv, me, rq). case ss of
       None \<Rightarrow> NO_SERVICE
     | Some t \<Rightarrow> (case t sv of
         None \<Rightarrow> NO_SERVICE
       | Some srv \<Rightarrow> (case srv me of
           None \<Rightarrow> NO_METHOD
         | Some parses \<Rightarrow> if parses rq then NO_ERROR else INVALID_REQUEST)))"

definition error_message :: "64 word \<Rightarrow> RpcErrorCode \<Rightarrow> RpcMessage" where
  "error_message i e = \<lparr>mtype = RESPONSE, mid = i, service = [], mmethod = [], request = [], response = None, error = Some e\<rparr>"

definition onRequest :: "RpcMessage \<Rightarrow> RpcChannel \<Rightarrow> RpcMessage list \<times> RpcChannel" where
  "onRequest message ch =
    (let call = (service message, mmethod message, request message); e = verdict (services ch) call in
     if e = NO_ERROR then ([], ch\<lparr>serving := serving ch @ [(mid message, call)]\<rparr>)
     else ([error_message (mid message) e], ch))"

definition onRpcMessage :: "RpcMessage \<Rightarrow> RpcChannel \<Rightarrow> (RpcMessage list \<times> RpcChannel) res" where
  "onRpcMessage message ch = (case mtype message of
       RESPONSE \<Rightarrow> bindE (onResponse message ch) (\<lambda>ch. Inr ([], ch))
     | REQUEST \<Rightarrow> Inr (onRequest message ch)
     | ERROR \<Rightarrow> Inr ([], ch))"

definition doneCallback :: "string \<Rightarrow> 64 word \<Rightarrow> RpcMessage" where
  "doneCallback r i =
    \<lparr>mtype = RESPONSE, mid = i, service = [], mmethod = [], request = [], response = Some r, error = None\<rparr>"

text \<open>The destructor deletes the calls that are still outstanding without running their closures.\<close>

definition rpc_destroy :: "RpcChannel \<Rightarrow> RpcChannel" where
  "rpc_destroy ch = ch\<lparr>outstandings := Map.empty\<rparr>"

text \<open>\<^verbatim>\<open>RpcServer\<close>: the services by their full names, and the channel a connection gets as its context.\<close>

definition registerService :: "string \<Rightarrow> (string \<rightharpoonup> (string \<Rightarrow> bool)) \<Rightarrow> service_table \<Rightarrow> service_table" where
  "registerService full_name srv t = t(full_name \<mapsto> srv)"

definition rpc_onConnection :: "bool \<Rightarrow> service_table \<Rightarrow> RpcChannel option" where
  "rpc_onConnection connected t = (if connected then Some (setServices t mkRpcChannel) else None)"

section \<open>A client and a server\<close>

text \<open>
  \<open>prep\<close> are calls that have a number and are not remembered yet, \<open>tosend\<close> those remembered and not sent; \<open>c2s\<close> and \<open>s2c\<close>
  the messages under way. Call \<open>n\<close> is \<open>issued ! n\<close>; \<open>answers\<close> records what the services answered to which call.
\<close>

record RpcSystem =
  client :: RpcChannel
  server :: RpcChannel
  prep :: "(64 word \<times> nat) list"
  tosend :: "RpcMessage list"
  c2s :: "RpcMessage list"
  s2c :: "RpcMessage list"
  issued :: "(string \<times> string \<times> string) list"
  answers :: "(nat \<times> string) list"

definition mkRpcSystem :: "service_table \<Rightarrow> RpcSystem" where
  "mkRpcSystem t = \<lparr>client = mkRpcChannel, server = the (rpc_onConnection True t), prep = [], tosend = [], c2s = [], s2c = [],
     issued = [], answers = []\<rparr>"

definition number :: "64 word \<Rightarrow> nat" where
  "number i = unat i - 1"

inductive rpc_step :: "RpcSystem \<Rightarrow> RpcSystem \<Rightarrow> bool" where
  rpc_begin: "call_id (client s) = (i, ch) \<Longrightarrow> length (issued s) + 1 < 2 ^ 64 \<Longrightarrow>
    rpc_step s (s\<lparr>client := ch, prep := prep s @ [(i, length (issued s))], issued := issued s @ [call]\<rparr>)"
| rpc_insert: "prep s = xs @ (i, n) # ys \<Longrightarrow>
    rpc_step s (s\<lparr>client := call_insert i \<lparr>out_response = True, out_done = Some n\<rparr> (client s), prep := xs @ ys,
      tosend := tosend s @ [call_message i (issued s ! n)]\<rparr>)"
| rpc_send: "tosend s = xs @ m # ys \<Longrightarrow> rpc_step s (s\<lparr>tosend := xs @ ys, c2s := c2s s @ [m]\<rparr>)"
| rpc_request: "c2s s = m # ms \<Longrightarrow> onRpcMessage m (server s) = Inr (replies, ch) \<Longrightarrow>
    rpc_step s (s\<lparr>server := ch, c2s := ms, s2c := s2c s @ replies\<rparr>)"
| rpc_answer: "serving (server s) = xs @ (i, call) # ys \<Longrightarrow>
    rpc_step s (s\<lparr>server := (server s)\<lparr>serving := xs @ ys\<rparr>, s2c := s2c s @ [doneCallback r i],
      answers := answers s @ [(number i, r)]\<rparr>)"
| rpc_response: "s2c s = m # ms \<Longrightarrow> onRpcMessage m (client s) = Inr (replies, ch) \<Longrightarrow>
    rpc_step s (s\<lparr>client := ch, s2c := ms, c2s := c2s s @ replies\<rparr>)"

section \<open>Invariant\<close>

text \<open>Every call issued is at exactly one place: \<open>tokens\<close> is a permutation of the numbers of the calls.\<close>

definition cid :: "nat \<Rightarrow> 64 word" where
  "cid n = of_nat (Suc n)"

definition flight :: "RpcSystem \<Rightarrow> nat list" where
  "flight s = map (number \<circ> mid) (tosend s) @ map (number \<circ> mid) (c2s s) @ map (number \<circ> fst) (serving (server s))
    @ map (number \<circ> mid) (s2c s)"

definition tokens :: "RpcSystem \<Rightarrow> nat list" where
  "tokens s = map snd (prep s) @ flight s @ map fst (completed (client s))"

text \<open>What is under way belongs to a call.\<close>

definition is_request :: "RpcSystem \<Rightarrow> RpcMessage \<Rightarrow> bool" where
  "is_request s m \<longleftrightarrow> (\<exists>n < length (issued s). m = call_message (cid n) (issued s ! n))"

definition is_served :: "RpcSystem \<Rightarrow> 64 word \<times> string \<times> string \<times> string \<Rightarrow> bool" where
  "is_served s = (\<lambda>(i, call). \<exists>n < length (issued s). i = cid n \<and> call = issued s ! n
     \<and> verdict (services (server s)) call = NO_ERROR)"

definition is_answer :: "RpcSystem \<Rightarrow> nat \<Rightarrow> string option \<Rightarrow> bool" where
  "is_answer s n r \<longleftrightarrow> n < length (issued s) \<and> (case r of
       Some d \<Rightarrow> (n, d) \<in> set (answers s) \<and> verdict (services (server s)) (issued s ! n) = NO_ERROR
     | None \<Rightarrow> verdict (services (server s)) (issued s ! n) \<noteq> NO_ERROR)"

definition is_response :: "RpcSystem \<Rightarrow> RpcMessage \<Rightarrow> bool" where
  "is_response s m \<longleftrightarrow> mtype m = RESPONSE \<and> (response m \<noteq> None \<or> error m \<noteq> None)
    \<and> (\<exists>n. mid m = cid n \<and> is_answer s n (response m))"

definition content_ok :: "RpcSystem \<Rightarrow> bool" where
  "content_ok s \<longleftrightarrow> (\<forall>(i, n) \<in> set (prep s). n < length (issued s) \<and> i = cid n)
    \<and> (\<forall>m \<in> set (tosend s) \<union> set (c2s s). is_request s m)
    \<and> (\<forall>x \<in> set (serving (server s)). is_served s x)
    \<and> (\<forall>m \<in> set (s2c s). is_response s m)
    \<and> (\<forall>(n, r) \<in> set (completed (client s)). is_answer s n r)"

definition table_ok :: "RpcSystem \<Rightarrow> bool" where
  "table_ok s \<longleftrightarrow> length (issued s) < 2 ^ 64 \<and> rpc_id (client s) = of_nat (length (issued s))
    \<and> outstandings (client s) =
        (\<lambda>i. if i \<noteq> 0 \<and> number i \<in> set (flight s) then Some \<lparr>out_response = True, out_done = Some (number i)\<rparr> else None)"

definition rpc_inv :: "RpcSystem \<Rightarrow> bool" where
  "rpc_inv s \<longleftrightarrow> mset (tokens s) = mset [0..<length (issued s)] \<and> content_ok s \<and> table_ok s"

lemma number_cid: "Suc n < 2 ^ 64 \<Longrightarrow> number (cid n) = n"
  by (simp add: number_def cid_def unat_of_nat del: of_nat_Suc)

lemma cid_nonzero: "Suc n < 2 ^ 64 \<Longrightarrow> cid n \<noteq> 0"
proof
  assume "Suc n < 2 ^ 64" "cid n = 0"
  then have "unat (of_nat (Suc n) :: 64 word) = 0" by (simp add: cid_def del: of_nat_Suc)
  with \<open>Suc n < 2 ^ 64\<close> show False by (simp add: unat_of_nat del: of_nat_Suc)
qed

lemma cid_number: "i \<noteq> 0 \<Longrightarrow> cid (number i) = i"
  by (simp add: cid_def number_def unat_gt_0 del: of_nat_Suc)

lemma cid_inj: "Suc n < 2 ^ 64 \<Longrightarrow> Suc k < 2 ^ 64 \<Longrightarrow> cid n = cid k \<longleftrightarrow> n = k"
  by (metis number_cid)

lemma call_message_simps [simp]: "mtype (call_message i call) = REQUEST" "mid (call_message i call) = i"
  by (simp_all add: call_message_def split: prod.splits)

lemma tokens_distinct: "rpc_inv s \<Longrightarrow> distinct (tokens s)"
  by (metis rpc_inv_def distinct_upt mset_eq_imp_distinct_iff)

lemma rpc_bound: "rpc_inv s \<Longrightarrow> n < length (issued s) \<Longrightarrow> Suc n < 2 ^ 64"
  by (simp add: rpc_inv_def table_ok_def)

text \<open>More calls and more answers leave what is under way as it is.\<close>

lemma content_mono:
  assumes "services (server s') = services (server s)" "set (answers s) \<subseteq> set (answers s')"
    and "\<exists>more. issued s' = issued s @ more"
  shows "is_request s m \<Longrightarrow> is_request s' m" "is_served s x \<Longrightarrow> is_served s' x" "is_answer s n r \<Longrightarrow> is_answer s' n r"
    "is_response s m \<Longrightarrow> is_response s' m"
proof -
  obtain more where more: "issued s' = issued s @ more" using assms(3) by blast
  show "is_request s m \<Longrightarrow> is_request s' m" using more by (auto simp: is_request_def nth_append)
  show "is_served s x \<Longrightarrow> is_served s' x" using more assms(1) by (auto simp: is_served_def nth_append)
  have a: "is_answer s n r \<Longrightarrow> is_answer s' n r" for n r
    using more assms(1,2) by (auto simp: is_answer_def nth_append split: option.splits)
  show "is_answer s n r \<Longrightarrow> is_answer s' n r" by (rule a)
  show "is_response s m \<Longrightarrow> is_response s' m" using a by (auto simp: is_response_def)
qed

lemma mkRpcSystem_inv: "rpc_inv (mkRpcSystem t)"
  by (simp add: rpc_inv_def mkRpcSystem_def tokens_def flight_def content_ok_def table_ok_def mkRpcChannel_def setServices_def
      rpc_onConnection_def)

section \<open>Every step keeps the invariant\<close>

lemma begin_inv:
  assumes inv: "rpc_inv s" and c: "call_id (client s) = (i, ch)" "length (issued s) + 1 < 2 ^ 64"
  shows "rpc_inv (s\<lparr>client := ch, prep := prep s @ [(i, length (issued s))], issued := issued s @ [call]\<rparr>)" (is "rpc_inv ?s")
proof -
  let ?n = "length (issued s)"
  have ch: "i = cid ?n" "ch = (client s)\<lparr>rpc_id := i\<rparr>"
    using c(1) inv by (auto simp: call_id_def Let_def cid_def rpc_inv_def table_ok_def add.commute)
  have f: "flight ?s = flight s" by (simp add: flight_def)
  have "mset (tokens ?s) = mset [0..<length (issued ?s)]"
    using inv f by (simp add: rpc_inv_def tokens_def ch(2))
  moreover have "content_ok ?s"
    using inv content_mono [of ?s s] by (auto simp: rpc_inv_def content_ok_def ch)
  moreover have "table_ok ?s"
    using inv c(2) f by (simp add: rpc_inv_def table_ok_def ch(2)) (simp add: ch(1) cid_def)
  ultimately show ?thesis by (simp add: rpc_inv_def)
qed

lemma insert_inv:
  assumes inv: "rpc_inv s" and p: "prep s = xs @ (i, n) # ys"
  shows "rpc_inv (s\<lparr>client := call_insert i \<lparr>out_response = True, out_done = Some n\<rparr> (client s), prep := xs @ ys,
    tosend := tosend s @ [call_message i (issued s ! n)]\<rparr>)" (is "rpc_inv ?s")
proof -
  have n: "n < length (issued s)" "i = cid n" using inv p by (auto simp: rpc_inv_def content_ok_def)
  note b = rpc_bound [OF inv n(1)]
  have m: "number (mid (call_message i (issued s ! n))) = n"
    using b n by (simp add: call_message_def number_cid split: prod.splits)
  have f: "mset (flight ?s) = add_mset n (mset (flight s))" using m by (simp add: flight_def call_insert_def)
  then have fs: "set (flight ?s) = insert n (set (flight s))" by (metis set_mset_add_mset_insert set_mset_mset)
  have "mset (tokens ?s) = mset [0..<length (issued ?s)]"
    using inv p f by (simp add: rpc_inv_def tokens_def call_insert_def)
  moreover have "content_ok ?s"
    using inv p n content_mono [of ?s s] by (auto simp: rpc_inv_def content_ok_def is_request_def call_insert_def)
  moreover have "table_ok ?s"
    using inv n b fs cid_nonzero [OF b] cid_number number_cid [OF b]
    by (auto simp: rpc_inv_def table_ok_def call_insert_def fun_eq_iff)
  ultimately show ?thesis by (simp add: rpc_inv_def)
qed

lemma send_inv:
  assumes inv: "rpc_inv s" and p: "tosend s = xs @ m # ys"
  shows "rpc_inv (s\<lparr>tosend := xs @ ys, c2s := c2s s @ [m]\<rparr>)" (is "rpc_inv ?s")
proof -
  have f: "mset (flight ?s) = mset (flight s)" using p by (simp add: flight_def)
  then have fs: "set (flight ?s) = set (flight s)" by (rule mset_eq_setD)
  have "mset (tokens ?s) = mset [0..<length (issued ?s)]"
    using inv f by (simp add: rpc_inv_def tokens_def)
  moreover have "content_ok ?s"
    using inv p content_mono [of ?s s] by (auto simp: rpc_inv_def content_ok_def)
  moreover have "table_ok ?s" using inv fs by (simp add: rpc_inv_def table_ok_def)
  ultimately show ?thesis by (simp add: rpc_inv_def)
qed

lemma request_inv:
  assumes inv: "rpc_inv s" and c: "c2s s = m # ms" and r: "onRpcMessage m (server s) = Inr (replies, ch)"
  shows "rpc_inv (s\<lparr>server := ch, c2s := ms, s2c := s2c s @ replies\<rparr>)" (is "rpc_inv ?s")
proof -
  obtain n where n: "n < length (issued s)" "m = call_message (cid n) (issued s ! n)"
    using inv c by (auto simp: rpc_inv_def content_ok_def is_request_def)
  have m: "mtype m = REQUEST" "mid m = cid n" "(service m, mmethod m, request m) = issued s ! n"
    by (auto simp: n(2) call_message_def split: prod.splits)
  have r': "(replies, ch) = (if verdict (services (server s)) (issued s ! n) = NO_ERROR
      then ([], (server s)\<lparr>serving := serving (server s) @ [(cid n, issued s ! n)]\<rparr>)
      else ([error_message (cid n) (verdict (services (server s)) (issued s ! n))], server s))"
    using r by (auto simp: onRpcMessage_def m onRequest_def Let_def)
  have sv: "services ch = services (server s)" using r' by (auto split: if_splits)
  have f: "mset (flight ?s) = mset (flight s)"
    using c r' by (auto simp: flight_def m error_message_def split: if_splits)
  then have fs: "set (flight ?s) = set (flight s)" by (rule mset_eq_setD)
  have "mset (tokens ?s) = mset [0..<length (issued ?s)]"
    using inv f by (simp add: rpc_inv_def tokens_def)
  moreover have "content_ok ?s"
    using inv c n r' content_mono [of ?s s]
    by (auto simp: rpc_inv_def content_ok_def is_served_def is_response_def is_answer_def error_message_def split: if_splits)
  moreover have "table_ok ?s" using inv fs by (simp add: rpc_inv_def table_ok_def)
  ultimately show ?thesis by (simp add: rpc_inv_def)
qed

lemma answer_inv:
  assumes inv: "rpc_inv s" and p: "serving (server s) = xs @ (i, call) # ys"
  shows "rpc_inv (s\<lparr>server := (server s)\<lparr>serving := xs @ ys\<rparr>, s2c := s2c s @ [doneCallback r i],
    answers := answers s @ [(number i, r)]\<rparr>)" (is "rpc_inv ?s")
proof -
  obtain n where n: "n < length (issued s)" "i = cid n" "call = issued s ! n" "verdict (services (server s)) call = NO_ERROR"
    using inv p by (auto simp: rpc_inv_def content_ok_def is_served_def)
  note b = number_cid [OF rpc_bound [OF inv n(1)]]
  have f: "mset (flight ?s) = mset (flight s)" using p by (simp add: flight_def doneCallback_def)
  then have fs: "set (flight ?s) = set (flight s)" by (rule mset_eq_setD)
  have "mset (tokens ?s) = mset [0..<length (issued ?s)]"
    using inv f by (simp add: rpc_inv_def tokens_def)
  moreover have "content_ok ?s"
  proof -
    have "services (server ?s) = services (server s)" "set (answers s) \<subseteq> set (answers ?s)" "\<exists>more. issued ?s = issued s @ more"
      by auto
    note mono = content_mono [OF this]
    have "is_response ?s (doneCallback r i)"
      using n b by (simp add: is_response_def is_answer_def doneCallback_def) blast
    then show ?thesis using inv p mono by (auto simp: rpc_inv_def content_ok_def)
  qed
  moreover have "table_ok ?s" using inv fs by (simp add: rpc_inv_def table_ok_def)
  ultimately show ?thesis by (simp add: rpc_inv_def)
qed

text \<open>The client finds the call of a response, and no other message has its number.\<close>

lemma response_result:
  assumes inv: "rpc_inv s" and c: "s2c s = m # ms"
  obtains n where "mid m = cid n" "is_answer s n (response m)" "number (mid m) = n"
    "onRpcMessage m (client s) = Inr ([], (client s)\<lparr>outstandings := (outstandings (client s))(cid n := None),
       completed := completed (client s) @ [(n, response m)]\<rparr>)"
proof -
  have m: "is_response s m" using inv c by (simp add: rpc_inv_def content_ok_def)
  then obtain n where n: "mid m = cid n" "is_answer s n (response m)" "mtype m = RESPONSE" "response m \<noteq> None \<or> error m \<noteq> None"
    by (auto simp: is_response_def)
  then have b: "Suc n < 2 ^ 64" using rpc_bound [OF inv] by (auto simp: is_answer_def)
  have "n \<in> set (flight s)" using c n number_cid [OF b] by (simp add: flight_def)
  then have "outstandings (client s) (mid m) = Some \<lparr>out_response = True, out_done = Some n\<rparr>"
    using inv n number_cid [OF b] cid_nonzero [OF b] by (simp add: rpc_inv_def table_ok_def)
  then show ?thesis
    using n number_cid [OF b] by (intro that) (auto simp: onRpcMessage_def onResponse_def Let_def)
qed

lemma response_inv:
  assumes inv: "rpc_inv s" and c: "s2c s = m # ms" and r: "onRpcMessage m (client s) = Inr (replies, ch)"
  shows "rpc_inv (s\<lparr>client := ch, s2c := ms, c2s := c2s s @ replies\<rparr>)" (is "rpc_inv ?s")
proof -
  obtain n where n: "mid m = cid n" "is_answer s n (response m)" "number (mid m) = n" "replies = []"
    "ch = (client s)\<lparr>outstandings := (outstandings (client s))(cid n := None), completed := completed (client s) @ [(n, response m)]\<rparr>"
    by (rule response_result [OF inv c]) (use r in simp)
  then have b: "Suc n < 2 ^ 64" using rpc_bound [OF inv] by (auto simp: is_answer_def)
  have f: "mset (flight s) = add_mset n (mset (flight ?s))" using c n by (simp add: flight_def)
  then have fs: "set (flight s) = insert n (set (flight ?s))" by (metis set_mset_add_mset_insert set_mset_mset)
  have "distinct (flight s)" using tokens_distinct [OF inv] by (simp add: tokens_def)
  then have "distinct (n # flight ?s)" using f by (metis mset.simps(2) mset_eq_imp_distinct_iff)
  then have nf: "n \<notin> set (flight ?s)" by simp
  have "mset (tokens ?s) = mset [0..<length (issued ?s)]"
    using inv f n by (simp add: rpc_inv_def tokens_def)
  moreover have "content_ok ?s"
  proof -
    have "services (server ?s) = services (server s)" "set (answers s) \<subseteq> set (answers ?s)" "\<exists>more. issued ?s = issued s @ more"
      by auto
    note mono = content_mono [OF this]
    show ?thesis using inv c n(2,4,5) mono by (auto simp: rpc_inv_def content_ok_def)
  qed
  moreover have "table_ok ?s"
  proof -
    have "(if i = cid n then None else outstandings (client s) i) =
        (if i \<noteq> 0 \<and> number i \<in> set (flight ?s) then Some \<lparr>out_response = True, out_done = Some (number i)\<rparr> else None)" for i
      using inv fs nf cid_number [of i] number_cid [OF b] by (cases "i = cid n") (auto simp: rpc_inv_def table_ok_def)
    moreover have cl: "client ?s = ch" by simp
    moreover have "outstandings ch i = (if i = cid n then None else outstandings (client s) i)" for i
      by (simp add: n(5))
    ultimately have "outstandings (client ?s) = (\<lambda>i. if i \<noteq> 0 \<and> number i \<in> set (flight ?s)
        then Some \<lparr>out_response = True, out_done = Some (number i)\<rparr> else None)"
      by (intro ext) (simp only: cl)
    moreover have "rpc_id ch = rpc_id (client s)" by (simp add: n(5))
    ultimately show ?thesis using inv unfolding rpc_inv_def table_ok_def by simp
  qed
  ultimately show ?thesis by (simp add: rpc_inv_def)
qed

lemma rpc_step_inv: "rpc_inv s \<Longrightarrow> rpc_step s s' \<Longrightarrow> rpc_inv s'"
  by (erule rpc_step.cases) (simp_all add: begin_inv insert_inv send_inv request_inv answer_inv response_inv)

text \<open>No call is answered twice.\<close>

definition answers_ok :: "RpcSystem \<Rightarrow> bool" where
  "answers_ok s \<longleftrightarrow> distinct (map fst (answers s))
    \<and> fst ` set (answers s) \<subseteq> (number \<circ> mid) ` set (s2c s) \<union> fst ` set (completed (client s))"

lemma answers_step:
  assumes inv: "rpc_inv s" "answers_ok s" and step: "rpc_step s s'"
  shows "answers_ok s'"
  using step
proof cases
  case (rpc_begin i ch call)
  then have "completed ch = completed (client s)" by (auto simp: call_id_def Let_def)
  with rpc_begin(1) show ?thesis using inv(2) by (simp add: answers_ok_def)
next
  case (rpc_insert xs i n ys)
  then show ?thesis using inv(2) by (simp add: answers_ok_def call_insert_def)
next
  case (rpc_answer xs i call ys r)
  have "number i \<notin> (number \<circ> mid) ` set (s2c s) \<union> fst ` set (completed (client s))"
    using tokens_distinct [OF inv(1)] rpc_answer(2) by (auto simp: tokens_def flight_def)
  then have "number i \<notin> fst ` set (answers s)" using inv(2) by (auto simp: answers_ok_def)
  then show ?thesis using inv(2) rpc_answer by (auto simp: answers_ok_def doneCallback_def)
next
  case (rpc_response m ms replies ch)
  obtain n where "number (mid m) = n" "completed ch = completed (client s) @ [(n, response m)]"
    by (rule response_result [OF inv(1) rpc_response(2)]) (use rpc_response(3) in auto)
  then show ?thesis using inv(2) rpc_response(1,2) by (auto simp: answers_ok_def)
qed (use inv(2) in \<open>auto simp: answers_ok_def\<close>)

definition rpc_ok :: "RpcSystem \<Rightarrow> bool" where
  "rpc_ok s \<longleftrightarrow> rpc_inv s \<and> answers_ok s"

lemma rpc_ok_step: "rpc_ok s \<Longrightarrow> rpc_step s s' \<Longrightarrow> rpc_ok s'"
  using rpc_step_inv [of s s'] answers_step [of s s'] by (simp add: rpc_ok_def)

lemma mkRpcSystem_ok: "rpc_ok (mkRpcSystem t)"
  using mkRpcSystem_inv by (simp add: rpc_ok_def answers_ok_def mkRpcSystem_def)

interpretation rpc: transition_system "\<lambda>s. \<exists>t. s = mkRpcSystem t" rpc_step rpc_ok
  by unfold_locales (use mkRpcSystem_ok in blast, rule rpc_ok_step)

abbreviation rpc_reach :: "RpcSystem \<Rightarrow> bool" where
  "rpc_reach \<equiv> reach (\<lambda>s. \<exists>t. s = mkRpcSystem t) rpc_step"

section \<open>Properties\<close>

text \<open>A call that has not completed is somewhere, and from there it can move on.\<close>

lemma rpc_progress:
  assumes inv: "rpc_inv s" and c: "length (completed (client s)) < length (issued s)"
  shows "\<exists>s'. rpc_step s s' \<and> issued s' = issued s"
proof -
  have "length (tokens s) = length (issued s)"
    using inv by (metis rpc_inv_def mset_eq_length length_upt diff_zero)
  then have "prep s \<noteq> [] \<or> flight s \<noteq> []" using c by (auto simp: tokens_def)
  then consider "prep s \<noteq> []" | "tosend s \<noteq> []" | "c2s s \<noteq> []" | "serving (server s) \<noteq> []" | "s2c s \<noteq> []"
    by (auto simp: flight_def)
  then show ?thesis
  proof cases
    case 1
    then obtain i n xs where "prep s = [] @ (i, n) # xs" by (metis append_Nil neq_Nil_conv surj_pair)
    from rpc_step.rpc_insert [OF this] show ?thesis by force
  next
    case 2
    then obtain m xs where "tosend s = [] @ m # xs" by (auto simp: neq_Nil_conv)
    from rpc_step.rpc_send [OF this] show ?thesis by force
  next
    case 3
    then obtain m ms where m: "c2s s = m # ms" by (auto simp: neq_Nil_conv)
    then have "mtype m = REQUEST" using inv by (auto simp: rpc_inv_def content_ok_def is_request_def)
    then obtain replies ch where "onRpcMessage m (server s) = Inr (replies, ch)"
      by (cases "onRequest m (server s)") (simp add: onRpcMessage_def)
    from rpc_step.rpc_request [OF m this] show ?thesis by force
  next
    case 4
    then obtain i call xs where "serving (server s) = [] @ (i, call) # xs" by (metis append_Nil neq_Nil_conv surj_pair)
    from rpc_step.rpc_answer [OF this] show ?thesis by force
  next
    case 5
    then obtain m ms where m: "s2c s = m # ms" by (auto simp: neq_Nil_conv)
    then obtain replies ch where "onRpcMessage m (client s) = Inr (replies, ch)"
      by (rule response_result [OF inv]) blast
    from rpc_step.rpc_response [OF m this] show ?thesis by force
  qed
qed

text \<open>
  C7: Whatever threads call at the same time and in whatever order the services answer, every call completes at most once,
  and it completes with the one answer the services gave to this very call, or without one if its service, method or
  request was refused. No assertion fails, no call is answered twice, a call that has not completed can always move on,
  and when all have completed the client remembers none.
\<close>

theorem rpc_calls:
  assumes "rpc_reach s"
  shows "distinct (map fst (completed (client s))) \<and> distinct (map fst (answers s))
    \<and> ((n, r) \<in> set (completed (client s)) \<longrightarrow> n < length (issued s) \<and> (case r of
          Some d \<Rightarrow> (n, d) \<in> set (answers s)
        | None \<Rightarrow> verdict (services (server s)) (issued s ! n) \<noteq> NO_ERROR))
    \<and> (s2c s = m # ms \<longrightarrow> (\<exists>ch. onRpcMessage m (client s) = Inr ([], ch)))
    \<and> (length (completed (client s)) < length (issued s) \<longrightarrow> (\<exists>s'. rpc_step s s' \<and> issued s' = issued s))
    \<and> (length (completed (client s)) = length (issued s) \<longrightarrow> outstandings (client s) = Map.empty)"
proof -
  have inv: "rpc_inv s" "answers_ok s" using rpc.reach_inv [OF assms] by (simp_all add: rpc_ok_def)
  have "distinct (map fst (completed (client s)))" using tokens_distinct [OF inv(1)] by (simp add: tokens_def)
  moreover have "distinct (map fst (answers s))" using inv(2) by (simp add: answers_ok_def)
  moreover have "is_answer s n r" if "(n, r) \<in> set (completed (client s))"
    using inv(1) that by (auto simp: rpc_inv_def content_ok_def)
  then have "(n, r) \<in> set (completed (client s)) \<longrightarrow> n < length (issued s) \<and> (case r of
      Some d \<Rightarrow> (n, d) \<in> set (answers s) | None \<Rightarrow> verdict (services (server s)) (issued s ! n) \<noteq> NO_ERROR)"
    by (auto simp: is_answer_def split: option.splits)
  moreover have "\<exists>ch. onRpcMessage m (client s) = Inr ([], ch)" if "s2c s = m # ms"
    by (rule response_result [OF inv(1) that]) blast
  moreover have "outstandings (client s) = Map.empty" if "length (completed (client s)) = length (issued s)"
  proof -
    have "length (tokens s) = length (issued s)"
      using inv(1) by (metis rpc_inv_def mset_eq_length length_upt diff_zero)
    then have "flight s = []" using that by (simp add: tokens_def)
    then show ?thesis using inv(1) by (simp add: rpc_inv_def table_ok_def)
  qed
  ultimately show ?thesis using rpc_progress [OF inv(1)] by blast
qed

text \<open>One call to an echo service, answered.\<close>

definition echo_service :: service_table where
  "echo_service = registerService ''Echo'' [''Say'' \<mapsto> (\<lambda>_. True)] Map.empty"

lemma rpc_next: "rpc_reach s \<Longrightarrow> rpc_step s s' \<Longrightarrow> rpc_reach s'"
  by (rule reach_step)

lemma echo_call: "\<exists>s. rpc_reach s \<and> completed (client s) = [(0, Some ''hi'')] \<and> answers s = [(0, ''hi'')] \<and> length (issued s) = 1"
proof -
  let ?call = "(''Echo'', ''Say'', ''hi'')"
  define s0 where "s0 = mkRpcSystem echo_service"
  have r0: "rpc_reach s0" by (rule reach_init) (auto simp: s0_def)
  define s1 where "s1 = s0\<lparr>client := (client s0)\<lparr>rpc_id := 1\<rparr>, prep := [(1, 0)], issued := [?call]\<rparr>"
  have "rpc_step s0 (s0\<lparr>client := (client s0)\<lparr>rpc_id := 1\<rparr>, prep := prep s0 @ [(1, length (issued s0))], issued := issued s0 @ [?call]\<rparr>)"
    by (rule rpc_step.rpc_begin) (simp_all add: call_id_def s0_def mkRpcSystem_def mkRpcChannel_def)
  then have "rpc_step s0 s1" by (simp add: s1_def s0_def mkRpcSystem_def)
  from rpc_next [OF r0 this] have r1: "rpc_reach s1" .
  let ?m = "call_message 1 ?call"
  define s2 where "s2 = s1\<lparr>client := call_insert 1 \<lparr>out_response = True, out_done = Some 0\<rparr> (client s1), prep := [] @ [],
    tosend := tosend s1 @ [call_message 1 (issued s1 ! 0)]\<rparr>"
  have r2: "rpc_reach s2" unfolding s2_def
    by (rule rpc_next [OF r1], rule rpc_step.rpc_insert) (simp add: s1_def)
  have t2: "tosend s2 = [] @ ?m # []" by (simp add: s2_def s1_def s0_def mkRpcSystem_def)
  note r3 = rpc_next [OF r2 rpc_step.rpc_send [OF t2]]
  define s3 where "s3 = s2\<lparr>tosend := [] @ [], c2s := c2s s2 @ [?m]\<rparr>"
  have c3: "c2s s3 = [?m]" by (simp add: s3_def s2_def s1_def s0_def mkRpcSystem_def rpc_onConnection_def)
  have "server s3 = setServices echo_service mkRpcChannel" by (simp add: s3_def s2_def s1_def s0_def mkRpcSystem_def rpc_onConnection_def)
  then have o3: "onRpcMessage ?m (server s3) = Inr ([], (server s3)\<lparr>serving := serving (server s3) @ [(1, ?call)]\<rparr>)"
    by (simp add: onRpcMessage_def onRequest_def call_message_def verdict_def setServices_def echo_service_def registerService_def Let_def)
  have "rpc_reach s3" using r3 by (simp add: s3_def)
  note r4 = rpc_next [OF this rpc_step.rpc_request [OF c3 o3]]
  define s4 where "s4 = s3\<lparr>server := (server s3)\<lparr>serving := serving (server s3) @ [(1, ?call)]\<rparr>, c2s := [], s2c := s2c s3 @ []\<rparr>"
  have v4: "serving (server s4) = [] @ (1, ?call) # []"
    by (simp add: s4_def s3_def s2_def s1_def s0_def mkRpcSystem_def mkRpcChannel_def setServices_def rpc_onConnection_def)
  have "rpc_reach s4" using r4 by (simp add: s4_def)
  note r5 = rpc_next [OF this rpc_step.rpc_answer [OF v4, of "''hi''"]]
  define s5 where "s5 = s4\<lparr>server := (server s4)\<lparr>serving := [] @ []\<rparr>, s2c := s2c s4 @ [doneCallback ''hi'' 1],
    answers := answers s4 @ [(number 1, ''hi'')]\<rparr>"
  have r5': "rpc_reach s5" using r5 by (simp add: s5_def)
  have s2c5: "s2c s5 = [doneCallback ''hi'' 1]" by (simp add: s5_def s4_def s3_def s2_def s1_def s0_def mkRpcSystem_def)
  have "outstandings (client s5) 1 = Some \<lparr>out_response = True, out_done = Some 0\<rparr>"
    by (simp add: s5_def s4_def s3_def s2_def s1_def call_insert_def)
  then have o5: "onRpcMessage (doneCallback ''hi'' 1) (client s5) = Inr ([], (client s5)\<lparr>outstandings := (outstandings (client s5))(1 := None),
    completed := completed (client s5) @ [(0, Some ''hi'')]\<rparr>)"
    by (simp add: onRpcMessage_def onResponse_def doneCallback_def Let_def)
  note r6 = rpc_next [OF r5' rpc_step.rpc_response [OF s2c5 o5]]
  show ?thesis
    by (rule exI, rule conjI, rule r6)
      (simp add: s5_def s4_def s3_def s2_def s1_def s0_def mkRpcSystem_def mkRpcChannel_def call_insert_def number_def)
qed

theorem rpc_calls_witness:
  "\<exists>s. rpc_reach s \<and> completed (client s) = [(0, Some ''hi'')] \<and> (0, ''hi'') \<in> set (answers s) \<and> outstandings (client s) = Map.empty"
proof -
  obtain s where s: "rpc_reach s" "completed (client s) = [(0, Some ''hi'')]" "length (issued s) = 1" using echo_call by blast
  with rpc_calls [OF s(1), of 0 "Some ''hi''"] show ?thesis by auto
qed

end
