(* ===== verification/Spec2Isabelle.thy ===== *)
theory Spec2Isabelle
  imports Prelude Endian Buffer Http Date UtcTime TimeZone LogStream Doubles NumberFormat
    Timestamp TimerQueue Monitor Queues ThreadPool AsyncLogging Channel Poller EventLoop TcpConnection Connector LoopThreads TcpServer ProtobufCodec Rpc
begin

text \<open>
  Verification of the muduo network library under \<^verbatim>\<open>src/linux_multithread_server\<close>: \<^verbatim>\<open>muduo/base\<close> (threads, queues,
  logging, dates) and \<^verbatim>\<open>muduo/net\<close> (the event loop, TCP, HTTP and RPC). File names below are relative to that directory.

  \<^bold>\<open>The program.\<close> An \<^verbatim>\<open>EventLoop\<close> belongs to one thread. It asks its \<^verbatim>\<open>Poller\<close> which \<^verbatim>\<open>Channel\<close>s are active, calls their handlers,
  then runs the functors that other threads have queued, who wake it up through an eventfd. Timers are a channel of the loop
  (\<^verbatim>\<open>TimerQueue\<close>). A \<^verbatim>\<open>TcpServer\<close> accepts connections in its own loop and gives each to a loop of an
  \<^verbatim>\<open>EventLoopThreadPool\<close>; a \<^verbatim>\<open>TcpConnection\<close> lives in that loop, reads into and writes from a \<^verbatim>\<open>Buffer\<close>, and tells the server
  when it closes. A \<^verbatim>\<open>Connector\<close> makes outgoing connections. HTTP and RPC parse the bytes of the buffers. Below this,
  \<^verbatim>\<open>muduo/base\<close> has mutexes, conditions, blocking queues, a thread pool, an asynchronous logger, and times.

  \<^bold>\<open>Conventions.\<close> A class is a \<open>record\<close> with the names of its members less the trailing underscore, an enumeration a \<open>datatype\<close>, a member
  function a definition from the object before to the object after. An assertion, \<^verbatim>\<open>LOG_FATAL\<close> or an access outside an
  object is an error of the result type \<open>'a res\<close>, in which operations are composed with \<open>bindE\<close> and \<open>foldE\<close>, so that
  ``no assertion fails'' reads ``the result is \<open>Inr\<close>''. What the operating system returns is an argument. Integers are \<open>int\<close> or
  \<open>nat\<close> where their range is not at stake; where it is, they wrap: the \<^verbatim>\<open>int\<close> arithmetic of dates (\<open>add32\<close>, \<open>sub32\<close>, \<open>mul32\<close>), \<^verbatim>\<open>makeSpace\<close> (\<open>64 word\<close>), byte order and
  event masks (\<open>word\<close>), narrowing casts (\<open>to_int32\<close>); a \<^verbatim>\<open>double\<close> is a rational rounded to 53 bits. Concurrency is interleaving: a critical section is one step,
  everything outside is a step of its own, and the reachable states are an \<open>inductive\<close> predicate. Objects that are used under a
  contract have it as a predicate on the next event (\<open>allowed\<close>, \<open>server_allowed\<close>, \<open>timer_allowed\<close>); what happens outside is
  shown by separate lemmas on hazards.

  \<^bold>\<open>Theories.\<close>
  \<^item> \<open>Prelude\<close>: results, C++ division, memory areas as lists, decimal text, \<^verbatim>\<open>std::map\<close>, and the interface
    \<open>transition_system\<close> (an initial predicate, a step, an invariant), through which the invariants of the interleavings are derived.
  \<^item> \<open>Endian\<close>, \<open>Buffer\<close> (\<^verbatim>\<open>net/Endian.h\<close>, \<^verbatim>\<open>net/Buffer.h/.cc\<close>): the buffer is shown to behave like a queue of bytes
    under any sequence of calls (interface \<open>byte_buffer\<close>, on which the clients rely), integers survive between hosts of
    different byte order, \<^verbatim>\<open>readFd\<close> appends what was read, and sizes do not wrap below \<open>2 ^ 64\<close>.
  \<^item> \<open>Http\<close> (\<^verbatim>\<open>net/http\<close>): requests are parsed as printed, however they are cut into chunks, and answered once. The parser
    loop is a partial function; it is shown exactly when it returns.
  \<^item> \<open>Date\<close>, \<open>UtcTime\<close>, \<open>TimeZone\<close>, \<open>Timestamp\<close>, \<open>Doubles\<close> (\<^verbatim>\<open>base/Date\<close>, \<open>TimeZone\<close>, \<open>Timestamp\<close>): the day number is a
    bijection with the Gregorian calendar as long as the 32-bit arithmetic does not overflow, up to day 536838867; \<^verbatim>\<open>toUtcTime\<close> is \<^verbatim>\<open>gmtime_r\<close>
    in that range; zone files are read as they were written; the binary search finds the transition in force; sums and
    differences of times are off by at most a microsecond.
  \<^item> \<open>LogStream\<close>, \<open>NumberFormat\<close> (\<^verbatim>\<open>base/LogStream\<close>): what is inserted is what the buffer holds; lengths of formatted numbers.
  \<^item> \<open>Monitor\<close> (\<^verbatim>\<open>base/Mutex.h\<close>, \<^verbatim>\<open>Condition.h\<close>): threads that run operations under one lock, spurious wakeups included.
    Interfaces \<open>monitor_client\<close> (every interleaving is a sequence of complete operations) and \<open>wakeup_client\<close> (no wakeup is lost). \<open>Queues\<close>
    (\<^verbatim>\<open>BlockingQueue\<close>, \<^verbatim>\<open>BoundedBlockingQueue\<close>, \<^verbatim>\<open>CountDownLatch\<close>), \<open>ThreadPool\<close> and \<open>AsyncLogging\<close> are clients: elements, tasks
    and lines are neither lost nor duplicated nor reordered; and what \<^verbatim>\<open>stop\<close> leaves behind.
  \<^item> \<open>Channel\<close>, \<open>Poller\<close> (\<^verbatim>\<open>net/Channel\<close>, \<^verbatim>\<open>net/poller\<close>): event masks and dispatch; both back ends implement the interface
    \<open>poller\<close> and keep the same registrations.
  \<^item> \<open>TimerQueue\<close> (\<^verbatim>\<open>net/Timer\<close>, \<^verbatim>\<open>TimerQueue\<close>): timers are pointers into a heap whose allocator may reuse addresses, the clock is the
    sequence of its readings. Both sets agree, no freed timer is used, the descriptor is armed in time, and the timers due fire.
  \<^item> \<open>EventLoop\<close>: functors are called once and in order, and no wakeup is lost. \<^verbatim>\<open>poll\<close> blocks until a channel is ready.
  \<^item> \<open>TcpConnection\<close>: the stream of bytes, the callbacks and the assertions over the whole life of a connection; graceful
    shutdown; hazards.
  \<^item> \<open>Connector\<close>: no socket leaks and no assertion fails; the delays of the retries.
  \<^item> \<open>LoopThreads\<close> (\<^verbatim>\<open>EventLoopThread\<close>, \<^verbatim>\<open>EventLoopThreadPool\<close>): start, join and the turns of the loops.
  \<^item> \<open>TcpServer\<close> (with \<^verbatim>\<open>Acceptor\<close>): over the models of the connection and of the pool, with the queues of functors between
    the loops: every connection is taken out of the map once and destroyed once.
  \<^item> \<open>ProtobufCodec\<close>, \<open>Rpc\<close> (\<^verbatim>\<open>net/protobuf\<close>, \<^verbatim>\<open>net/protorpc\<close>): frames are received as sent; every remote call completes at
    most once with its own answer.

  \<^bold>\<open>Contracts.\<close>
  \<^item> A connection is established once and first; a hang-up without readable data is reported alone; there is no
    \<^verbatim>\<open>startRead\<close> or \<^verbatim>\<open>stopRead\<close> once it has closed; \<^verbatim>\<open>shutdown\<close>, \<^verbatim>\<open>forceClose\<close> and \<^verbatim>\<open>forceCloseWithDelay\<close> in other threads, whose
    test and store of \<^verbatim>\<open>state_\<close> are two steps, are not overtaken by the closing; it is destroyed once, not while shutting down.
  \<^item> \<^verbatim>\<open>addTimer\<close> in another thread reads its timer's sequence number before the timer is deleted.
  \<^item> A server is started in its own thread, with the number of threads set before.
  \<^item> A connector is started once, and restarted only after it handed over a connection.

  The lemmas \<open>close_race_hazard\<close>, \<open>hangup_urgent_hazard\<close>, \<open>closed_connection_hazards\<close>, \<open>addTimer_use_after_free\<close>,
  \<open>start_outside_loop\<close> and \<open>stop_start_hazards\<close> show what happens otherwise.

  \<^bold>\<open>Parameters.\<close> Code that is not in the repository is a parameter with its documented behaviour as a hypothesis: the
  circular buffer of boost (\<open>circular_buffer\<close>), the allocator (\<open>fresh_alloc\<close>), protobuf and adler32 (\<open>codec_ok\<close>). Each has a concrete instance in the witnesses.

  \<^bold>\<open>Bounds.\<close> No fuel is used: loops are structural recursion, recursion with a termination proof, or the one partial function of the
  HTTP parser. Bounds in the statements are those of the code: \<open>2 ^ 64\<close> bytes of a buffer, \<open>2 ^ 31 - 1\<close> connections (the \<^verbatim>\<open>int\<close>
  in their names), 64 MB of a frame, \<open>2 ^ 53\<close> where doubles are exact, day 536838867 where \<^verbatim>\<open>4 * a + 3\<close> overflows.

  \<^bold>\<open>Not modelled.\<close> Wrappers of system calls (\<^verbatim>\<open>Socket\<close>, \<^verbatim>\<open>SocketsOps\<close>, \<^verbatim>\<open>InetAddress\<close>, \<^verbatim>\<open>Thread\<close>, \<^verbatim>\<open>ProcessInfo\<close>), log files and the composition of log lines (\<^verbatim>\<open>LogFile\<close>, \<^verbatim>\<open>FileUtil\<close>, \<^verbatim>\<open>Logging\<close>),
  \<^verbatim>\<open>TcpClient\<close>, the inspector and the examples; insertion of doubles into a log stream; errors of system calls that the code only logs; and the memory model below
  sequential consistency.
\<close>

end
